(* ===== verification/Kernel_Prelude.thy ===== *)
theory Kernel_Prelude
  imports Main "HOL-Library.Word"
begin

text \<open>
  Shared vocabulary of the development.

  \<^item> The machine types of \<^verbatim>\<open>types.h\<close> and the channels processes sleep on.
  \<^item> The outcome of a kernel routine: it returns a value, it panics with the message of the
    source, or it goes to sleep on a channel.  Routines that change state are functions from a
    state to an outcome and the new state; \<open>kbind\<close> is the C sequencing of two of them and
    \<open>zoom\<close> runs a routine of one component inside the state of a larger one.
  \<^item> Total (\<open>wp\<close>) and partial (\<open>wlp\<close>) correctness of such routines, with the rules
    in the collection \<open>wp_rules\<close>.
  \<^item> The first-free-slot search that every fixed-size table of the kernel uses, the ring-buffer
    indexing of pipes and of the console, and state machines, each as a locale with the lemmas
    its users share; and what a routine may change, proved statement by statement.
\<close>

unbundle bit_operations_syntax

named_theorems wp_rules \<open>rules that compute weakest preconditions of kernel routines\<close>
named_theorems const_defs \<open>definitions of the numeric constants of the headers\<close>

section \<open>Machine types, channels, outcomes\<close>

type_synonym u8 = "8 word"
type_synonym u16 = "16 word"
type_synonym u32 = "32 word"

text \<open>
  A sleep channel is the address of some kernel or user object.  Only the identity of the object
  matters, so each kind of object that the kernel sleeps on is one constructor.
\<close>

datatype chan =
    ChanNone
  | ChanPipeRead nat
  | ChanPipeWrite nat
  | ChanLog
  | ChanSleeplock nat
  | ChanBuf nat
  | ChanProc nat
  | ChanTicks
  | ChanInput
  | ChanUser u32

datatype 'a res = Ret 'a | Panic string | Sleep chan

type_synonym ('s, 'a) kop = "'s \<Rightarrow> 'a res \<times> 's"

definition kret :: "'a \<Rightarrow> ('s, 'a) kop" where
  "kret x = (\<lambda>s. (Ret x, s))"

definition panic :: "string \<Rightarrow> ('s, 'a) kop" where
  "panic msg = (\<lambda>s. (Panic msg, s))"

definition ksleep :: "chan \<Rightarrow> ('s, 'a) kop" where
  "ksleep c = (\<lambda>s. (Sleep c, s))"

definition kget :: "('s \<Rightarrow> 'a) \<Rightarrow> ('s, 'a) kop" where
  "kget f = (\<lambda>s. (Ret (f s), s))"

definition kmod :: "('s \<Rightarrow> 's) \<Rightarrow> ('s, unit) kop" where
  "kmod f = (\<lambda>s. (Ret (), f s))"

definition kbind :: "('s, 'a) kop \<Rightarrow> ('a \<Rightarrow> ('s, 'b) kop) \<Rightarrow> ('s, 'b) kop" where
  "kbind m f = (\<lambda>s. case m s of
      (Ret x, t) \<Rightarrow> f x t
    | (Panic e, t) \<Rightarrow> (Panic e, t)
    | (Sleep c, t) \<Rightarrow> (Sleep c, t))"

definition kseq :: "('s, unit) kop \<Rightarrow> ('s, 'b) kop \<Rightarrow> ('s, 'b) kop" where
  "kseq m n = kbind m (\<lambda>_. n)"

definition zoom :: "('s \<Rightarrow> 't) \<Rightarrow> ('t \<Rightarrow> 's \<Rightarrow> 's) \<Rightarrow> ('t, 'a) kop \<Rightarrow> ('s, 'a) kop" where
  "zoom get put m = (\<lambda>s. case m (get s) of (r, t) \<Rightarrow> (r, put t s))"

text \<open>Total correctness excludes panics and sleeps; partial correctness does not.\<close>

definition wp :: "('s, 'a) kop \<Rightarrow> ('a \<Rightarrow> 's \<Rightarrow> bool) \<Rightarrow> 's \<Rightarrow> bool" where
  "wp m Q s = (case m s of (Ret x, t) \<Rightarrow> Q x t | _ \<Rightarrow> False)"

definition wlp :: "('s, 'a) kop \<Rightarrow> ('a \<Rightarrow> 's \<Rightarrow> bool) \<Rightarrow> 's \<Rightarrow> bool" where
  "wlp m Q s = (case m s of (Ret x, t) \<Rightarrow> Q x t | _ \<Rightarrow> True)"

lemmas kop_defs = kret_def panic_def ksleep_def kget_def kmod_def kbind_def kseq_def

lemma kbind_kret [simp]: "kbind (kret x) f = f x"
  by (simp add: kop_defs)

lemma kbind_assoc: "kbind (kbind m f) g = kbind m (\<lambda>x. kbind (f x) g)"
  by (rule ext) (auto simp: kbind_def split: res.splits prod.splits)

lemma kbind_Ret:
  "kbind m f s = (Ret y, u) \<longleftrightarrow> (\<exists>x t. m s = (Ret x, t) \<and> f x t = (Ret y, u))"
  by (auto simp: kbind_def split: res.splits prod.splits)

lemma kbind_Ret_step: "m s = (Ret x, t) \<Longrightarrow> kbind m f s = f x t"
  by (simp add: kbind_def)

lemma wp_kret [wp_rules]: "wp (kret x) Q s = Q x s"
  by (simp add: wp_def kret_def)

lemma wp_panic [wp_rules]: "wp (panic e) Q s = False"
  by (simp add: wp_def panic_def)

lemma wp_ksleep [wp_rules]: "wp (ksleep c) Q s = False"
  by (simp add: wp_def ksleep_def)

lemma wp_kget [wp_rules]: "wp (kget f) Q s = Q (f s) s"
  by (simp add: wp_def kget_def)

lemma wp_kmod [wp_rules]: "wp (kmod f) Q s = Q () (f s)"
  by (simp add: wp_def kmod_def)

lemma wp_kbind [wp_rules]: "wp (kbind m f) Q s = wp m (\<lambda>x. wp (f x) Q) s"
  by (auto simp: wp_def kbind_def split: res.splits prod.splits)

lemma wp_kseq [wp_rules]: "wp (kseq m n) Q s = wp m (\<lambda>_. wp n Q) s"
  by (simp add: kseq_def wp_kbind)

lemma wp_if [wp_rules]: "wp (if b then m else n) Q s = (if b then wp m Q s else wp n Q s)"
  by simp

lemma wp_zoom [wp_rules]: "wp (zoom get put m) Q s = wp m (\<lambda>x t. Q x (put t s)) (get s)"
  by (auto simp: wp_def zoom_def split: res.splits prod.splits)

lemma wlp_kret [wp_rules]: "wlp (kret x) Q s = Q x s"
  by (simp add: wlp_def kret_def)

lemma wlp_panic [wp_rules]: "wlp (panic e) Q s = True"
  by (simp add: wlp_def panic_def)

lemma wlp_ksleep [wp_rules]: "wlp (ksleep c) Q s = True"
  by (simp add: wlp_def ksleep_def)

lemma wlp_kget [wp_rules]: "wlp (kget f) Q s = Q (f s) s"
  by (simp add: wlp_def kget_def)

lemma wlp_kmod [wp_rules]: "wlp (kmod f) Q s = Q () (f s)"
  by (simp add: wlp_def kmod_def)

lemma wlp_kbind [wp_rules]: "wlp (kbind m f) Q s = wlp m (\<lambda>x. wlp (f x) Q) s"
  by (auto simp: wlp_def kbind_def split: res.splits prod.splits)

lemma wlp_kseq [wp_rules]: "wlp (kseq m n) Q s = wlp m (\<lambda>_. wlp n Q) s"
  by (simp add: kseq_def wlp_kbind)

lemma wlp_if [wp_rules]: "wlp (if b then m else n) Q s = (if b then wlp m Q s else wlp n Q s)"
  by simp

lemma wlp_zoom [wp_rules]: "wlp (zoom get put m) Q s = wlp m (\<lambda>x t. Q x (put t s)) (get s)"
  by (auto simp: wlp_def zoom_def split: res.splits prod.splits)

lemma wp_mono: "wp m P s \<Longrightarrow> (\<And>x t. P x t \<Longrightarrow> Q x t) \<Longrightarrow> wp m Q s"
  by (auto simp: wp_def split: res.splits prod.splits)

lemma wlp_mono: "wlp m P s \<Longrightarrow> (\<And>x t. P x t \<Longrightarrow> Q x t) \<Longrightarrow> wlp m Q s"
  by (auto simp: wlp_def split: res.splits prod.splits)

lemma wlp_conj: "wlp m P s \<Longrightarrow> wlp m Q s \<Longrightarrow> wlp m (\<lambda>x t. P x t \<and> Q x t) s"
  by (auto simp: wlp_def split: res.splits prod.splits)

lemma wp_imp_wlp: "wp m Q s \<Longrightarrow> wlp m Q s"
  by (auto simp: wp_def wlp_def split: res.splits prod.splits)

lemma wp_iff: "wp m Q s \<longleftrightarrow> (\<exists>x t. m s = (Ret x, t) \<and> Q x t)"
  by (cases "m s"; cases "fst (m s)") (auto simp: wp_def)

lemma wlp_iff: "wlp m Q s \<longleftrightarrow> (\<forall>x t. m s = (Ret x, t) \<longrightarrow> Q x t)"
  by (auto simp: wlp_def split: res.splits prod.splits)

section \<open>Fixed-size tables: the first free slot\<close>

text \<open>
  The kernel's tables (\<^verbatim>\<open>ptable\<close>, \<^verbatim>\<open>ftable\<close>, \<^verbatim>\<open>icache\<close>, a
  process's descriptors) are arrays scanned from index 0 for the first entry that satisfies a
  condition.  \<open>first_idx\<close> is that scan.
\<close>

fun first_idx :: "('a \<Rightarrow> bool) \<Rightarrow> 'a list \<Rightarrow> nat option" where
  "first_idx P [] = None"
| "first_idx P (x # xs) = (if P x then Some 0 else map_option Suc (first_idx P xs))"

lemma first_idx_None: "first_idx P xs = None \<longleftrightarrow> (\<forall>x\<in>set xs. \<not> P x)"
  by (induction xs) auto

lemma first_idx_Some:
  "first_idx P xs = Some i \<longleftrightarrow> i < length xs \<and> P (xs ! i) \<and> (\<forall>j<i. \<not> P (xs ! j))"
proof (induction xs arbitrary: i)
  case Nil
  then show ?case by simp
next
  case (Cons x xs)
  then show ?case
    by (cases i) (auto simp: less_Suc_eq_0_disj)
qed

lemma first_idx_SomeD:
  assumes "first_idx P xs = Some i"
  shows "i < length xs" and "P (xs ! i)"
  using assms by (auto simp: first_idx_Some)

lemma first_idx_cong:
  "map P xs = map Q ys \<Longrightarrow> first_idx P xs = first_idx Q ys"
proof (induction xs arbitrary: ys)
  case Nil
  then show ?case by simp
next
  case (Cons x xs)
  then show ?case by (cases ys) auto
qed

lemma card_index_update:
  assumes "i < length xs" and "P (xs ! i)" and "\<not> P y"
  shows "Suc (card {j. j < length xs \<and> P (xs[i := y] ! j)}) = card {j. j < length xs \<and> P (xs ! j)}"
proof -
  have "{j. j < length xs \<and> P (xs ! j)} = insert i {j. j < length xs \<and> P (xs[i := y] ! j)}"
    using assms by (auto simp: nth_list_update)
  moreover have "i \<notin> {j. j < length xs \<and> P (xs[i := y] ! j)}"
    using assms by simp
  ultimately show ?thesis by simp
qed

locale slot_table =
  fixes free :: "'a \<Rightarrow> bool"
    and claim :: "'a \<Rightarrow> 'a"
    and alloc :: "'a list \<Rightarrow> (nat \<times> 'a list) option"
  assumes claim_used: "free x \<Longrightarrow> \<not> free (claim x)"
    and alloc_scan: "alloc xs = map_option (\<lambda>i. (i, xs[i := claim (xs ! i)])) (first_idx free xs)"
begin

lemma alloc_None: "alloc xs = None \<longleftrightarrow> (\<forall>x\<in>set xs. \<not> free x)"
  by (simp add: alloc_scan first_idx_None)

lemma alloc_Some:
  assumes "alloc xs = Some (i, ys)"
  shows "i < length xs \<and> free (xs ! i) \<and> (\<forall>j<i. \<not> free (xs ! j)) \<and> ys = xs[i := claim (xs ! i)]"
  using assms by (auto simp: alloc_scan first_idx_Some)

lemma alloc_length: "alloc xs = Some (i, ys) \<Longrightarrow> length ys = length xs"
  by (auto dest: alloc_Some)

lemma alloc_other: "alloc xs = Some (i, ys) \<Longrightarrow> j \<noteq> i \<Longrightarrow> ys ! j = xs ! j"
  by (auto dest: alloc_Some)

lemma alloc_uses:
  "alloc xs = Some (i, ys) \<Longrightarrow>
    Suc (card {j. j < length ys \<and> free (ys ! j)}) = card {j. j < length xs \<and> free (xs ! j)}"
  by (drule alloc_Some) (auto intro!: card_index_update simp: claim_used)

lemma alloc_twice_distinct:
  assumes "alloc xs = Some (i, ys)" and "alloc ys = Some (j, zs)"
  shows "i < j"
proof -
  note a = alloc_Some [OF assms(1)] and b = alloc_Some [OF assms(2)]
  have "i \<noteq> j" using a b claim_used by (metis nth_list_update_eq)
  moreover have "\<not> j < i" using a b by (auto simp: nth_list_update split: if_splits)
  ultimately show ?thesis by simp
qed

end

section \<open>Ring buffers with free-running counters\<close>

text \<open>
  Pipes and the console keep a buffer of \<open>N\<close> bytes and two \<^verbatim>\<open>uint\<close> counters that
  run freely and wrap at \<open>2 ^ 32\<close>; the byte for counter \<open>c\<close> is at index
  \<open>c mod N\<close>.  This works across the wrap-around because \<open>N\<close> divides \<open>2 ^ 32\<close>.
  \<open>ring_contents\<close> is the queue such a buffer holds.
\<close>

definition ring_contents :: "nat \<Rightarrow> (nat \<Rightarrow> 'a) \<Rightarrow> u32 \<Rightarrow> u32 \<Rightarrow> 'a list" where
  "ring_contents N buf r w = map (\<lambda>i. buf (unat (r + of_nat i) mod N)) [0..<unat (w - r)]"

locale ring =
  fixes N :: nat
  assumes N_pos: "0 < N" and N_dvd: "N dvd 2 ^ 32" and N_small: "N < 2 ^ 32"
begin

lemma unat_add_mod: "unat (r + of_nat i :: u32) mod N = (unat r + i) mod N"
proof -
  have "unat (r + of_nat i :: u32) = (unat r + i) mod 2 ^ 32"
    by (simp add: unat_word_ariths unat_of_nat mod_simps)
  then show ?thesis using mod_mod_cancel [OF N_dvd, of "unat r + i"] by simp
qed

lemma length_contents: "length (ring_contents N buf r w) = unat (w - r)"
  by (simp add: ring_contents_def)

lemma contents_empty: "ring_contents N buf r w = [] \<longleftrightarrow> r = w"
  by (auto simp: ring_contents_def unat_eq_zero)

lemma unat_diff_Suc:
  assumes "unat (w - r :: u32) < N"
  shows "unat (w + 1 - r) = Suc (unat (w - r))"
proof -
  have e: "unat (w + 1 - r) = unat ((w - r) + 1)" by (simp add: algebra_simps)
  have "unat ((w - r) + 1) = (unat (w - r) + 1) mod 2 ^ 32"
    by (simp add: unat_word_ariths)
  with e show ?thesis using assms N_small by (simp del: add_diff_eq diff_add_eq)
qed

lemma distinct_slots:
  assumes "unat (w - r :: u32) < N" and "i < unat (w - r)"
  shows "unat (r + of_nat i) mod N \<noteq> unat w mod N"
proof
  have w: "w = r + of_nat (unat (w - r))" by simp
  assume "unat (r + of_nat i) mod N = unat w mod N"
  then have "(unat r + i) mod N = (unat r + unat (w - r)) mod N"
    by (metis unat_add_mod w)
  then have "N dvd (unat (w - r) - i)"
    using assms(2) mod_eq_dvd_iff_nat [of "unat r + i" "unat r + unat (w - r)" N] by simp
  moreover have "0 < unat (w - r) - i" and "unat (w - r) - i < N"
    using assms by simp_all
  ultimately show False by (simp add: nat_dvd_not_less)
qed

text \<open>Storing at the write counter appends, reading at the read counter takes the head.\<close>

lemma contents_put:
  assumes "unat (w - r) < N"
  shows "ring_contents N (buf(unat w mod N := x)) r (w + 1) = ring_contents N buf r w @ [x]"
proof -
  have "map (\<lambda>i. (buf(unat w mod N := x)) (unat (r + of_nat i) mod N)) [0..<unat (w - r)]
      = map (\<lambda>i. buf (unat (r + of_nat i) mod N)) [0..<unat (w - r)]"
    using distinct_slots [OF assms] by (auto intro!: map_cong)
  then show ?thesis
    by (simp add: ring_contents_def unat_diff_Suc [OF assms])
qed

lemma contents_get:
  assumes "r \<noteq> w"
  shows "ring_contents N buf r w = buf (unat r mod N) # ring_contents N buf (r + 1) w"
proof -
  have d: "unat (w - r) = Suc (unat (w - (r + 1)))"
  proof -
    have "w - r \<noteq> 0" using assms by simp
    then have "unat (w - r - 1) = unat (w - r) - 1" and "0 < unat (w - r)"
      by (simp_all add: unat_minus_one unat_gt_0)
    then show ?thesis by (simp add: diff_diff_eq)
  qed
  have "[0..<unat (w - r)] = 0 # map Suc [0..<unat (w - (r + 1))]"
    by (simp add: d map_Suc_upt upt_conv_Cons del: upt_Suc)
  then show ?thesis
    by (simp add: ring_contents_def o_def algebra_simps)
qed

lemma contents_frame:
  assumes "unat (w - r :: u32) \<le> N" and "r \<noteq> w"
  shows "unat (w - (r + 1)) < N"
proof -
  have "w - r \<noteq> 0" using assms(2) by simp
  then have "unat (w - r - 1) = unat (w - r) - 1" and "0 < unat (w - r)"
    by (simp_all add: unat_minus_one unat_gt_0)
  with assms(1) show ?thesis by (simp add: diff_diff_eq)
qed

lemma full_iff: "unat (w - r :: u32) \<le> N \<Longrightarrow> w = r + of_nat N \<longleftrightarrow> unat (w - r) = N"
proof -
  have u: "unat (of_nat N :: u32) = N"
    using N_small by (simp add: unat_of_nat take_bit_eq_mod)
  have "w = r + of_nat N \<longleftrightarrow> w - r = of_nat N" by (auto simp: algebra_simps)
  also have "\<dots> \<longleftrightarrow> unat (w - r) = N" by (simp add: word_unat_eq_iff [of "w - r"] u)
  finally show ?thesis .
qed

end

section \<open>State machines\<close>

inductive reach :: "('s \<Rightarrow> bool) \<Rightarrow> ('s \<Rightarrow> 's \<Rightarrow> bool) \<Rightarrow> 's \<Rightarrow> bool"
  for start :: "'s \<Rightarrow> bool" and step :: "'s \<Rightarrow> 's \<Rightarrow> bool" where
  reach_start: "start s \<Longrightarrow> reach start step s"
| reach_step: "reach start step s \<Longrightarrow> step s t \<Longrightarrow> reach start step t"

locale state_machine =
  fixes start :: "'s \<Rightarrow> bool"
    and step :: "'s \<Rightarrow> 's \<Rightarrow> bool"
    and inv :: "'s \<Rightarrow> bool"
  assumes inv_start: "start s \<Longrightarrow> inv s"
    and inv_step: "inv s \<Longrightarrow> step s t \<Longrightarrow> inv t"
begin

lemma reach_inv: "reach start step s \<Longrightarrow> inv s"
  by (induction rule: reach.induct) (auto intro: inv_start inv_step)

end

section \<open>What a routine may change\<close>

text \<open>
  \<open>kframe P R m\<close>: from every state with \<open>P\<close>, whatever the outcome, the routine \<open>m\<close> relates the
  old and the new state by \<open>R\<close>.  For a preorder \<open>R\<close> that preserves \<open>P\<close> this goes through a
  program statement by statement.
\<close>

definition kframe :: "('s \<Rightarrow> bool) \<Rightarrow> ('s \<Rightarrow> 's \<Rightarrow> bool) \<Rightarrow> ('s, 'a) kop \<Rightarrow> bool" where
  "kframe P R m \<longleftrightarrow> (\<forall>s. P s \<longrightarrow> R s (snd (m s)))"

lemma kframeD: "kframe P R m \<Longrightarrow> P s \<Longrightarrow> m s = (r, t) \<Longrightarrow> R s t"
  by (force simp: kframe_def)

lemma kframe_case_option: "kframe P R a \<Longrightarrow> (\<And>x. kframe P R (b x)) \<Longrightarrow> kframe P R (case v of None \<Rightarrow> a | Some x \<Rightarrow> b x)"
  by (cases v) auto

lemma kframe_case_prod: "(\<And>x y. kframe P R (f x y)) \<Longrightarrow> kframe P R (case v of (x, y) \<Rightarrow> f x y)"
  by (cases v) auto

lemma kframe_if: "(b \<Longrightarrow> kframe P R m) \<Longrightarrow> (\<not> b \<Longrightarrow> kframe P R n) \<Longrightarrow> kframe P R (if b then m else n)"
  by simp

lemma kframe_Let: "(\<And>x. x = v \<Longrightarrow> kframe P R (f x)) \<Longrightarrow> kframe P R (let x = v in f x)"
  by simp

locale framing =
  fixes P :: "'s \<Rightarrow> bool" and R :: "'s \<Rightarrow> 's \<Rightarrow> bool"
  assumes R_refl: "R s s" and R_trans: "R s t \<Longrightarrow> R t u \<Longrightarrow> R s u" and P_stable: "P s \<Longrightarrow> R s t \<Longrightarrow> P t"
begin

lemma kframe_kret: "kframe P R (kret x)"
  by (simp add: kframe_def kret_def R_refl)

lemma kframe_panic: "kframe P R (panic e)"
  by (simp add: kframe_def panic_def R_refl)

lemma kframe_ksleep: "kframe P R (ksleep c)"
  by (simp add: kframe_def ksleep_def R_refl)

lemma kframe_kget: "kframe P R (kget f)"
  by (simp add: kframe_def kget_def R_refl)

lemma kframe_kmod: "(\<And>s. P s \<Longrightarrow> R s (f s)) \<Longrightarrow> kframe P R (kmod f)"
  by (simp add: kframe_def kmod_def)

lemma kframe_kbind:
  assumes "kframe P R m" and "\<And>x. kframe P R (f x)"
  shows "kframe P R (kbind m f)"
  unfolding kframe_def
proof (intro allI impI)
  fix s assume p: "P s"
  obtain r t where t: "m s = (r, t)" by fastforce
  then have a: "R s t" using assms(1) p by (auto dest: kframeD)
  show "R s (snd (kbind m f s))"
  proof (cases r)
    case (Ret x)
    have "R t (snd (f x t))" using assms(2) [of x] P_stable [OF p a] by (simp add: kframe_def)
    then show ?thesis using t Ret R_trans [OF a] by (simp add: kbind_def)
  qed (use t a in \<open>simp_all add: kbind_def\<close>)
qed

text \<open>With a fact \<open>Q x\<close> about what the first statement returns.\<close>

lemma kframe_kbind_ret:
  assumes "kframe P R m" and "\<And>s x t. P s \<Longrightarrow> m s = (Ret x, t) \<Longrightarrow> Q x" and "\<And>x. Q x \<Longrightarrow> kframe P R (f x)"
  shows "kframe P R (kbind m f)"
  unfolding kframe_def
proof (intro allI impI)
  fix s assume p: "P s"
  obtain r t where t: "m s = (r, t)" by fastforce
  then have a: "R s t" using assms(1) p by (auto dest: kframeD)
  show "R s (snd (kbind m f s))"
  proof (cases r)
    case (Ret x)
    then have "Q x" using assms(2) [OF p] t by simp
    then have "R t (snd (f x t))" using assms(3) [of x] P_stable [OF p a] by (simp add: kframe_def)
    then show ?thesis using t Ret R_trans [OF a] by (simp add: kbind_def)
  qed (use t a in \<open>simp_all add: kbind_def\<close>)
qed

lemma kframe_kseq: "kframe P R m \<Longrightarrow> kframe P R n \<Longrightarrow> kframe P R (kseq m n)"
  unfolding kseq_def by (rule kframe_kbind)

lemmas kframe_rules = kframe_kret kframe_panic kframe_ksleep kframe_kget kframe_kbind kframe_kseq
  kframe_case_option kframe_case_prod kframe_if kframe_Let

end

end
