(* ===== verification/Phys_Alloc.thy ===== *)
theory Phys_Alloc
  imports Kernel_Prelude
begin

text \<open>
  The physical page allocator of \<^verbatim>\<open>kalloc.c\<close>.

  Physical memory, seen through the kernel mapping, is a function from the address of a 32-bit word
  to its value; every access of the allocator and of the page-table code is to an aligned word.
  The free list is threaded through the first word of each free page, as in the source, so the
  predicate \<open>free_chain\<close> relates the list in memory to the HOL list of free pages.
  \<^verbatim>\<open>end\<close>, the first address after the kernel image, comes from the linker script and is
  the parameter \<open>kend\<close>.  The spin lock \<^verbatim>\<open>kmem.lock\<close> makes \<^verbatim>\<open>kalloc\<close> and
  \<^verbatim>\<open>kfree\<close> atomic; they are single steps here.
\<close>

section \<open>Constants and the state\<close>

definition PGSIZE :: u32 where
  [const_defs]: "PGSIZE = 4096"

definition KERNBASE :: u32 where
  [const_defs]: "KERNBASE = 0x80000000"

definition PHYSTOP :: u32 where
  [const_defs]: "PHYSTOP = 0xE000000"

definition V2P :: "u32 \<Rightarrow> u32" where
  "V2P a = a - KERNBASE"

definition P2V :: "u32 \<Rightarrow> u32" where
  "P2V a = a + KERNBASE"

definition PGROUNDUP :: "u32 \<Rightarrow> u32" where
  "PGROUNDUP sz = (sz + PGSIZE - 1) AND NOT (PGSIZE - 1)"

definition PGROUNDDOWN :: "u32 \<Rightarrow> u32" where
  "PGROUNDDOWN a = a AND NOT (PGSIZE - 1)"

record kmem =
  use_lock :: bool
  freelist :: u32
  mem :: "u32 \<Rightarrow> u32"

text \<open>\<^verbatim>\<open>memset\<close> of an aligned page stores words with \<^verbatim>\<open>stosl\<close>.\<close>

definition fill_page :: "u32 \<Rightarrow> u8 \<Rightarrow> (u32 \<Rightarrow> u32) \<Rightarrow> (u32 \<Rightarrow> u32)" where
  "fill_page v c m = (let w = (ucast c :: u32) in
     let x = push_bit 24 w OR push_bit 16 w OR push_bit 8 w OR w in
     (\<lambda>a. if a - v < PGSIZE then x else m a))"

section \<open>Operations\<close>

definition kfree :: "u32 \<Rightarrow> u32 \<Rightarrow> (kmem, unit) kop" where
  "kfree kend v =
     (if v mod PGSIZE \<noteq> 0 \<or> v < kend \<or> PHYSTOP \<le> V2P v then panic ''kfree''
      else kmod (\<lambda>s. s\<lparr>mem := (fill_page v 1 (mem s))(v := freelist s), freelist := v\<rparr>))"

definition kalloc :: "(kmem, u32) kop" where
  "kalloc = (\<lambda>s. let r = freelist s in
     if r \<noteq> 0 then (Ret r, s\<lparr>freelist := mem s r\<rparr>) else (Ret r, s))"

text \<open>
  \<^verbatim>\<open>kcount\<close> follows the chain to its null pointer.  A damaged chain may be cyclic, so the
  loop is a partial function: \<open>None\<close> is "does not return".
\<close>

partial_function (option) kcount_loop :: "(u32 \<Rightarrow> u32) \<Rightarrow> u32 \<Rightarrow> int \<Rightarrow> int option" where
  "kcount_loop m r count = (if r = 0 then Some count else kcount_loop m (m r) (count + 1))"

definition kcount :: "kmem \<Rightarrow> int option" where
  "kcount s = kcount_loop (mem s) (freelist s) 0"

lemma kfree_bound:
  assumes "kfree kend v s = (Ret u, t)"
  shows "unat v + 4096 < 2 ^ 32"
proof -
  have "v - KERNBASE < PHYSTOP"
    using assms by (simp add: kfree_def V2P_def panic_def not_le split: if_splits)
  then have "v - 0x80000000 < 0xE000000" by (simp add: const_defs)
  then show ?thesis by unat_arith
qed

function freerange_loop :: "u32 \<Rightarrow> u32 \<Rightarrow> u32 \<Rightarrow> (kmem, unit) kop" where
  "freerange_loop kend p vend s =
     (if p + PGSIZE \<le> vend
      then (case kfree kend p s of
              (Ret u, t) \<Rightarrow> freerange_loop kend (p + PGSIZE) vend t
            | (Panic e, t) \<Rightarrow> (Panic e, t)
            | (Sleep c, t) \<Rightarrow> (Sleep c, t))
      else (Ret (), s))"
  by pat_completeness auto
termination
proof (relation "measure (\<lambda>(kend, p, vend, s). 2 ^ 32 - unat p)", goal_cases)
  case 1
  then show ?case by simp
next
  case (2 kend p vend s r t u)
  then have "kfree kend p s = (Ret u, t)" by simp
  then have "unat p + 4096 < 2 ^ 32" by (rule kfree_bound)
  moreover from this have "unat (p + PGSIZE) = unat p + 4096"
    by (simp add: const_defs unat_word_ariths)
  ultimately show ?case by simp
qed

declare freerange_loop.simps [simp del]

definition freerange :: "u32 \<Rightarrow> u32 \<Rightarrow> u32 \<Rightarrow> (kmem, unit) kop" where
  "freerange kend vstart vend = freerange_loop kend (PGROUNDUP vstart) vend"

definition kinit1 :: "u32 \<Rightarrow> u32 \<Rightarrow> u32 \<Rightarrow> (kmem, unit) kop" where
  "kinit1 kend vstart vend = kseq (kmod (\<lambda>s. s\<lparr>use_lock := False\<rparr>)) (freerange kend vstart vend)"

definition kinit2 :: "u32 \<Rightarrow> u32 \<Rightarrow> u32 \<Rightarrow> (kmem, unit) kop" where
  "kinit2 kend vstart vend = kseq (freerange kend vstart vend) (kmod (\<lambda>s. s\<lparr>use_lock := True\<rparr>))"

section \<open>The free list in memory\<close>

fun free_chain :: "(u32 \<Rightarrow> u32) \<Rightarrow> u32 \<Rightarrow> u32 list \<Rightarrow> bool" where
  "free_chain m r [] = (r = 0)"
| "free_chain m r (x # xs) = (r = x \<and> x \<noteq> 0 \<and> free_chain m (m x) xs)"

definition page_ok :: "u32 \<Rightarrow> u32 \<Rightarrow> bool" where
  "page_ok kend v \<longleftrightarrow> v mod PGSIZE = 0 \<and> kend \<le> v \<and> V2P v < PHYSTOP"

definition kmem_inv :: "u32 \<Rightarrow> kmem \<Rightarrow> u32 list \<Rightarrow> bool" where
  "kmem_inv kend s xs \<longleftrightarrow>
     free_chain (mem s) (freelist s) xs \<and> distinct xs \<and> (\<forall>x\<in>set xs. page_ok kend x)"

lemma page_ok_unat: "page_ok kend v \<Longrightarrow> unat v mod 4096 = 0 \<and> 0x80000000 \<le> unat v \<and> unat v + 4096 \<le> 0x8E000000"
proof -
  assume a: "page_ok kend v"
  then have m: "unat v mod 4096 = 0"
    by (simp add: page_ok_def const_defs unat_mod flip: unat_eq_zero)
  from a have "v - 0x80000000 < 0xE000000" by (simp add: page_ok_def V2P_def const_defs)
  then have "0x80000000 \<le> unat v \<and> unat v < 0x8E000000" by unat_arith simp_all
  moreover from m obtain k where "unat v = 4096 * k" by (auto simp: mod_eq_0_iff_dvd elim: dvdE)
  ultimately show ?thesis using m by simp
qed

lemma page_ok_nonzero: "page_ok kend v \<Longrightarrow> v \<noteq> 0"
  by (auto dest: page_ok_unat)

lemma unat_PGSIZE [simp]: "unat PGSIZE = 4096"
  by (simp add: const_defs)

text \<open>Words of different aligned pages are different.\<close>

lemma page_offset:
  assumes "unat v + 4096 \<le> 2 ^ 32"
  shows "a - v < PGSIZE \<longleftrightarrow> unat v \<le> unat a \<and> unat a < unat v + 4096"
  using assms unsigned_less [of a, where ?'a = nat]
  by (auto simp: word_less_nat_alt unat_sub_if' word_le_nat_alt)

lemma page_base_offset:
  assumes "unat v mod 4096 = 0" and "unat v + 4096 \<le> 2 ^ 32" and "unat x mod 4096 = 0"
  shows "x - v < PGSIZE \<longleftrightarrow> x = v"
proof -
  obtain p q where "unat v = 4096 * p" "unat x = 4096 * q"
    using assms(1,3) by (auto simp: mod_eq_0_iff_dvd elim!: dvdE)
  then have "unat v \<le> unat x \<and> unat x < unat v + 4096 \<longleftrightarrow> unat x = unat v"
    by auto
  with page_offset [OF assms(2), of x] show ?thesis by (simp add: word_unat_eq_iff)
qed

lemma fill_page_junk: "fill_page v 1 m a = (if a - v < PGSIZE then 0x01010101 else m a)"
  by (simp add: fill_page_def)

lemma free_chain_cong:
  "(\<And>x. x \<in> set xs \<Longrightarrow> m x = m' x) \<Longrightarrow> free_chain m r xs = free_chain m' r xs"
  by (induction xs arbitrary: r) auto

lemma free_chain_unique: "free_chain m r xs \<Longrightarrow> free_chain m r ys \<Longrightarrow> xs = ys"
proof (induction xs arbitrary: r ys)
  case Nil
  then show ?case by (cases ys) auto
next
  case (Cons x xs)
  then show ?case by (cases ys) auto
qed

lemma kalloc_nil: "kmem_inv kend s [] \<Longrightarrow> kalloc s = (Ret 0, s)"
  by (simp add: kmem_inv_def kalloc_def)

lemma kalloc_cons:
  assumes "kmem_inv kend s (x # xs)"
  shows "kalloc s = (Ret x, s\<lparr>freelist := mem s x\<rparr>) \<and> kmem_inv kend (s\<lparr>freelist := mem s x\<rparr>) xs"
  using assms by (auto simp: kmem_inv_def kalloc_def Let_def)

lemma kfree_ok:
  "page_ok kend v \<Longrightarrow> kfree kend v s =
     (Ret (), s\<lparr>mem := (fill_page v 1 (mem s))(v := freelist s), freelist := v\<rparr>)"
  by (auto simp: kfree_def page_ok_def kmod_def dest: leD)

lemma kfree_bad: "\<not> page_ok kend v \<Longrightarrow> kfree kend v s = (Panic ''kfree'', s)"
  by (auto simp: kfree_def page_ok_def panic_def not_le not_less)

lemma kfree_inv:
  assumes inv: "kmem_inv kend s xs" and v: "page_ok kend v" "v \<notin> set xs"
    and t: "kfree kend v s = (Ret (), t)"
  shows "kmem_inv kend t (v # xs)"
proof -
  have same: "((fill_page v 1 (mem s))(v := freelist s)) x = mem s x" if "x \<in> set xs" for x
  proof -
    have "page_ok kend x" using inv that by (auto simp: kmem_inv_def)
    then have "\<not> x - v < PGSIZE"
      using page_ok_unat [OF v(1)] page_ok_unat [of kend x] v(2) that page_base_offset [of v x]
      by auto
    then show ?thesis using v(2) that by (auto simp: fill_page_junk)
  qed
  have "free_chain ((fill_page v 1 (mem s))(v := freelist s)) (freelist s) xs"
    using inv same free_chain_cong [of xs "(fill_page v 1 (mem s))(v := freelist s)" "mem s"]
    by (simp add: kmem_inv_def)
  then show ?thesis
    using inv v t page_ok_nonzero [OF v(1)] by (auto simp: kfree_ok kmem_inv_def)
qed

section \<open>The allocator interface\<close>

text \<open>
  What the clients of a page allocator (page tables, kernel stacks, pipes) rely on.  \<open>inv s F\<close>
  says that the state is well formed and \<open>F\<close> is the set of free pages; \<open>frame a\<close> are
  the pages that a store to address \<open>a\<close> can damage.
\<close>

inductive own_step ::
  "('s, u32) kop \<Rightarrow> (u32 \<Rightarrow> ('s, unit) kop) \<Rightarrow> (u32 \<Rightarrow> u32 \<Rightarrow> 's \<Rightarrow> 's) \<Rightarrow>
     's \<times> u32 set \<Rightarrow> 's \<times> u32 set \<Rightarrow> bool"
  for al :: "('s, u32) kop" and fr :: "u32 \<Rightarrow> ('s, unit) kop" and wr :: "u32 \<Rightarrow> u32 \<Rightarrow> 's \<Rightarrow> 's" where
  own_alloc: "al s = (Ret v, t) \<Longrightarrow> v \<noteq> 0 \<Longrightarrow> own_step al fr wr (s, A) (t, insert v A)"
| own_fail: "al s = (Ret 0, t) \<Longrightarrow> own_step al fr wr (s, A) (t, A)"
| own_free: "v \<in> A \<Longrightarrow> fr v s = (Ret (), t) \<Longrightarrow> own_step al fr wr (s, A) (t, A - {v})"
| own_write: "v \<in> A \<Longrightarrow> a - v < PGSIZE \<Longrightarrow> own_step al fr wr (s, A) (wr a w s, A)"

locale page_allocator =
  fixes al :: "('s, u32) kop"
    and fr :: "u32 \<Rightarrow> ('s, unit) kop"
    and wr :: "u32 \<Rightarrow> u32 \<Rightarrow> 's \<Rightarrow> 's"
    and pinv :: "'s \<Rightarrow> u32 set \<Rightarrow> bool"
    and ok :: "u32 \<Rightarrow> bool"
  assumes al_empty: "pinv s {} \<Longrightarrow> al s = (Ret 0, s)"
    and al_some: "pinv s F \<Longrightarrow> F \<noteq> {} \<Longrightarrow> \<exists>v t. al s = (Ret v, t) \<and> v \<in> F \<and> pinv t (F - {v})"
    and fr_ok: "pinv s F \<Longrightarrow> ok v \<Longrightarrow> v \<notin> F \<Longrightarrow> \<exists>t. fr v s = (Ret (), t) \<and> pinv t (insert v F)"
    and wr_ok: "pinv s F \<Longrightarrow> ok v \<Longrightarrow> v \<notin> F \<Longrightarrow> a - v < PGSIZE \<Longrightarrow> pinv (wr a w s) F"
    and free_ok: "pinv s F \<Longrightarrow> v \<in> F \<Longrightarrow> ok v \<and> v \<noteq> 0"
begin

lemma al_result:
  assumes "pinv s F" and "al s = (Ret v, t)"
  shows "(v = 0 \<and> F = {} \<and> t = s) \<or> (v \<in> F \<and> v \<noteq> 0 \<and> pinv t (F - {v}))"
proof (cases "F = {}")
  case True
  with assms show ?thesis by (auto simp: al_empty)
next
  case False
  with al_some [OF assms(1)] obtain w u where "al s = (Ret w, u)" "w \<in> F" "pinv u (F - {w})"
    by blast
  with assms free_ok [OF assms(1)] show ?thesis by auto
qed

lemma own_step_inv:
  assumes "own_step al fr wr (s, A) (t, B)"
    and "pinv s F" and "F \<inter> A = {}" and "\<forall>v\<in>A. ok v"
  shows "\<exists>G. pinv t G \<and> G \<inter> B = {} \<and> G \<union> B = F \<union> A \<and> (\<forall>v\<in>B. ok v)"
  using assms(1)
proof cases
  case (own_alloc v)
  with assms al_result [of s F v t] have "v \<in> F" "pinv t (F - {v})" by auto
  with own_alloc assms free_ok [of s F v] show ?thesis
    by (intro exI [of _ "F - {v}"]) auto
next
  case own_fail
  with assms al_result [of s F 0 t] have "t = s" "F = {}" by auto
  with own_fail assms show ?thesis by auto
next
  case (own_free v)
  have "ok v" "v \<notin> F" using own_free assms by auto
  with fr_ok [OF assms(2)] obtain u where "fr v s = (Ret (), u)" "pinv u (insert v F)" by blast
  with own_free have "pinv t (insert v F)" by simp
  with own_free assms show ?thesis by (intro exI [of _ "insert v F"]) auto
next
  case (own_write v a w)
  with assms wr_ok [of s F v a w] show ?thesis by (intro exI [of _ F]) auto
qed

lemma own_reach_inv:
  assumes "reach (\<lambda>(s, A). A = {} \<and> pinv s P) (own_step al fr wr) x"
  shows "\<exists>F. pinv (fst x) F \<and> F \<inter> snd x = {} \<and> F \<union> snd x = P \<and> (\<forall>v\<in>snd x. ok v)"
  using assms
proof (induction rule: reach.induct)
  case (reach_start x)
  then show ?case by auto
next
  case (reach_step x y)
  obtain s A t B where [simp]: "x = (s, A)" "y = (t, B)" by (cases x, cases y)
  from reach_step obtain F where "pinv s F" "F \<inter> A = {}" "F \<union> A = P" "\<forall>v\<in>A. ok v" by auto
  moreover have "own_step al fr wr (s, A) (t, B)" using reach_step by simp
  ultimately show ?case using own_step_inv [of s A t B F] by simp
qed

end

definition store :: "u32 \<Rightarrow> u32 \<Rightarrow> kmem \<Rightarrow> kmem" where
  "store a w s = s\<lparr>mem := (mem s)(a := w)\<rparr>"

definition kfree_pages :: "u32 \<Rightarrow> kmem \<Rightarrow> u32 set \<Rightarrow> bool" where
  "kfree_pages kend s F \<longleftrightarrow> (\<exists>xs. kmem_inv kend s xs \<and> F = set xs)"

lemma store_inv:
  assumes "kmem_inv kend s xs" and "page_ok kend v" and "v \<notin> set xs" and "a - v < PGSIZE"
  shows "kmem_inv kend (store a w s) xs"
proof -
  have "((mem s)(a := w)) x = mem s x" if "x \<in> set xs" for x
  proof -
    have "page_ok kend x" using assms(1) that by (auto simp: kmem_inv_def)
    then have "\<not> x - v < PGSIZE"
      using page_ok_unat [OF assms(2)] page_ok_unat [of kend x] that assms(3) page_base_offset [of v x]
      by auto
    with assms(4) show ?thesis by auto
  qed
  then have "free_chain ((mem s)(a := w)) (freelist s) xs"
    using assms(1) free_chain_cong [of xs "(mem s)(a := w)" "mem s"] by (simp add: kmem_inv_def)
  with assms(1) show ?thesis by (simp add: kmem_inv_def store_def)
qed

interpretation kp: page_allocator kalloc "kfree kend" store "kfree_pages kend" "page_ok kend" for kend
proof (unfold_locales, goal_cases)
  case (1 s)
  then show ?case by (auto simp: kfree_pages_def intro: kalloc_nil)
next
  case (2 s F)
  then obtain ys where ys: "kmem_inv kend s ys" "F = set ys" "ys \<noteq> []"
    by (auto simp: kfree_pages_def)
  then obtain x xs where "kmem_inv kend s (x # xs)" "F = set (x # xs)"
    by (cases ys) auto
  moreover from this have "F - {x} = set xs" by (auto simp: kmem_inv_def)
  ultimately show ?case using kalloc_cons [of kend s x xs] unfolding kfree_pages_def
    by (metis list.set_intros(1))
next
  case (3 s F v)
  then obtain xs where xs: "kmem_inv kend s xs" "F = set xs" by (auto simp: kfree_pages_def)
  obtain t where t: "kfree kend v s = (Ret (), t)" using 3(2) by (simp add: kfree_ok)
  with xs 3 have "kmem_inv kend t (v # xs)" by (auto intro: kfree_inv)
  with t xs show ?case unfolding kfree_pages_def by (metis list.simps(15))
next
  case (4 s F v a w)
  then show ?case by (auto simp: kfree_pages_def intro: store_inv)
next
  case (5 s F v)
  then show ?case by (auto simp: kfree_pages_def kmem_inv_def dest: page_ok_nonzero)
qed

section \<open>Filling the free list at boot\<close>

lemma unat_and_not_4095: "unat ((y::u32) AND NOT 4095) = unat y div 4096 * 4096"
proof -
  have m: "(4095::u32) = mask 12" by (simp add: mask_eq_exp_minus_1)
  have "y AND NOT (mask 12) = push_bit 12 (drop_bit 12 y)"
    by (rule bit_word_eqI) (auto simp: bit_simps)
  then have "unat (y AND NOT 4095) = unat (push_bit 12 (drop_bit 12 y))" by (simp add: m)
  also have "\<dots> = unat y div 4096 * 4096"
    using unsigned_less [of y, where ?'a = nat]
    by (simp add: push_bit_eq_mult drop_bit_eq_div unat_word_ariths unat_div)
  finally show ?thesis .
qed

lemma unat_PGROUNDUP:
  "unat x + 4095 < 2 ^ 32 \<Longrightarrow> unat (PGROUNDUP x) = (unat x + 4095) div 4096 * 4096"
proof -
  assume a: "unat x + 4095 < 2 ^ 32"
  have "PGROUNDUP x = (x + 4095) AND NOT 4095"
    by (simp add: PGROUNDUP_def const_defs algebra_simps)
  moreover have "unat (x + 4095) = unat x + 4095" using a by (simp add: unat_word_ariths)
  ultimately show ?thesis using unat_and_not_4095 [of "x + 4095"] by simp
qed

lemma page_ok_iff:
  "page_ok kend v \<longleftrightarrow>
     unat v mod 4096 = 0 \<and> unat kend \<le> unat v \<and> 0x80000000 \<le> unat v \<and> unat v + 4096 \<le> 0x8E000000"
  (is "?l = ?r")
proof
  assume ?l
  then show ?r using page_ok_unat [of kend v] by (simp add: page_ok_def word_le_nat_alt)
next
  assume r: ?r
  then have "v mod PGSIZE = 0" by (simp add: word_unat_eq_iff unat_mod)
  moreover have "v - 0x80000000 < 0xE000000" using r by unat_arith
  ultimately show ?l using r by (simp add: page_ok_def V2P_def const_defs word_le_nat_alt)
qed

definition pages_between :: "u32 \<Rightarrow> u32 \<Rightarrow> u32 set" where
  "pages_between p vend =
     {v. unat v mod 4096 = 0 \<and> unat p \<le> unat v \<and> unat v + 4096 \<le> unat vend}"

lemma pages_between_step:
  assumes "unat p mod 4096 = 0" and "unat p + 4096 \<le> unat vend" and "unat q = unat p + 4096"
  shows "pages_between p vend = insert p (pages_between q vend)"
proof -
  have "unat v = unat p \<or> unat q \<le> unat v" if "unat v mod 4096 = 0" "unat p \<le> unat v" for v :: u32
  proof -
    from that(1) obtain i where "unat v = 4096 * i" by (auto simp: mod_eq_0_iff_dvd elim: dvdE)
    moreover from assms(1) obtain j where "unat p = 4096 * j" by (auto simp: mod_eq_0_iff_dvd elim: dvdE)
    ultimately show ?thesis using that assms(3) by auto
  qed
  then show ?thesis
    using assms by (fastforce simp: pages_between_def word_unat_eq_iff)
qed

lemma freerange_loop_spec:
  assumes "kmem_inv kend s xs" and "unat p mod 4096 = 0" and "unat kend \<le> unat p"
    and "0x80000000 \<le> unat p" and "unat p \<le> 0x8E000000" and "unat vend \<le> 0x8E000000"
    and "\<forall>x\<in>set xs. unat x < unat p"
  shows "\<exists>t ys. freerange_loop kend p vend s = (Ret (), t) \<and> kmem_inv kend t ys \<and>
     set ys = pages_between p vend \<union> set xs \<and> use_lock t = use_lock s"
  using assms
proof (induction kend p vend s arbitrary: xs rule: freerange_loop.induct)
  case (1 kend p vend s)
  have up: "unat (p + PGSIZE) = unat p + 4096"
    using "1.prems"(5) by (simp add: unat_word_ariths)
  show ?case
  proof (cases "p + PGSIZE \<le> vend")
    case False
    then have "pages_between p vend = {}"
      by (auto simp: pages_between_def word_le_nat_alt up)
    with False "1.prems"(1) show ?thesis by (auto simp: freerange_loop.simps [of kend p vend s])
  next
    case True
    then have lt: "unat p + 4096 \<le> unat vend" by (simp add: word_le_nat_alt up)
    have ok: "page_ok kend p" using "1.prems" lt by (simp add: page_ok_iff)
    then obtain t where t: "kfree kend p s = (Ret (), t)" "use_lock t = use_lock s"
      by (simp add: kfree_ok)
    have inv: "kmem_inv kend t (p # xs)"
      using "1.prems"(1,7) ok t(1) by (auto intro: kfree_inv)
    have "\<exists>u ys. freerange_loop kend (p + PGSIZE) vend t = (Ret (), u) \<and> kmem_inv kend u ys \<and>
       set ys = pages_between (p + PGSIZE) vend \<union> set (p # xs) \<and> use_lock u = use_lock t"
    proof (rule "1.IH" [OF True t(1) [symmetric] refl])
      show "kmem_inv kend t (p # xs)" by (rule inv)
      show "unat (p + PGSIZE) mod 4096 = 0" using "1.prems"(2) by (simp add: up)
      show "unat kend \<le> unat (p + PGSIZE)" "0x80000000 \<le> unat (p + PGSIZE)"
        "unat (p + PGSIZE) \<le> 0x8E000000" "unat vend \<le> 0x8E000000"
        using "1.prems" lt by (simp_all add: up)
      show "\<forall>x\<in>set (p # xs). unat x < unat (p + PGSIZE)"
        using "1.prems"(7) by (auto simp: up)
    qed
    then show ?thesis
      using True t pages_between_step [OF "1.prems"(2) lt up]
      by (auto simp: freerange_loop.simps [of kend p vend s])
  qed
qed

lemma kcount_chain: "free_chain m r xs \<Longrightarrow> kcount_loop m r c = Some (c + int (length xs))"
proof (induction xs arbitrary: r c)
  case Nil
  then show ?case by (simp add: kcount_loop.simps)
next
  case (Cons x xs)
  then show ?case by (simp add: kcount_loop.simps [of m x c])
qed

lemma kcount_self_loop:
  assumes "m v = v" and "v \<noteq> 0"
  shows "kcount_loop m v c = None"
proof (rule ccontr)
  assume "kcount_loop m v c \<noteq> None"
  then obtain n where ret: "kcount_loop m v c = Some n" by auto
  have "\<not> (m = m \<and> v = v)" if "kcount_loop m v c = Some n"
  proof (rule kcount_loop.raw_induct [where P = "\<lambda>m' r c n. \<not> (m' = m \<and> r = v)", OF _ ret])
    fix f m' r c n
    assume IH: "\<And>m' r c n. f m' r c = Some n \<Longrightarrow> \<not> (m' = m \<and> r = v)"
      and eq: "(if r = 0 then Some c else f m' (m' r) (c + 1)) = Some n"
    then show "\<not> (m' = m \<and> r = v)" using assms by (auto split: if_splits)
  qed
  with ret show False by simp
qed

lemma round_up_le:
  assumes "(n::nat) mod 4096 = 0"
  shows "(k + 4095) div 4096 * 4096 \<le> n \<longleftrightarrow> k \<le> n"
proof -
  obtain i where i: "n = 4096 * i" using assms by (auto simp: mod_eq_0_iff_dvd elim: dvdE)
  have "(k + 4095) div 4096 \<le> i \<longleftrightarrow> k \<le> 4096 * i" by linarith
  with i show ?thesis by (simp add: mult.commute)
qed
lemma pages_low:
  assumes "0x80000000 \<le> unat kend" and "unat kend \<le> 0x80400000"
  shows "pages_between (PGROUNDUP kend) 0x80400000 = {v. page_ok kend v \<and> unat v < 0x80400000}"
proof -
  have up: "unat (PGROUNDUP kend) = (unat kend + 4095) div 4096 * 4096"
    using assms by (simp add: unat_PGROUNDUP)
  have "unat v + 4096 \<le> 0x80400000 \<longleftrightarrow> unat v < 0x80400000" if "unat v mod 4096 = 0" for v :: u32
    using that by (auto simp: mod_eq_0_iff_dvd elim!: dvdE)
  then show ?thesis
    using assms by (auto simp: pages_between_def page_ok_iff up round_up_le)
qed
lemma pages_high:
  assumes "unat kend \<le> 0x80400000"
  shows "pages_between 0x80400000 0x8E000000 = {v. page_ok kend v \<and> 0x80400000 \<le> unat v}"
  using assms by (auto simp: pages_between_def page_ok_iff)

section \<open>Properties\<close>

text \<open>
  C8. Page ownership.  Start with an empty set of owners and a well-formed free list holding the
  pages \<open>P\<close>, and let clients allocate, free pages they own and store anywhere inside pages
  they own, in any order.  At every moment an allocation that succeeds returns a page of
  \<open>P\<close> that nobody owns, it fails only when all of \<open>P\<close> is owned, and freeing an owned
  page never panics.
\<close>

theorem kalloc_ownership:
  assumes "reach (\<lambda>(s, A). A = {} \<and> kfree_pages kend s P) (own_step kalloc (kfree kend) store) (s, A)"
  shows "(\<forall>v t. kalloc s = (Ret v, t) \<longrightarrow> (v \<noteq> 0 \<longrightarrow> v \<in> P \<and> v \<notin> A) \<and> (v = 0 \<longrightarrow> A = P)) \<and>
         (\<forall>v\<in>A. \<exists>t. kfree kend v s = (Ret (), t))"
proof -
  obtain F where F: "kfree_pages kend s F" "F \<inter> A = {}" "F \<union> A = P" "\<forall>v\<in>A. page_ok kend v"
    using kp.own_reach_inv [OF assms] by auto
  have "(v \<noteq> 0 \<longrightarrow> v \<in> P \<and> v \<notin> A) \<and> (v = 0 \<longrightarrow> A = P)" if "kalloc s = (Ret v, t)" for v t
    using kp.al_result [OF F(1) that] F by auto
  moreover have "\<exists>t. kfree kend v s = (Ret (), t)" if "v \<in> A" for v
    using F(4) that by (simp add: kfree_ok)
  ultimately show ?thesis by blast
qed

definition two_pages :: kmem where
  "two_pages = \<lparr>use_lock = True, freelist = 0x80200000,
     mem = (\<lambda>_. 0)(0x80200000 := 0x80300000)\<rparr>"

lemma two_pages_inv: "kmem_inv 0x80108000 two_pages [0x80200000, 0x80300000]"
  by (simp add: kmem_inv_def two_pages_def page_ok_iff)

theorem kalloc_ownership_witness:
  "\<exists>s. reach (\<lambda>(s, A). A = {} \<and> kfree_pages 0x80108000 s {0x80200000, 0x80300000})
        (own_step kalloc (kfree 0x80108000) store) (s, {0x80200000}) \<and>
     kalloc s = (Ret 0x80300000, s\<lparr>freelist := 0\<rparr>) \<and>
     (\<exists>t. kfree 0x80108000 0x80200000 s = (Ret (), t))"
proof -
  let ?s = "two_pages\<lparr>freelist := 0x80300000\<rparr>"
  have start: "kfree_pages 0x80108000 two_pages {0x80200000, 0x80300000}"
    using two_pages_inv by (force simp: kfree_pages_def)
  have "kalloc two_pages = (Ret 0x80200000, ?s)"
    by (simp add: kalloc_def two_pages_def Let_def)
  then have r: "reach (\<lambda>(s, A). A = {} \<and> kfree_pages 0x80108000 s {0x80200000, 0x80300000})
        (own_step kalloc (kfree 0x80108000) store) (?s, {0x80200000})"
    using start by (auto intro!: reach_step [OF reach_start] own_alloc)
  have "kalloc ?s = (Ret 0x80300000, ?s\<lparr>freelist := 0\<rparr>)"
    by (simp add: kalloc_def two_pages_def Let_def)
  moreover have "\<exists>t. kfree 0x80108000 0x80200000 ?s = (Ret (), t)"
    using kalloc_ownership [OF r] by simp
  ultimately show ?thesis using r by blast
qed

text \<open>
  C21. Boot.  With \<^verbatim>\<open>end\<close> inside the first 4 MB, \<^verbatim>\<open>kinit1\<close> on an empty free list
  returns with exactly the usable pages below 4 MB free, each once, and \<^verbatim>\<open>kinit2\<close>, run later
  on any free list of such pages, adds exactly the usable pages from 4 MB to \<^verbatim>\<open>PHYSTOP\<close>.
\<close>

theorem kinit_frees_all:
  assumes "0x80000000 \<le> unat kend" and "unat kend \<le> 0x80400000"
  shows "(freelist s = 0 \<longrightarrow> (\<exists>t xs. kinit1 kend kend (P2V 0x400000) s = (Ret (), t) \<and>
       kmem_inv kend t xs \<and> set xs = {v. page_ok kend v \<and> unat v < 0x80400000} \<and> \<not> use_lock t)) \<and>
    (kmem_inv kend u ys \<and> (\<forall>y\<in>set ys. unat y < 0x80400000) \<longrightarrow>
       (\<exists>t xs. kinit2 kend (P2V 0x400000) (P2V PHYSTOP) u = (Ret (), t) \<and>
       kmem_inv kend t xs \<and> set xs = set ys \<union> {v. page_ok kend v \<and> 0x80400000 \<le> unat v} \<and> use_lock t))"
proof -
  have up: "unat (PGROUNDUP kend) = (unat kend + 4095) div 4096 * 4096"
    using assms by (simp add: unat_PGROUNDUP)
  have r: "unat kend \<le> (unat kend + 4095) div 4096 * 4096" "(unat kend + 4095) div 4096 \<le> 581632"
    using assms by linarith+
  have b: "P2V 0x400000 = 0x80400000" "P2V PHYSTOP = 0x8E000000" "PGROUNDUP 0x80400000 = 0x80400000"
    by (simp_all add: P2V_def PGROUNDUP_def const_defs)
  have 1: "\<exists>t xs. kinit1 kend kend (P2V 0x400000) s = (Ret (), t) \<and>
       kmem_inv kend t xs \<and> set xs = {v. page_ok kend v \<and> unat v < 0x80400000} \<and> \<not> use_lock t"
    if "freelist s = 0"
  proof -
    have "kmem_inv kend (s\<lparr>use_lock := False\<rparr>) []" using that by (simp add: kmem_inv_def)
    then obtain t xs where "freerange_loop kend (PGROUNDUP kend) 0x80400000 (s\<lparr>use_lock := False\<rparr>) = (Ret (), t)"
        "kmem_inv kend t xs" "set xs = pages_between (PGROUNDUP kend) 0x80400000" "\<not> use_lock t"
      using freerange_loop_spec [of kend "s\<lparr>use_lock := False\<rparr>" "[]" "PGROUNDUP kend" "0x80400000"] assms up r
      by auto
    then show ?thesis
      by (auto simp: kinit1_def freerange_def b kseq_def kbind_def kmod_def pages_low [OF assms])
  qed
  have 2: "\<exists>t xs. kinit2 kend (P2V 0x400000) (P2V PHYSTOP) u = (Ret (), t) \<and>
       kmem_inv kend t xs \<and> set xs = set ys \<union> {v. page_ok kend v \<and> 0x80400000 \<le> unat v} \<and> use_lock t"
    if ys: "kmem_inv kend u ys" and lo: "\<forall>y\<in>set ys. unat y < 0x80400000"
  proof -
    obtain t xs where t: "freerange_loop kend 0x80400000 0x8E000000 u = (Ret (), t)"
        "kmem_inv kend t xs" "set xs = pages_between 0x80400000 0x8E000000 \<union> set ys"
      using freerange_loop_spec [OF ys, of "0x80400000" "0x8E000000"] assms lo by auto
    then have "kmem_inv kend (t\<lparr>use_lock := True\<rparr>) xs" by (simp add: kmem_inv_def)
    with t show ?thesis
      by (auto simp: kinit2_def freerange_def b kseq_def kbind_def kmod_def pages_high [OF assms(2)])
  qed
  from 1 2 show ?thesis by blast
qed
theorem kinit_frees_all_witness:
  "(0x80000000::nat) \<le> unat (0x80108000 :: u32) \<and> unat (0x80108000 :: u32) \<le> 0x80400000 \<and>
   (\<exists>t. kinit1 0x80108000 0x80108000 (P2V 0x400000) (two_pages\<lparr>freelist := 0\<rparr>) = (Ret (), t)) \<and>
   (\<exists>t. kinit2 0x80108000 (P2V 0x400000) (P2V PHYSTOP) two_pages = (Ret (), t))"
  using kinit_frees_all [of "0x80108000" "two_pages\<lparr>freelist := 0\<rparr>" two_pages "[0x80200000, 0x80300000]"]
    two_pages_inv by auto

text \<open>
  C22. \<^verbatim>\<open>kcount\<close>, used by the \<^verbatim>\<open>memtop\<close> system call, terminates on every well-formed
  free list and counts its pages.  After a page is freed twice in a row it does not return at all.
\<close>

theorem kcount_correct:
  "(kmem_inv kend s xs \<longrightarrow> kcount s = Some (int (length xs))) \<and>
   (kfree kend v s = (Ret (), t) \<and> kfree kend v t = (Ret (), u) \<longrightarrow> kcount u = None)"
proof -
  have 1: "kcount s = Some (int (length xs))" if "kmem_inv kend s xs"
    using that kcount_chain [of "mem s" "freelist s" xs 0] by (simp add: kcount_def kmem_inv_def)
  have 2: "kcount u = None" if t: "kfree kend v s = (Ret (), t)" and u: "kfree kend v t = (Ret (), u)"
  proof -
    have ok: "page_ok kend v" using t kfree_bad [of kend v s] by (cases "page_ok kend v") auto
    with t u have "mem u v = v" "freelist u = v" by (auto simp: kfree_ok)
    with page_ok_nonzero [OF ok] show ?thesis by (simp add: kcount_def kcount_self_loop)
  qed
  from 1 2 show ?thesis by blast
qed

theorem kcount_correct_witness:
  "kcount two_pages = Some 2 \<and>
   (\<exists>t u. kfree 0x80108000 0x80400000 two_pages = (Ret (), t) \<and>
      kfree 0x80108000 0x80400000 t = (Ret (), u) \<and> kcount u = None)"
proof -
  have ok: "page_ok 0x80108000 0x80400000" by (simp add: page_ok_iff)
  obtain t where t: "kfree 0x80108000 0x80400000 two_pages = (Ret (), t)" using kfree_ok [OF ok] by blast
  obtain u where u: "kfree 0x80108000 0x80400000 t = (Ret (), u)" using kfree_ok [OF ok] by blast
  have "kcount u = None" using kcount_correct t u by blast
  moreover have "kcount two_pages = Some 2"
    using kcount_correct [of "0x80108000" two_pages "[0x80200000, 0x80300000]"] two_pages_inv by simp
  ultimately show ?thesis using t u by blast
qed

end
