(* ===== verification/Pipe_Ring.thy ===== *)
theory Pipe_Ring
  imports Kernel_Prelude
begin

text \<open>
  Pipes (\<^verbatim>\<open>pipe.c\<close>).

  \<^item> The buffer and its free-running 32-bit counters as in \<^verbatim>\<open>struct pipe\<close>; the pipe's
    spin lock makes each stretch of code between two sleeps atomic.
  \<^item> A call in progress is a \<open>pcall\<close>: the pipe, the loop index of the source and the
    \<^verbatim>\<open>wakeup\<close> calls made so far.  A call that sleeps gives \<open>Sleep\<close> and leaves its index
    in the \<open>pcall\<close>; after the wakeup the same loop is entered again from there, which is what
    the \<^verbatim>\<open>while\<close> around \<^verbatim>\<open>sleep\<close> does.
  \<^item> Functional correctness is a refinement to a list queue through \<open>ring_contents\<close>;
    the interplay of several readers and writers is a step relation over the sleeping processes.
  \<^item> \<^verbatim>\<open>pipealloc\<close>, which also needs the file table and the page allocator, is with the file
    layer.
\<close>

section \<open>State\<close>

definition PIPESIZE :: nat where
  [const_defs]: "PIPESIZE = 512"

record pipe =
  pdata :: "nat \<Rightarrow> u8"
  nread :: u32
  nwrite :: u32
  readopen :: bool
  writeopen :: bool

record pcall =
  pc_pipe :: pipe
  pc_i :: int
  pc_wake :: "chan list"

section \<open>Operations\<close>

text \<open>The page given by the allocator keeps its old bytes; \<^verbatim>\<open>pipealloc\<close> sets the rest.\<close>

definition pipe_init :: "(nat \<Rightarrow> u8) \<Rightarrow> pipe" where
  "pipe_init junk = \<lparr>pdata = junk, nread = 0, nwrite = 0, readopen = True, writeopen = True\<rparr>"

text \<open>The result says whether both ends are closed now, so that the page is freed.\<close>

definition pipeclose :: "nat \<Rightarrow> bool \<Rightarrow> (pcall, bool) kop" where
  "pipeclose pid writable = (\<lambda>s.
     let s1 = (if writable
               then s\<lparr>pc_pipe := (pc_pipe s)\<lparr>writeopen := False\<rparr>, pc_wake := pc_wake s @ [ChanPipeRead pid]\<rparr>
               else s\<lparr>pc_pipe := (pc_pipe s)\<lparr>readopen := False\<rparr>, pc_wake := pc_wake s @ [ChanPipeWrite pid]\<rparr>)
     in (Ret (\<not> readopen (pc_pipe s1) \<and> \<not> writeopen (pc_pipe s1)), s1))"

definition pipe_put :: "u8 \<Rightarrow> pipe \<Rightarrow> pipe" where
  "pipe_put b p = p\<lparr>pdata := (pdata p)(unat (nwrite p) mod PIPESIZE := b), nwrite := nwrite p + 1\<rparr>"

definition pipe_get :: "pipe \<Rightarrow> u8 \<times> pipe" where
  "pipe_get p = (pdata p (unat (nread p) mod PIPESIZE), p\<lparr>nread := nread p + 1\<rparr>)"

function pipewrite_loop :: "nat \<Rightarrow> bool \<Rightarrow> (nat \<Rightarrow> u8) \<Rightarrow> int \<Rightarrow> (pcall, int) kop" where
  "pipewrite_loop pid killed addr n s =
     (let p = pc_pipe s in
      if pc_i s < n then
        (if nwrite p = nread p + of_nat PIPESIZE then
           (if \<not> readopen p \<or> killed then (Ret (-1), s)
            else (Sleep (ChanPipeWrite pid), s\<lparr>pc_wake := pc_wake s @ [ChanPipeRead pid]\<rparr>))
         else pipewrite_loop pid killed addr n
                (s\<lparr>pc_pipe := pipe_put (addr (nat (pc_i s))) p, pc_i := pc_i s + 1\<rparr>))
      else (Ret n, s\<lparr>pc_wake := pc_wake s @ [ChanPipeRead pid]\<rparr>))"
  by pat_completeness auto
termination
  by (relation "measure (\<lambda>(pid, killed, addr, n, s). nat (n - pc_i s))") (auto simp: Let_def)

declare pipewrite_loop.simps [simp del]

definition pipewrite :: "nat \<Rightarrow> bool \<Rightarrow> (nat \<Rightarrow> u8) \<Rightarrow> int \<Rightarrow> (pcall, int) kop" where
  "pipewrite pid killed addr n s = pipewrite_loop pid killed addr n (s\<lparr>pc_i := 0\<rparr>)"

text \<open>The copying loop of \<^verbatim>\<open>piperead\<close>; the bytes are returned in place of stores to the caller.\<close>

function piperead_loop :: "int \<Rightarrow> pcall \<Rightarrow> u8 list \<times> pcall" where
  "piperead_loop n s =
     (if pc_i s < n \<and> nread (pc_pipe s) \<noteq> nwrite (pc_pipe s) then
        (let (b, p) = pipe_get (pc_pipe s);
             (bs, t) = piperead_loop n (s\<lparr>pc_pipe := p, pc_i := pc_i s + 1\<rparr>)
         in (b # bs, t))
      else ([], s))"
  by pat_completeness auto
termination
  by (relation "measure (\<lambda>(n, s). nat (n - pc_i s))") auto

declare piperead_loop.simps [simp del]

definition piperead :: "nat \<Rightarrow> bool \<Rightarrow> int \<Rightarrow> (pcall, int \<times> u8 list) kop" where
  "piperead pid killed n = (\<lambda>s.
     let p = pc_pipe s in
     if nread p = nwrite p \<and> writeopen p then
       (if killed then (Ret (-1, []), s) else (Sleep (ChanPipeRead pid), s))
     else
       (let (bs, t) = piperead_loop n (s\<lparr>pc_i := 0\<rparr>)
        in (Ret (pc_i t, bs), t\<lparr>pc_wake := pc_wake t @ [ChanPipeWrite pid]\<rparr>)))"

section \<open>The queue a pipe holds\<close>

definition pipe_list :: "pipe \<Rightarrow> u8 list" where
  "pipe_list p = ring_contents PIPESIZE (pdata p) (nread p) (nwrite p)"

definition pipe_inv :: "pipe \<Rightarrow> bool" where
  "pipe_inv p \<longleftrightarrow> unat (nwrite p - nread p) \<le> PIPESIZE"

interpretation pr: ring PIPESIZE
  by unfold_locales (simp_all add: PIPESIZE_def)

text \<open>The bounded queue that pipes and console input offer to their users.\<close>

locale byte_queue =
  fixes put :: "'b \<Rightarrow> 'q \<Rightarrow> 'q"
    and get :: "'q \<Rightarrow> 'b \<times> 'q"
    and is_full :: "'q \<Rightarrow> bool"
    and is_empty :: "'q \<Rightarrow> bool"
    and contents :: "'q \<Rightarrow> 'b list"
    and cap :: nat
    and qinv :: "'q \<Rightarrow> bool"
  assumes cap_pos: "0 < cap"
    and contents_cap: "qinv q \<Longrightarrow> length (contents q) \<le> cap"
    and full_contents: "qinv q \<Longrightarrow> is_full q \<longleftrightarrow> length (contents q) = cap"
    and empty_contents: "qinv q \<Longrightarrow> is_empty q \<longleftrightarrow> contents q = []"
    and put_contents: "qinv q \<Longrightarrow> \<not> is_full q \<Longrightarrow> contents (put b q) = contents q @ [b] \<and> qinv (put b q)"
    and get_contents: "qinv q \<Longrightarrow> \<not> is_empty q \<Longrightarrow>
      contents q = fst (get q) # contents (snd (get q)) \<and> qinv (snd (get q))"
begin

lemma not_full_and_empty: "qinv q \<Longrightarrow> \<not> (is_full q \<and> is_empty q)"
  using cap_pos full_contents empty_contents by fastforce

lemma put_get:
  assumes "qinv q" and "is_empty q"
  shows "fst (get (put b q)) = b \<and> is_empty (snd (get (put b q)))"
proof -
  have "\<not> is_full q" using assms not_full_and_empty by blast
  with assms have p: "contents (put b q) = [b]" "qinv (put b q)"
    using put_contents [of q b] empty_contents by auto
  then have "\<not> is_empty (put b q)" using empty_contents by auto
  with p get_contents [of "put b q"] empty_contents show ?thesis by auto
qed

end

definition pipe_full :: "pipe \<Rightarrow> bool" where
  "pipe_full p \<longleftrightarrow> nwrite p = nread p + of_nat PIPESIZE"

definition pipe_empty :: "pipe \<Rightarrow> bool" where
  "pipe_empty p \<longleftrightarrow> nread p = nwrite p"

interpretation pq: byte_queue pipe_put pipe_get pipe_full pipe_empty pipe_list PIPESIZE pipe_inv
proof (unfold_locales, goal_cases)
  case 1
  then show ?case by (simp add: PIPESIZE_def)
next
  case (2 q)
  then show ?case by (simp add: pipe_list_def pipe_inv_def pr.length_contents)
next
  case (3 q)
  then show ?case by (simp add: pipe_list_def pipe_inv_def pr.length_contents pipe_full_def pr.full_iff)
next
  case (4 q)
  then show ?case by (simp add: pipe_list_def pipe_empty_def pr.contents_empty)
next
  case (5 q b)
  then have lt: "unat (nwrite q - nread q) < PIPESIZE"
    using pr.full_iff [of "nwrite q" "nread q"] by (auto simp: pipe_inv_def pipe_full_def)
  with pr.contents_put [OF lt] pr.unat_diff_Suc [OF lt] show ?case
    by (simp add: pipe_put_def pipe_list_def pipe_inv_def)
next
  case (6 q)
  then have ne: "nread q \<noteq> nwrite q" by (simp add: pipe_empty_def)
  with 6 pr.contents_get [OF ne] pr.contents_frame [OF _ ne] show ?case
    by (simp add: pipe_get_def pipe_list_def pipe_inv_def less_imp_le)
qed

lemma pipe_put_fields [simp]:
  "readopen (pipe_put b p) = readopen p" "writeopen (pipe_put b p) = writeopen p"
  by (simp_all add: pipe_put_def)

lemma pipe_get_fields [simp]:
  "readopen (snd (pipe_get p)) = readopen p" "writeopen (snd (pipe_get p)) = writeopen p"
  by (simp_all add: pipe_get_def)

section \<open>What one stretch of a read or a write does\<close>

definition write_count :: "pcall \<Rightarrow> int \<Rightarrow> nat" where
  "write_count s n = min (nat (n - pc_i s)) (PIPESIZE - length (pipe_list (pc_pipe s)))"

definition pipewrite_post ::
  "nat \<Rightarrow> bool \<Rightarrow> (nat \<Rightarrow> u8) \<Rightarrow> int \<Rightarrow> pcall \<Rightarrow> int res \<Rightarrow> pcall \<Rightarrow> bool" where
  "pipewrite_post pid killed addr n s r t \<longleftrightarrow>
     (let k = write_count s n; all = nat (n - pc_i s); p = pc_pipe s in
      r = (if k = all then Ret n else if \<not> readopen p \<or> killed then Ret (-1)
           else Sleep (ChanPipeWrite pid)) \<and>
      pipe_inv (pc_pipe t) \<and>
      pipe_list (pc_pipe t) = pipe_list p @ map (\<lambda>j. addr (nat (pc_i s) + j)) [0..<k] \<and>
      pc_i t = pc_i s + int k \<and>
      readopen (pc_pipe t) = readopen p \<and> writeopen (pc_pipe t) = writeopen p \<and>
      pc_wake t = (if k \<noteq> all \<and> (\<not> readopen p \<or> killed)
                   then pc_wake s else pc_wake s @ [ChanPipeRead pid]))"

lemma pipewrite_loop_spec:
  assumes "pipe_inv (pc_pipe s)" and "0 \<le> pc_i s"
  shows "case pipewrite_loop pid killed addr n s of (r, t) \<Rightarrow> pipewrite_post pid killed addr n s r t"
  using assms
proof (induction pid killed addr n s rule: pipewrite_loop.induct)
  case (1 pid killed addr n s)
  let ?p = "pc_pipe s"
  have len: "length (pipe_list ?p) \<le> PIPESIZE" using "1.prems"(1) by (rule pq.contents_cap)
  consider (finished) "\<not> pc_i s < n" | (full) "pc_i s < n" "pipe_full ?p" | (put) "pc_i s < n" "\<not> pipe_full ?p"
    by blast
  then show ?case
  proof cases
    case finished
    then have "write_count s n = 0" by (simp add: write_count_def)
    with finished "1.prems" show ?thesis
      by (simp add: pipewrite_loop.simps [of pid killed addr n s] pipewrite_post_def)
  next
    case full
    then have "write_count s n = 0" using pq.full_contents [OF "1.prems"(1)] by (simp add: write_count_def)
    with full "1.prems" show ?thesis
      by (simp add: pipewrite_loop.simps [of pid killed addr n s] pipe_full_def pipewrite_post_def Let_def)
  next
    case put
    define u where "u = s\<lparr>pc_pipe := pipe_put (addr (nat (pc_i s))) ?p, pc_i := pc_i s + 1\<rparr>"
    have l: "pipe_list (pc_pipe u) = pipe_list ?p @ [addr (nat (pc_i s))]" "pipe_inv (pc_pipe u)"
      using pq.put_contents [OF "1.prems"(1) put(2)] by (simp_all add: u_def)
    have lt: "length (pipe_list ?p) < PIPESIZE"
      using len pq.full_contents [OF "1.prems"(1)] put(2) by simp
    have i: "pc_i u = pc_i s + 1" "pc_wake u = pc_wake s" "readopen (pc_pipe u) = readopen ?p"
        "writeopen (pc_pipe u) = writeopen ?p"
      by (simp_all add: u_def)
    have wc: "write_count s n = Suc (write_count u n)" and d: "nat (n - pc_i s) = Suc (nat (n - pc_i u))"
      using put(1) lt l(1) i(1) by (auto simp: write_count_def min_def)
    have m: "pipe_list (pc_pipe u) @ map (\<lambda>j. addr (nat (pc_i u) + j)) [0..<write_count u n]
        = pipe_list ?p @ map (\<lambda>j. addr (nat (pc_i s) + j)) [0..<write_count s n]"
      using "1.prems"(2) by (simp add: wc map_upt_Suc nat_add_distrib l(1) i(1) del: upt_Suc)
    have rec: "pipewrite_loop pid killed addr n s = pipewrite_loop pid killed addr n u"
      using put by (simp add: pipewrite_loop.simps [of pid killed addr n s] pipe_full_def u_def)
    obtain r t where rt: "pipewrite_loop pid killed addr n u = (r, t)" by fastforce
    have "pipewrite_post pid killed addr n u r t"
      using rt "1.IH" [OF refl put(1)] put(2) l(2) "1.prems"(2) by (simp add: pipe_full_def u_def)
    then have "pipewrite_post pid killed addr n s r t"
      using m [unfolded i wc] unfolding pipewrite_post_def Let_def i wc d by (simp del: upt_Suc)
    then show ?thesis by (simp add: rec rt)
  qed
qed

lemma piperead_loop_spec:
  assumes "pipe_inv (pc_pipe s)" and "piperead_loop n s = (bs, t)"
  shows "bs = take (nat (n - pc_i s)) (pipe_list (pc_pipe s)) \<and>
    pipe_list (pc_pipe t) = drop (nat (n - pc_i s)) (pipe_list (pc_pipe s)) \<and>
    pipe_inv (pc_pipe t) \<and> pc_i t = pc_i s + int (length bs) \<and> pc_wake t = pc_wake s \<and>
    readopen (pc_pipe t) = readopen (pc_pipe s) \<and> writeopen (pc_pipe t) = writeopen (pc_pipe s)"
  using assms
proof (induction n s arbitrary: bs t rule: piperead_loop.induct)
  case (1 n s)
  show ?case
  proof (cases "pc_i s < n \<and> \<not> pipe_empty (pc_pipe s)")
    case False
    then have "bs = [] \<and> t = s"
      using "1.prems"(2) by (auto simp: piperead_loop.simps [of n s] pipe_empty_def)
    with False "1.prems"(1) pq.empty_contents [OF "1.prems"(1)] show ?thesis by auto
  next
    case True
    obtain b p where g: "pipe_get (pc_pipe s) = (b, p)" by fastforce
    let ?u = "s\<lparr>pc_pipe := p, pc_i := pc_i s + 1\<rparr>"
    obtain cs v where r: "piperead_loop n ?u = (cs, v)" by fastforce
    have bs: "bs = b # cs" "t = v"
      using "1.prems"(2) True g r by (auto simp: piperead_loop.simps [of n s] pipe_empty_def)
    have c: "pipe_list (pc_pipe s) = b # pipe_list p" "pipe_inv p"
      using pq.get_contents [OF "1.prems"(1)] True g by auto
    have f: "readopen p = readopen (pc_pipe s)" "writeopen p = writeopen (pc_pipe s)"
      using pipe_get_fields [of "pc_pipe s"] g by auto
    have d: "nat (n - pc_i s) = Suc (nat (n - (pc_i s + 1)))" using True by auto
    have "cs = take (nat (n - pc_i ?u)) (pipe_list (pc_pipe ?u)) \<and>
      pipe_list (pc_pipe v) = drop (nat (n - pc_i ?u)) (pipe_list (pc_pipe ?u)) \<and>
      pipe_inv (pc_pipe v) \<and> pc_i v = pc_i ?u + int (length cs) \<and> pc_wake v = pc_wake ?u \<and>
      readopen (pc_pipe v) = readopen (pc_pipe ?u) \<and> writeopen (pc_pipe v) = writeopen (pc_pipe ?u)"
      using "1.IH" [OF _ g [symmetric] refl] True c(2) r by (auto simp: pipe_empty_def)
    then show ?thesis using bs c(1) f d by auto
  qed
qed

lemma piperead_spec:
  assumes "pipe_inv (pc_pipe s)" and "piperead pid killed n s = (r, t)"
  shows "(if pipe_list (pc_pipe s) = [] \<and> writeopen (pc_pipe s)
          then t = s \<and> r = (if killed then Ret (-1, []) else Sleep (ChanPipeRead pid))
          else r = Ret (int (min (nat n) (length (pipe_list (pc_pipe s)))),
                        take (nat n) (pipe_list (pc_pipe s))) \<and>
               pipe_list (pc_pipe t) = drop (nat n) (pipe_list (pc_pipe s)) \<and>
               pipe_inv (pc_pipe t) \<and> pc_wake t = pc_wake s @ [ChanPipeWrite pid] \<and>
               readopen (pc_pipe t) = readopen (pc_pipe s) \<and> writeopen (pc_pipe t) = writeopen (pc_pipe s))"
proof -
  obtain bs u where l: "piperead_loop n (s\<lparr>pc_i := 0\<rparr>) = (bs, u)" by fastforce
  have "pipe_inv (pc_pipe (s\<lparr>pc_i := 0\<rparr>))" using assms(1) by simp
  note sp = piperead_loop_spec [OF this l]
  show ?thesis
    using assms(2) sp l pq.empty_contents [OF assms(1)]
    by (auto simp: piperead_def Let_def pipe_empty_def min_def split: if_splits)
qed

section \<open>Several readers and writers\<close>

text \<open>
  A reader or writer is asleep on the pipe or ready to run, in which case it re-enters its loop.
  \<open>sy_in\<close> and \<open>sy_out\<close> record the bytes copied into and out of the pipe.

  \<^item> A process that reads holds the read end open and so does a writer the write end, since each
    has its own reference to the file: an end is closed only when no call on it is in progress.
  \<^item> \<^verbatim>\<open>kill\<close> makes a sleeping process ready (\<open>rd_signal\<close>, \<open>wr_signal\<close>).
  \<^item> The flag \<open>wkill\<close> says whether a writer may run with \<^verbatim>\<open>killed\<close> set.
\<close>

record rd =
  rd_n :: int
  rd_asleep :: bool

record wr =
  wr_addr :: "nat \<Rightarrow> u8"
  wr_n :: int
  wr_i :: int
  wr_asleep :: bool

record psys =
  sy_pipe :: pipe
  sy_rd :: "nat \<rightharpoonup> rd"
  sy_wr :: "nat \<rightharpoonup> wr"
  sy_in :: "u8 list"
  sy_out :: "u8 list"

definition wake_rd :: "chan list \<Rightarrow> nat \<Rightarrow> (nat \<rightharpoonup> rd) \<Rightarrow> (nat \<rightharpoonup> rd)" where
  "wake_rd cs pid m = (if ChanPipeRead pid \<in> set cs
     then (\<lambda>q. map_option (\<lambda>x. x\<lparr>rd_asleep := False\<rparr>) (m q)) else m)"

definition wake_wr :: "chan list \<Rightarrow> nat \<Rightarrow> (nat \<rightharpoonup> wr) \<Rightarrow> (nat \<rightharpoonup> wr)" where
  "wake_wr cs pid m = (if ChanPipeWrite pid \<in> set cs
     then (\<lambda>q. map_option (\<lambda>x. x\<lparr>wr_asleep := False\<rparr>) (m q)) else m)"

definition call_of :: "psys \<Rightarrow> int \<Rightarrow> pcall" where
  "call_of y i = \<lparr>pc_pipe = sy_pipe y, pc_i = i, pc_wake = []\<rparr>"

lemma call_of_simps [simp]: "pc_pipe (call_of y i) = sy_pipe y" "pc_i (call_of y i) = i" "pc_wake (call_of y i) = []"
  by (simp_all add: call_of_def)

definition rd_run :: "nat \<Rightarrow> bool \<Rightarrow> nat \<Rightarrow> rd \<Rightarrow> psys \<Rightarrow> psys" where
  "rd_run pid killed q x y =
     (case piperead pid killed (rd_n x) (call_of y 0) of (r, t) \<Rightarrow>
        let y1 = y\<lparr>sy_pipe := pc_pipe t, sy_rd := wake_rd (pc_wake t) pid (sy_rd y),
                   sy_wr := wake_wr (pc_wake t) pid (sy_wr y)\<rparr>
        in case r of
             Ret (_, bs) \<Rightarrow> y1\<lparr>sy_rd := (sy_rd y1)(q := None), sy_out := sy_out y @ bs\<rparr>
           | _ \<Rightarrow> y1\<lparr>sy_rd := (sy_rd y1)(q \<mapsto> x\<lparr>rd_asleep := True\<rparr>)\<rparr>)"

definition wr_run :: "nat \<Rightarrow> bool \<Rightarrow> nat \<Rightarrow> wr \<Rightarrow> psys \<Rightarrow> psys" where
  "wr_run pid killed q x y =
     (case pipewrite_loop pid killed (wr_addr x) (wr_n x) (call_of y (wr_i x)) of (r, t) \<Rightarrow>
        let y1 = y\<lparr>sy_pipe := pc_pipe t, sy_rd := wake_rd (pc_wake t) pid (sy_rd y),
                   sy_wr := wake_wr (pc_wake t) pid (sy_wr y),
                   sy_in := sy_in y @ map (wr_addr x \<circ> nat) [wr_i x..pc_i t - 1]\<rparr>
        in case r of
             Ret _ \<Rightarrow> y1\<lparr>sy_wr := (sy_wr y1)(q := None)\<rparr>
           | _ \<Rightarrow> y1\<lparr>sy_wr := (sy_wr y1)(q \<mapsto> x\<lparr>wr_i := pc_i t, wr_asleep := True\<rparr>)\<rparr>)"

inductive pipe_step :: "nat \<Rightarrow> bool \<Rightarrow> psys \<Rightarrow> psys \<Rightarrow> bool" for pid :: nat and wkill :: bool where
  rd_call: "sy_rd y q = None \<Longrightarrow> readopen (sy_pipe y) \<Longrightarrow>
    pipe_step pid wkill y (y\<lparr>sy_rd := (sy_rd y)(q \<mapsto> \<lparr>rd_n = n, rd_asleep = False\<rparr>)\<rparr>)"
| rd_go: "sy_rd y q = Some x \<Longrightarrow> \<not> rd_asleep x \<Longrightarrow> pipe_step pid wkill y (rd_run pid killed q x y)"
| wr_call: "sy_wr y q = None \<Longrightarrow> writeopen (sy_pipe y) \<Longrightarrow>
    pipe_step pid wkill y
      (y\<lparr>sy_wr := (sy_wr y)(q \<mapsto> \<lparr>wr_addr = a, wr_n = n, wr_i = 0, wr_asleep = False\<rparr>)\<rparr>)"
| wr_go: "sy_wr y q = Some x \<Longrightarrow> \<not> wr_asleep x \<Longrightarrow> (killed \<longrightarrow> wkill) \<Longrightarrow>
    pipe_step pid wkill y (wr_run pid killed q x y)"
| rd_signal: "sy_rd y q = Some x \<Longrightarrow>
    pipe_step pid wkill y (y\<lparr>sy_rd := (sy_rd y)(q \<mapsto> x\<lparr>rd_asleep := False\<rparr>)\<rparr>)"
| wr_signal: "sy_wr y q = Some x \<Longrightarrow>
    pipe_step pid wkill y (y\<lparr>sy_wr := (sy_wr y)(q \<mapsto> x\<lparr>wr_asleep := False\<rparr>)\<rparr>)"
| rd_close: "dom (sy_rd y) = {} \<Longrightarrow> pipeclose pid False (call_of y 0) = (r, t) \<Longrightarrow>
    pipe_step pid wkill y (y\<lparr>sy_pipe := pc_pipe t, sy_rd := wake_rd (pc_wake t) pid (sy_rd y),
      sy_wr := wake_wr (pc_wake t) pid (sy_wr y)\<rparr>)"
| wr_close: "dom (sy_wr y) = {} \<Longrightarrow> pipeclose pid True (call_of y 0) = (r, t) \<Longrightarrow>
    pipe_step pid wkill y (y\<lparr>sy_pipe := pc_pipe t, sy_rd := wake_rd (pc_wake t) pid (sy_rd y),
      sy_wr := wake_wr (pc_wake t) pid (sy_wr y)\<rparr>)"

definition pipe_start :: "psys \<Rightarrow> bool" where
  "pipe_start y \<longleftrightarrow> (\<exists>junk. y = \<lparr>sy_pipe = pipe_init junk, sy_rd = Map.empty, sy_wr = Map.empty,
     sy_in = [], sy_out = []\<rparr>)"

definition fifo_inv :: "psys \<Rightarrow> bool" where
  "fifo_inv y \<longleftrightarrow> pipe_inv (sy_pipe y) \<and> sy_in y = sy_out y @ pipe_list (sy_pipe y) \<and>
     (\<forall>q x. sy_wr y q = Some x \<longrightarrow> 0 \<le> wr_i x)"

definition wake_inv :: "psys \<Rightarrow> bool" where
  "wake_inv y \<longleftrightarrow> fifo_inv y \<and>
     (\<forall>q x. sy_rd y q = Some x \<longrightarrow> readopen (sy_pipe y) \<and>
        (rd_asleep x \<longrightarrow> pipe_list (sy_pipe y) = [] \<and> writeopen (sy_pipe y))) \<and>
     (\<forall>q x. sy_wr y q = Some x \<longrightarrow> writeopen (sy_pipe y) \<and>
        (wr_asleep x \<longrightarrow> length (pipe_list (sy_pipe y)) = PIPESIZE \<and> readopen (sy_pipe y)))"

lemma pipe_init_list [simp]: "pipe_list (pipe_init junk) = []" "pipe_inv (pipe_init junk)"
  by (simp_all add: pipe_list_def pipe_inv_def pipe_init_def pr.contents_empty)

lemma pipe_list_cong [simp]:
  "pipe_list (p\<lparr>readopen := b\<rparr>) = pipe_list p" "pipe_list (p\<lparr>writeopen := b\<rparr>) = pipe_list p"
  "pipe_inv (p\<lparr>readopen := b\<rparr>) = pipe_inv p" "pipe_inv (p\<lparr>writeopen := b\<rparr>) = pipe_inv p"
  by (simp_all add: pipe_list_def pipe_inv_def)

lemma upto_write_map:
  "0 \<le> i \<Longrightarrow> map (a \<circ> nat) [i..j - 1] = map (\<lambda>k. a (nat i + k)) [0..<nat (j - i)]"
  by (rule nth_equalityI) (auto simp: nat_add_distrib)

lemma fifo_start: "pipe_start y \<Longrightarrow> fifo_inv y"
  by (auto simp: pipe_start_def fifo_inv_def)

lemma wake_start: "pipe_start y \<Longrightarrow> wake_inv y"
  by (auto simp: pipe_start_def fifo_inv_def wake_inv_def)

lemma fifo_rd:
  assumes "fifo_inv y"
  shows "fifo_inv (rd_run pid killed q x y)"
proof -
  obtain r t where rt: "piperead pid killed (rd_n x) (call_of y 0) = (r, t)" by fastforce
  have "pipe_inv (pc_pipe (call_of y 0))" using assms by (simp add: fifo_inv_def)
  note sp = piperead_spec [OF this rt]
  show ?thesis
    using sp assms
    unfolding rd_run_def rt
    by (auto simp: fifo_inv_def wake_wr_def Let_def split: if_splits)
qed

lemma fifo_wr:
  assumes "fifo_inv y" and "sy_wr y q = Some x"
  shows "fifo_inv (wr_run pid killed q x y)"
proof -
  obtain r t where rt: "pipewrite_loop pid killed (wr_addr x) (wr_n x) (call_of y (wr_i x)) = (r, t)" by fastforce
  have "pipe_inv (pc_pipe (call_of y (wr_i x)))" "0 \<le> pc_i (call_of y (wr_i x))"
    using assms by (auto simp: fifo_inv_def)
  note sp = pipewrite_loop_spec [OF this, of pid killed "wr_addr x" "wr_n x", unfolded rt]
  show ?thesis
    using sp assms
    unfolding wr_run_def rt
    by (auto simp: fifo_inv_def pipewrite_post_def wake_wr_def Let_def
          upto_write_map split: if_splits)
qed

lemma fifo_step:
  assumes "fifo_inv y" and "pipe_step pid wkill y z"
  shows "fifo_inv z"
  using assms(2,1)
proof cases
  case (rd_go q x killed)
  then show ?thesis using fifo_rd assms(1) by simp
next
  case (wr_go q x killed)
  then show ?thesis using fifo_wr assms(1) by simp
qed (auto simp: fifo_inv_def pipeclose_def wake_wr_def)

lemma wake_rd_run:
  assumes "wake_inv y" and "sy_rd y q = Some x"
  shows "wake_inv (rd_run pid killed q x y)"
proof -
  have f: "fifo_inv (rd_run pid killed q x y)"
    using assms(1) by (intro fifo_rd) (simp add: wake_inv_def)
  obtain r t where rt: "piperead pid killed (rd_n x) (call_of y 0) = (r, t)" by fastforce
  have "pipe_inv (pc_pipe (call_of y 0))" using assms by (simp add: fifo_inv_def wake_inv_def)
  note sp = piperead_spec [OF this rt]
  show ?thesis
    using sp assms f
    unfolding rd_run_def rt
    by (auto simp: wake_inv_def wake_wr_def wake_rd_def Let_def
        split: if_splits)
qed

lemma wake_wr_run:
  assumes "wake_inv y" and "sy_wr y q = Some x"
  shows "wake_inv (wr_run pid False q x y)"
proof -
  have f: "fifo_inv (wr_run pid False q x y)"
    using assms by (intro fifo_wr) (simp_all add: wake_inv_def)
  obtain r t where rt: "pipewrite_loop pid False (wr_addr x) (wr_n x) (call_of y (wr_i x)) = (r, t)" by fastforce
  have i: "pipe_inv (pc_pipe (call_of y (wr_i x)))" "0 \<le> pc_i (call_of y (wr_i x))"
    using assms by (auto simp: fifo_inv_def wake_inv_def)
  note sp = pipewrite_loop_spec [OF this, of pid False "wr_addr x" "wr_n x", unfolded rt]
  have len: "length (pipe_list (sy_pipe y)) \<le> PIPESIZE"
    using pq.contents_cap [OF i(1)] by (simp add: call_of_def)
  show ?thesis
    using sp assms f len
    unfolding wr_run_def rt
    by (auto simp: wake_inv_def pipewrite_post_def write_count_def wake_wr_def wake_rd_def Let_def
         split: if_splits)
qed

lemma wake_step:
  assumes "wake_inv y" and "pipe_step pid False y z"
  shows "wake_inv z"
proof -
  have f: "fifo_inv z" using assms fifo_step by (auto simp: wake_inv_def)
  show ?thesis
    using assms(2,1) f
  proof cases
    case (rd_go q x killed)
    then show ?thesis using wake_rd_run assms(1) by simp
  next
    case (wr_go q x killed)
    then show ?thesis using wake_wr_run assms(1) by simp
  qed (auto simp: wake_inv_def pipeclose_def wake_wr_def wake_rd_def split: if_splits)
qed

interpretation pf: state_machine pipe_start "pipe_step pid wkill" fifo_inv
  using fifo_start fifo_step by unfold_locales

interpretation pw: state_machine pipe_start "pipe_step pid False" wake_inv
  using wake_start wake_step by unfold_locales

section \<open>Properties\<close>

text \<open>
  C23. A call of \<^verbatim>\<open>pipewrite\<close> on a pipe that holds \<open>q\<close> appends exactly the first bytes of the
  caller's buffer that fit.  It returns \<open>n\<close> when all of them fit, otherwise \<open>-1\<close> when the read
  end is closed or the caller killed, and otherwise sleeps on the full pipe.  The counters may be
  anywhere in the 32-bit range, wrap-around included.
\<close>

theorem pipewrite_refines:
  assumes "pipe_inv (pc_pipe s)" and "pipewrite pid killed addr n s = (r, t)"
    and "q = pipe_list (pc_pipe s)" and "k = min (nat n) (PIPESIZE - length q)"
  shows "pipe_list (pc_pipe t) = q @ map addr [0..<k] \<and> pipe_inv (pc_pipe t) \<and>
    r = (if k = nat n then Ret n
         else if \<not> readopen (pc_pipe s) \<or> killed then Ret (-1) else Sleep (ChanPipeWrite pid)) \<and>
    (r = Sleep (ChanPipeWrite pid) \<longrightarrow> pipe_full (pc_pipe t) \<and> ChanPipeRead pid \<in> set (pc_wake t))"
proof -
  let ?s = "s\<lparr>pc_i := 0\<rparr>"
  have post: "pipewrite_post pid killed addr n ?s r t"
    using pipewrite_loop_spec [of ?s pid killed addr n] assms by (simp add: pipewrite_def)
  have len: "length q \<le> PIPESIZE" using pq.contents_cap assms(1,3) by blast
  have wc: "write_count ?s n = k" using assms(3,4) by (simp add: write_count_def)
  have inv: "pipe_inv (pc_pipe t)" and lst: "pipe_list (pc_pipe t) = q @ map addr [0..<k]"
    using post wc assms(3) by (simp_all add: pipewrite_post_def Let_def)
  have "pipe_full (pc_pipe t)" if "k \<noteq> nat n"
    using that lst len assms(4) pq.full_contents [OF inv] by (auto simp: min_def split: if_splits)
  with post wc inv lst show ?thesis by (auto simp: pipewrite_post_def Let_def)
qed

definition wrap_pipe :: pipe where
  "wrap_pipe = \<lparr>pdata = (\<lambda>i. of_nat i), nread = -2, nwrite = -1, readopen = True, writeopen = True\<rparr>"

theorem pipewrite_refines_witness:
  "let s = \<lparr>pc_pipe = wrap_pipe, pc_i = 0, pc_wake = []\<rparr>;
       (r, t) = pipewrite 0 False (\<lambda>j. of_nat (j + 1)) 2 s
   in r = Ret 2 \<and> pipe_list (pc_pipe t) = pipe_list wrap_pipe @ [1, 2] \<and> nwrite (pc_pipe t) = 1"
proof -
  let ?s = "\<lparr>pc_pipe = wrap_pipe, pc_i = 0, pc_wake = []\<rparr>"
  have inv: "pipe_inv (pc_pipe ?s)" by (simp add: pipe_inv_def wrap_pipe_def PIPESIZE_def)
  have len: "length (pipe_list wrap_pipe) = 1"
    by (simp add: pipe_list_def wrap_pipe_def pr.length_contents)
  obtain r t where rt: "pipewrite 0 False (\<lambda>j. of_nat (j + 1)) 2 ?s = (r, t)" by fastforce
  have "nwrite (pc_pipe t) = 1"
    using rt by (auto simp: pipewrite_def pipewrite_loop.simps wrap_pipe_def pipe_put_def PIPESIZE_def)
  with pipewrite_refines [OF inv rt refl refl] rt len show ?thesis
    by (simp add: PIPESIZE_def upt_rec)
qed

text \<open>
  C24. A call of \<^verbatim>\<open>piperead\<close> takes exactly the first \<open>n\<close> bytes of the queue, or all of them if
  there are fewer, returns how many, and wakes the writers.  On an empty pipe it returns 0 when the
  write end is closed, else sleeps, or returns \<open>-1\<close> when killed, and the pipe is unchanged.
\<close>

theorem piperead_refines:
  assumes "pipe_inv (pc_pipe s)" and "piperead pid killed n s = (r, t)"
    and "q = pipe_list (pc_pipe s)"
  shows "if q = [] \<and> writeopen (pc_pipe s)
    then t = s \<and> r = (if killed then Ret (-1, []) else Sleep (ChanPipeRead pid))
    else r = Ret (int (min (nat n) (length q)), take (nat n) q) \<and>
      pipe_list (pc_pipe t) = drop (nat n) q \<and> pipe_inv (pc_pipe t) \<and>
      ChanPipeWrite pid \<in> set (pc_wake t)"
  using piperead_spec [OF assms(1,2)] assms(3) by auto

theorem piperead_refines_witness:
  "let s = \<lparr>pc_pipe = wrap_pipe, pc_i = 0, pc_wake = []\<rparr>; (r, t) = piperead 0 False 5 s
   in r = Ret (1, [254]) \<and> pipe_list (pc_pipe t) = []"
proof -
  let ?s = "\<lparr>pc_pipe = wrap_pipe, pc_i = 0, pc_wake = []\<rparr>"
  have inv: "pipe_inv (pc_pipe ?s)" by (simp add: pipe_inv_def wrap_pipe_def PIPESIZE_def)
  have l: "pipe_list wrap_pipe = [254]"
    by (simp add: pipe_list_def wrap_pipe_def ring_contents_def PIPESIZE_def)
  obtain r t where rt: "piperead 0 False 5 ?s = (r, t)" by fastforce
  with piperead_refines [OF inv rt refl] l show ?thesis by simp
qed

text \<open>
  C13. For any number of readers and writers and any interleaving of their calls, sleeps, wakeups,
  kills and closes, the bytes that came out of the pipe followed by the bytes in it are the bytes
  that went in: nothing is lost, duplicated or reordered, and at most \<^verbatim>\<open>PIPESIZE\<close> bytes wait.
\<close>

theorem pipe_fifo:
  assumes "reach pipe_start (pipe_step pid wkill) y"
  shows "sy_in y = sy_out y @ pipe_list (sy_pipe y) \<and> length (pipe_list (sy_pipe y)) \<le> PIPESIZE"
  using pf.reach_inv [OF assms] pq.contents_cap by (auto simp: fifo_inv_def)

definition sys_init :: psys where
  "sys_init = \<lparr>sy_pipe = pipe_init (\<lambda>_. 0), sy_rd = Map.empty, sy_wr = Map.empty, sy_in = [], sy_out = []\<rparr>"

definition ex_wr :: wr where
  "ex_wr = \<lparr>wr_addr = (\<lambda>j. of_nat j + 7), wr_n = 600, wr_i = 0, wr_asleep = False\<rparr>"

definition ex_rd :: rd where
  "ex_rd = \<lparr>rd_n = 3, rd_asleep = False\<rparr>"

definition ex_reading :: psys where
  "ex_reading = rd_run 0 False 5 ex_rd (sys_init\<lparr>sy_rd := [5 \<mapsto> ex_rd]\<rparr>)"

definition ex_both :: "bool \<Rightarrow> psys" where
  "ex_both killed = wr_run 0 killed 6 ex_wr (ex_reading\<lparr>sy_wr := [6 \<mapsto> ex_wr]\<rparr>)"

lemma pipe_init_open [simp]: "readopen (pipe_init junk)" "writeopen (pipe_init junk)"
  by (simp_all add: pipe_init_def)

lemma ex_reading_eq: "ex_reading = sys_init\<lparr>sy_rd := [5 \<mapsto> ex_rd\<lparr>rd_asleep := True\<rparr>]\<rparr>"
  by (simp add: ex_reading_def rd_run_def call_of_def sys_init_def piperead_def pipe_init_def
      ex_rd_def wake_rd_def wake_wr_def)

lemma ex_reach: "(killed \<longrightarrow> wkill) \<Longrightarrow> reach pipe_start (pipe_step 0 wkill) (ex_both killed)"
proof -
  assume k: "killed \<longrightarrow> wkill"
  have 0: "reach pipe_start (pipe_step 0 wkill) sys_init"
    by (rule reach_start) (auto simp: pipe_start_def sys_init_def)
  have 1: "pipe_step 0 wkill sys_init (sys_init\<lparr>sy_rd := [5 \<mapsto> ex_rd]\<rparr>)"
    using rd_call [of sys_init 5 0 wkill 3] by (simp add: sys_init_def pipe_init_def ex_rd_def)
  have 2: "pipe_step 0 wkill (sys_init\<lparr>sy_rd := [5 \<mapsto> ex_rd]\<rparr>) ex_reading"
    unfolding ex_reading_def by (rule rd_go) (simp_all add: ex_rd_def)
  have 3: "pipe_step 0 wkill ex_reading (ex_reading\<lparr>sy_wr := [6 \<mapsto> ex_wr]\<rparr>)"
    using wr_call [of ex_reading 6 0 wkill "\<lambda>j. of_nat j + 7" 600]
    by (simp add: ex_reading_eq sys_init_def pipe_init_def ex_wr_def)
  have 4: "pipe_step 0 wkill (ex_reading\<lparr>sy_wr := [6 \<mapsto> ex_wr]\<rparr>) (ex_both killed)"
    unfolding ex_both_def by (rule wr_go) (simp_all add: ex_wr_def k)
  show ?thesis using 0 1 2 3 4 by (meson reach_step)
qed

lemma ex_both_state:
  "pipe_list (sy_pipe (ex_both killed)) = map (wr_addr ex_wr) [0..<512] \<and>
   writeopen (sy_pipe (ex_both killed)) \<and>
   sy_rd (ex_both killed) 5 = Some (ex_rd\<lparr>rd_asleep := killed\<rparr>)"
proof -
  let ?y = "ex_reading\<lparr>sy_wr := [6 \<mapsto> ex_wr]\<rparr>"
  obtain r t where rt: "pipewrite_loop 0 killed (wr_addr ex_wr) (wr_n ex_wr) (call_of ?y 0) = (r, t)"
    by fastforce
  have y: "sy_pipe ?y = pipe_init (\<lambda>_. 0)" by (simp add: ex_reading_eq sys_init_def)
  have "pipewrite_post 0 killed (wr_addr ex_wr) (wr_n ex_wr) (call_of ?y 0) r t"
    using pipewrite_loop_spec [of "call_of ?y 0" 0 killed "wr_addr ex_wr" "wr_n ex_wr"] rt y by simp
  moreover have "write_count (call_of ?y 0) 600 = 512"
    using y by (simp add: write_count_def PIPESIZE_def)
  ultimately have "pipe_list (pc_pipe t) = map (wr_addr ex_wr) [0..<512]" "writeopen (pc_pipe t)"
      "pc_wake t = (if killed then [] else [ChanPipeRead 0])"
      "r = (if killed then Ret (- 1) else Sleep (ChanPipeWrite 0))"
    using y by (auto simp: pipewrite_post_def ex_wr_def)
  with rt show ?thesis
    unfolding ex_both_def wr_run_def by (simp add: ex_wr_def ex_reading_eq wake_rd_def ex_rd_def)
qed

theorem pipe_fifo_witness:
  "\<exists>y. reach pipe_start (pipe_step 0 True) y \<and> length (sy_in y) = 512 \<and>
     sy_in y = sy_out y @ pipe_list (sy_pipe y)"
proof -
  have r: "reach pipe_start (pipe_step 0 True) (ex_both True)" by (rule ex_reach) simp
  moreover have "sy_out (ex_both True) = []" 
    by (simp add: ex_both_def wr_run_def ex_reading_eq sys_init_def Let_def split: prod.splits res.splits)
  ultimately show ?thesis
    using pipe_fifo [OF r] ex_both_state [of True] by auto
qed

text \<open>
  C14. No lost wakeup: as long as no writer runs with \<^verbatim>\<open>killed\<close> set, a reader is asleep only while
  the pipe is empty and can still be written, a writer only while it is full and can still be read;
  in particular a reader and a writer are never asleep together.
\<close>

theorem pipe_no_lost_wakeup:
  assumes "reach pipe_start (pipe_step pid False) y"
  shows "(\<forall>q x. sy_rd y q = Some x \<and> rd_asleep x \<longrightarrow> pipe_empty (sy_pipe y) \<and> writeopen (sy_pipe y)) \<and>
    (\<forall>q x. sy_wr y q = Some x \<and> wr_asleep x \<longrightarrow> pipe_full (sy_pipe y) \<and> readopen (sy_pipe y)) \<and>
    \<not> (\<exists>q x q' x'. sy_rd y q = Some x \<and> rd_asleep x \<and> sy_wr y q' = Some x' \<and> wr_asleep x')"
proof -
  have w: "wake_inv y" using pw.reach_inv [OF assms] .
  then have i: "pipe_inv (sy_pipe y)" by (simp add: wake_inv_def fifo_inv_def)
  have c: "\<not> (length (pipe_list (sy_pipe y)) = PIPESIZE \<and> pipe_list (sy_pipe y) = [])"
    by (auto simp: PIPESIZE_def)
  have "\<forall>q x. sy_rd y q = Some x \<and> rd_asleep x \<longrightarrow> pipe_list (sy_pipe y) = [] \<and> writeopen (sy_pipe y)"
    "\<forall>q x. sy_wr y q = Some x \<and> wr_asleep x \<longrightarrow>
       length (pipe_list (sy_pipe y)) = PIPESIZE \<and> readopen (sy_pipe y)"
    using w by (auto simp: wake_inv_def)
  with c show ?thesis unfolding pq.full_contents [OF i] pq.empty_contents [OF i] by metis
qed

theorem pipe_no_lost_wakeup_witness:
  "\<exists>y. reach pipe_start (pipe_step 0 False) y \<and> length (pipe_list (sy_pipe y)) = 512 \<and>
     (\<exists>x. sy_rd y 5 = Some x \<and> \<not> rd_asleep x)"
proof -
  have r: "reach pipe_start (pipe_step 0 False) (ex_both False)" by (rule ex_reach) simp
  have "length (pipe_list (sy_pipe (ex_both False))) = 512"
    using ex_both_state [of False] by simp
  then have "\<not> pipe_empty (sy_pipe (ex_both False))"
    using pq.empty_contents [of "sy_pipe (ex_both False)"] pf.reach_inv [OF r] by (auto simp: fifo_inv_def)
  with r pipe_no_lost_wakeup [OF r] ex_both_state [of False] show ?thesis by auto
qed

text \<open>
  C25. The hypothesis on killed writers is needed: a killed writer that fills the pipe returns \<open>-1\<close>
  without \<^verbatim>\<open>wakeup(&p->nread)\<close>, so a reader can stay asleep on a pipe that holds 512 bytes.
\<close>

theorem pipe_killed_writer_lost_wakeup:
  "\<exists>y x. reach pipe_start (pipe_step 0 True) y \<and> sy_rd y 5 = Some x \<and> rd_asleep x \<and>
     length (pipe_list (sy_pipe y)) = 512 \<and> writeopen (sy_pipe y) \<and> sy_wr y = Map.empty"
proof -
  have r: "reach pipe_start (pipe_step 0 True) (ex_both True)" by (rule ex_reach) simp
  moreover have "sy_wr (ex_both True) = Map.empty"
  proof -
    let ?y = "ex_reading\<lparr>sy_wr := [6 \<mapsto> ex_wr]\<rparr>"
    obtain r t where rt: "pipewrite_loop 0 True (wr_addr ex_wr) (wr_n ex_wr) (call_of ?y 0) = (r, t)"
      by fastforce
    have "sy_pipe ?y = pipe_init (\<lambda>_. 0)" by (simp add: ex_reading_eq sys_init_def)
    then have "pipewrite_post 0 True (wr_addr ex_wr) (wr_n ex_wr) (call_of ?y 0) r t"
      using pipewrite_loop_spec [of "call_of ?y 0" 0 True "wr_addr ex_wr" "wr_n ex_wr"] rt by simp
    then have "r = Ret (wr_n ex_wr) \<or> r = Ret (-1)" by (auto simp: pipewrite_post_def Let_def)
    with rt show ?thesis
      unfolding ex_both_def wr_run_def by (auto simp: ex_wr_def wake_wr_def)
  qed
  ultimately show ?thesis using ex_both_state [of True] by auto
qed

end
