(* ===== verification/C_String.thy ===== *)
theory C_String
  imports Kernel_Prelude
begin

text \<open>
  The memory and string routines of \<^verbatim>\<open>string.c\<close> (kernel) and \<^verbatim>\<open>ulib.c\<close> (user).

  \<^item> \<^verbatim>\<open>memset\<close> and \<^verbatim>\<open>memmove\<close> work on one byte memory with 32-bit addresses, since aliasing
    and alignment decide what they do.
  \<^item> The string routines take the bytes from a pointer on as a function; \<^verbatim>\<open>p++\<close> is \<open>adv p\<close>.
    Loops that stop only at a NUL byte are partial functions.
\<close>

type_synonym bmem = "u32 \<Rightarrow> u8"
type_synonym cstr = "nat \<Rightarrow> u8"

section \<open>Memory blocks\<close>

primrec stosb :: "nat \<Rightarrow> u32 \<Rightarrow> u8 \<Rightarrow> bmem \<Rightarrow> bmem" where
  "stosb 0 addr data m = m"
| "stosb (Suc cnt) addr data m = stosb cnt (addr + 1) data (m(addr := data))"

definition put_word :: "u32 \<Rightarrow> u32 \<Rightarrow> bmem \<Rightarrow> bmem" where
  "put_word addr w m = m(addr := ucast w, addr + 1 := ucast (drop_bit 8 w),
     addr + 2 := ucast (drop_bit 16 w), addr + 3 := ucast (drop_bit 24 w))"

primrec stosl :: "nat \<Rightarrow> u32 \<Rightarrow> u32 \<Rightarrow> bmem \<Rightarrow> bmem" where
  "stosl 0 addr data m = m"
| "stosl (Suc cnt) addr data m = stosl cnt (addr + 4) data (put_word addr data m)"

definition memset :: "u32 \<Rightarrow> u32 \<Rightarrow> u32 \<Rightarrow> bmem \<Rightarrow> bmem" where
  "memset dst c n m =
     (if dst mod 4 = 0 \<and> n mod 4 = 0 then
        (let c = c AND 0xFF
         in stosl (unat (n div 4)) dst (push_bit 24 c OR push_bit 16 c OR push_bit 8 c OR c) m)
      else stosb (unat n) dst (ucast c) m)"

primrec memcmp :: "nat \<Rightarrow> u32 \<Rightarrow> u32 \<Rightarrow> bmem \<Rightarrow> int" where
  "memcmp 0 s1 s2 m = 0"
| "memcmp (Suc n) s1 s2 m =
     (if m s1 \<noteq> m s2 then uint (m s1) - uint (m s2) else memcmp n (s1 + 1) (s2 + 1) m)"

primrec memmove_bwd :: "nat \<Rightarrow> u32 \<Rightarrow> u32 \<Rightarrow> bmem \<Rightarrow> bmem" where
  "memmove_bwd 0 d s m = m"
| "memmove_bwd (Suc n) d s m = memmove_bwd n (d - 1) (s - 1) (m(d - 1 := m (s - 1)))"

primrec memmove_fwd :: "nat \<Rightarrow> u32 \<Rightarrow> u32 \<Rightarrow> bmem \<Rightarrow> bmem" where
  "memmove_fwd 0 d s m = m"
| "memmove_fwd (Suc n) d s m = memmove_fwd n (d + 1) (s + 1) (m(d := m s))"

definition memmove :: "u32 \<Rightarrow> u32 \<Rightarrow> u32 \<Rightarrow> bmem \<Rightarrow> bmem" where
  "memmove dst src n m =
     (if src < dst \<and> src + n > dst then memmove_bwd (unat n) (dst + n) (src + n) m
      else memmove_fwd (unat n) dst src m)"

definition memcpy :: "u32 \<Rightarrow> u32 \<Rightarrow> u32 \<Rightarrow> bmem \<Rightarrow> bmem" where
  "memcpy dst src n m = memmove dst src n m"

text \<open>The user library has no overlap test.\<close>

definition u_memmove :: "u32 \<Rightarrow> u32 \<Rightarrow> int \<Rightarrow> bmem \<Rightarrow> bmem" where
  "u_memmove vdst vsrc n m = memmove_fwd (nat n) vdst vsrc m"

definition u_memset :: "u32 \<Rightarrow> u32 \<Rightarrow> u32 \<Rightarrow> bmem \<Rightarrow> bmem" where
  "u_memset dst c n m = stosb (unat n) dst (ucast c) m"

section \<open>Strings\<close>

definition adv :: "cstr \<Rightarrow> cstr" where
  "adv p = (\<lambda>i. p (Suc i))"

primrec strncmp :: "nat \<Rightarrow> cstr \<Rightarrow> cstr \<Rightarrow> int" where
  "strncmp 0 p q = 0"
| "strncmp (Suc n) p q =
     (if p 0 \<noteq> 0 \<and> p 0 = q 0 then strncmp n (adv p) (adv q) else uint (p 0) - uint (q 0))"

primrec strncpy_pad :: "nat \<Rightarrow> nat \<Rightarrow> cstr \<Rightarrow> cstr" where
  "strncpy_pad 0 i s = s"
| "strncpy_pad (Suc n) i s = strncpy_pad n (Suc i) (s(i := 0))"

primrec strncpy_loop :: "nat \<Rightarrow> nat \<Rightarrow> cstr \<Rightarrow> cstr \<Rightarrow> cstr" where
  "strncpy_loop 0 i s t = s"
| "strncpy_loop (Suc n) i s t =
     (let s1 = s(i := t 0)
      in if t 0 \<noteq> 0 then strncpy_loop n (Suc i) s1 (adv t) else strncpy_pad n (Suc i) s1)"

definition strncpy :: "cstr \<Rightarrow> cstr \<Rightarrow> int \<Rightarrow> cstr" where
  "strncpy s t n = strncpy_loop (nat n) 0 s t"

primrec safestrcpy_loop :: "nat \<Rightarrow> nat \<Rightarrow> cstr \<Rightarrow> cstr \<Rightarrow> nat \<times> cstr" where
  "safestrcpy_loop 0 i s t = (i, s)"
| "safestrcpy_loop (Suc n) i s t =
     (let s1 = s(i := t 0)
      in if t 0 \<noteq> 0 then safestrcpy_loop n (Suc i) s1 (adv t) else (Suc i, s1))"

definition safestrcpy :: "cstr \<Rightarrow> cstr \<Rightarrow> int \<Rightarrow> cstr" where
  "safestrcpy s t n =
     (if n \<le> 0 then s else case safestrcpy_loop (nat (n - 1)) 0 s t of (i, s1) \<Rightarrow> s1(i := 0))"

partial_function (option) strlen_loop :: "cstr \<Rightarrow> nat \<Rightarrow> nat option" where
  "strlen_loop s n = (if s n \<noteq> 0 then strlen_loop s (n + 1) else Some n)"

definition strlen :: "cstr \<Rightarrow> nat option" where
  "strlen s = strlen_loop s 0"

partial_function (option) strcpy_loop :: "cstr \<Rightarrow> nat \<Rightarrow> cstr \<Rightarrow> cstr option" where
  "strcpy_loop s i t = (if t i \<noteq> 0 then strcpy_loop (s(i := t i)) (i + 1) t else Some (s(i := t i)))"

definition strcpy :: "cstr \<Rightarrow> cstr \<Rightarrow> cstr option" where
  "strcpy s t = strcpy_loop s 0 t"

partial_function (option) strcmp :: "cstr \<Rightarrow> cstr \<Rightarrow> int option" where
  "strcmp p q = (if p 0 \<noteq> 0 \<and> p 0 = q 0 then strcmp (adv p) (adv q) else Some (uint (p 0) - uint (q 0)))"

text \<open>The result is the offset of the byte found; \<open>Some None\<close> is the null pointer.\<close>

partial_function (option) strchr_loop :: "cstr \<Rightarrow> u8 \<Rightarrow> nat \<Rightarrow> nat option option" where
  "strchr_loop s c i =
     (if s i \<noteq> 0 then (if s i = c then Some (Some i) else strchr_loop s c (i + 1)) else Some None)"

definition strchr :: "cstr \<Rightarrow> u8 \<Rightarrow> nat option option" where
  "strchr s c = strchr_loop s c 0"

text \<open>\<^verbatim>\<open>read(0, &c, 1)\<close> gives the next byte of the input, or less than 1 at its end.\<close>

fun gets_loop :: "nat \<Rightarrow> int \<Rightarrow> cstr \<Rightarrow> u8 list \<Rightarrow> nat \<times> cstr \<times> u8 list" where
  "gets_loop i maxlen buf [] = (i, buf, [])"
| "gets_loop i maxlen buf (c # inp) =
     (if int i + 1 < maxlen then
        (let buf1 = buf(i := c)
         in if c = 10 \<or> c = 13 then (Suc i, buf1, inp) else gets_loop (Suc i) maxlen buf1 inp)
      else (i, buf, c # inp))"

definition gets :: "cstr \<Rightarrow> int \<Rightarrow> u8 list \<Rightarrow> cstr \<times> u8 list" where
  "gets buf maxlen inp = (case gets_loop 0 maxlen buf inp of (i, buf1, rest) \<Rightarrow> (buf1(i := 0), rest))"

partial_function (option) atoi_loop :: "cstr \<Rightarrow> u32 \<Rightarrow> u32 option" where
  "atoi_loop s n =
     (if 48 \<le> s 0 \<and> s 0 \<le> 57 then atoi_loop (adv s) (n * 10 + ucast (s 0) - 48) else Some n)"

definition atoi :: "cstr \<Rightarrow> u32 option" where
  "atoi s = atoi_loop s 0"

section \<open>Block copies and fills\<close>

lemma unat_diff_step:
  fixes a b :: u32
  shows "a \<noteq> b \<Longrightarrow> unat (a - b) = Suc (unat (a - (b + 1)))"
    and "unat (a - (a + 1)) = 2 ^ 32 - 1"
proof -
  have "a - b = (a - (b + 1)) + 1" by simp
  moreover assume "a \<noteq> b"
  ultimately show "unat (a - b) = Suc (unat (a - (b + 1)))"
    by (metis add.commute eq_iff_diff_eq_0 unatSuc)
next
  show "unat (a - (a + 1)) = 2 ^ 32 - 1" by (simp add: unsigned_minus_1_eq_mask mask_eq_exp_minus_1)
qed

lemma stosb_spec: "cnt < 2 ^ 32 \<Longrightarrow> stosb cnt d c m a = (if unat (a - d) < cnt then c else m a)"
proof (induction cnt arbitrary: d m)
  case (Suc cnt)
  show ?case
  proof (cases "a = d")
    case True
    then show ?thesis using Suc unat_diff_step(2) [of d] by (simp del: diff_add_eq_diff_diff_swap)
  next
    case False
    then show ?thesis using Suc unat_diff_step(1) [OF False] by simp
  qed
qed simp

lemma memmove_fwd_spec:
  assumes "n < 2 ^ 32" and "\<And>i j. j < i \<Longrightarrow> i < n \<Longrightarrow> s + of_nat i \<noteq> d + of_nat j"
  shows "memmove_fwd n d s m a = (if unat (a - d) < n then m (s + (a - d)) else m a)"
  using assms
proof (induction n arbitrary: d s m)
  case (Suc n)
  have sep: "s + 1 + of_nat i \<noteq> d + 1 + of_nat j" if "j < i" "i < n" for i j
    using Suc.prems(2) [of "Suc j" "Suc i"] that by (simp add: algebra_simps)
  have IH: "memmove_fwd n (d + 1) (s + 1) m' a =
      (if unat (a - (d + 1)) < n then m' (s + 1 + (a - (d + 1))) else m' a)" for m'
    using Suc.IH [OF _ sep, of m'] Suc.prems(1) by simp
  show ?case
  proof (cases "a = d")
    case True
    then show ?thesis using IH Suc.prems(1) unat_diff_step(2) [of d] by (simp del: diff_add_eq_diff_diff_swap)
  next
    case False
    have "s + (a - d) \<noteq> d" if "unat (a - d) < Suc n"
      using Suc.prems(2) [of 0 "unat (a - d)"] that False by (simp add: unat_gt_0)
    then show ?thesis using IH False unat_diff_step(1) [OF False] by (auto simp: algebra_simps)
  qed
qed simp

lemma unat_diff_step_down:
  fixes a b :: u32
  shows "a \<noteq> b \<Longrightarrow> unat (b - a) = Suc (unat (b - 1 - a))"
  using unat_diff_step(1) [of b a] by (simp add: algebra_simps)

lemma memmove_bwd_spec:
  assumes "n < 2 ^ 32" and "\<And>i j. j < i \<Longrightarrow> i < n \<Longrightarrow> s - 1 - of_nat i \<noteq> d - 1 - of_nat j"
  shows "memmove_bwd n d s m a = (if unat (d - 1 - a) < n then m (s - (d - a)) else m a)"
  using assms
proof (induction n arbitrary: d s m)
  case (Suc n)
  have sep: "s - 1 - 1 - of_nat i \<noteq> d - 1 - 1 - of_nat j" if "j < i" "i < n" for i j
    using Suc.prems(2) [of "Suc j" "Suc i"] that by (simp add: algebra_simps)
  have IH: "memmove_bwd n (d - 1) (s - 1) m' a =
      (if unat (d - 1 - 1 - a) < n then m' (s - 1 - (d - 1 - a)) else m' a)" for m'
    using Suc.IH [OF _ sep, of m'] Suc.prems(1) by simp
  show ?case
  proof (cases "a = d - 1")
    case True
    then show ?thesis using IH Suc.prems(1) by (simp add: unsigned_minus_1_eq_mask mask_eq_exp_minus_1)
  next
    case False
    have ne: "s - (d - a) \<noteq> d - 1" if "unat (d - 1 - a) < Suc n"
      using Suc.prems(2) [of 0 "unat (d - 1 - a)"] that False by (simp add: unat_gt_0 algebra_simps)
    have "unat (d - 1 - a) = Suc (unat (d - 1 - 1 - a))"
      using unat_diff_step_down [OF False] .
    moreover have e: "s - 1 - (d - 1 - a) = s - (d - a)" by simp
    ultimately show ?thesis using IH [unfolded e] False ne by auto
  qed
qed simp

lemma memmove_spec:
  assumes "unat src + unat n < 2 ^ 32" and "unat dst + unat n < 2 ^ 32"
  shows "memmove dst src n m a = (if a - dst < n then m (src + (a - dst)) else m a)"
proof (cases "src < dst \<and> src + n > dst")
  case True
  have "src + n - 1 - of_nat i \<noteq> dst + n - 1 - of_nat j" if "j < i" "i < unat n" for i j
  proof
    assume "src + n - 1 - of_nat i = dst + n - 1 - of_nat j"
    then have e: "src + of_nat j = dst + of_nat i" by (simp add: algebra_simps)
    have "unat (of_nat i :: u32) = i" "unat (of_nat j :: u32) = j"
      using that assms by (simp_all add: unat_of_nat take_bit_eq_mod)
    then have "unat src + j = unat dst + i"
      using arg_cong [OF e, of unat] that assms by (simp add: unat_word_ariths)
    with True that show False by (simp add: word_less_nat_alt)
  qed
  note sp = memmove_bwd_spec [OF _ this]
  have r: "unat (dst + n - 1 - a) < unat n \<longleftrightarrow> a - dst < n"
  proof -
    have "n \<noteq> 0" using True by auto
    then have "n - 1 - k < n \<longleftrightarrow> k < n" for k by unat_arith
    moreover have "dst + n - 1 - a = n - 1 - (a - dst)" by (simp add: algebra_simps)
    ultimately show ?thesis by (metis word_less_nat_alt)
  qed
  have "src + n - (dst + n - a) = src + (a - dst)" by simp
  with sp [where m = m and a = a] r True unsigned_less [of n, where ?'a = nat] show ?thesis by (simp add: memmove_def)
next
  case False
  have "src + of_nat i \<noteq> dst + of_nat j" if "j < i" "i < unat n" for i j
  proof
    assume e: "src + of_nat i = dst + of_nat j"
    have "unat (of_nat i :: u32) = i" "unat (of_nat j :: u32) = j"
      using that assms by (simp_all add: unat_of_nat take_bit_eq_mod)
    then have "unat src + i = unat dst + j"
      using arg_cong [OF e, of unat] that assms by (simp add: unat_word_ariths)
    moreover have "unat (src + n) = unat src + unat n" using assms by (simp add: unat_word_ariths)
    ultimately show False using False that by (auto simp: word_less_nat_alt)
  qed
  from memmove_fwd_spec [OF _ this] False unsigned_less [of n, where ?'a = nat] show ?thesis
    by (auto simp: memmove_def word_less_nat_alt)
qed

definition fill_word :: "u8 \<Rightarrow> u32" where
  "fill_word b = (let c = ucast b in push_bit 24 c OR push_bit 16 c OR push_bit 8 c OR c)"

lemma fill_word_bytes:
  "ucast (fill_word b) = b" "ucast (drop_bit 8 (fill_word b)) = b"
  "ucast (drop_bit 16 (fill_word b)) = b" "ucast (drop_bit 24 (fill_word b)) = b"
  by (rule bit_word_eqI; auto simp: fill_word_def Let_def bit_simps dest: bit_imp_le_length)+

lemma unat_less_4: "unat (x :: u32) < 4 \<longleftrightarrow> x = 0 \<or> x = 1 \<or> x = 2 \<or> x = 3"
proof
  assume "unat x < 4"
  then have "unat x = 0 \<or> unat x = 1 \<or> unat x = 2 \<or> unat x = 3" by auto
  then show "x = 0 \<or> x = 1 \<or> x = 2 \<or> x = 3" by (auto simp: word_unat_eq_iff)
qed auto

lemma put_word_spec: "put_word d (fill_word b) m a = (if unat (a - d) < 4 then b else m a)"
  by (auto simp: put_word_def fill_word_bytes unat_less_4 algebra_simps)

lemma stosl_spec:
  "4 * cnt < 2 ^ 32 \<Longrightarrow>
   stosl cnt d (fill_word b) m a = (if unat (a - d) < 4 * cnt then b else m a)"
proof (induction cnt arbitrary: d m)
  case (Suc cnt)
  then have IH: "stosl cnt (d + 4) (fill_word b) m' a = (if unat (a - (d + 4)) < 4 * cnt then b else m' a)" for m'
    by simp
  have "unat (a - d) < 4 * Suc cnt \<longleftrightarrow> unat (a - d) < 4 \<or> unat (a - (d + 4)) < 4 * cnt"
  proof -
    define k where "k = a - d"
    have "a - (d + 4) = k - 4" by (simp add: k_def)
    moreover have "unat k < 4 * Suc cnt \<longleftrightarrow> unat k < 4 \<or> unat (k - 4) < 4 * cnt"
      using Suc.prems by (cases "unat k < 4") (auto simp: unat_sub_if' word_le_nat_alt)
    ultimately show ?thesis by (simp only: k_def)
  qed
  with IH show ?case by (simp add: put_word_spec)
qed simp

lemma memset_spec: "memset dst c n m a = (if a - dst < n then ucast c else m a)"
proof (cases "dst mod 4 = 0 \<and> n mod 4 = 0")
  case True
  have w: "(let c = c AND 0xFF in push_bit 24 c OR push_bit 16 c OR push_bit 8 c OR c) = fill_word (ucast c)"
  proof -
    have ff: "(0xFF :: u32) = mask 8" by (simp add: mask_eq_exp_minus_1)
    have "c AND 0xFF = ucast (ucast c :: u8)"
      unfolding ff by (rule bit_word_eqI) (auto simp: bit_simps)
    then show ?thesis by (simp add: fill_word_def Let_def)
  qed
  have "4 * unat (n div 4) = unat n"
    using True by (simp add: unat_div word_unat_eq_iff unat_mod) presburger
  then show ?thesis
    using True w stosl_spec [of "unat (n div 4)" dst "ucast c" m a] unsigned_less [of n, where ?'a = nat]
    by (simp add: memset_def Let_def word_less_nat_alt)
next
  case False
  then show ?thesis
    using stosb_spec [of "unat n" dst "ucast c" m a] unsigned_less [of n, where ?'a = nat]
    by (auto simp: memset_def word_less_nat_alt)
qed

section \<open>Strings as lists\<close>

primrec cstring :: "cstr \<Rightarrow> u8 list \<Rightarrow> bool" where
  "cstring p [] \<longleftrightarrow> p 0 = 0"
| "cstring p (x # xs) \<longleftrightarrow> x \<noteq> 0 \<and> p 0 = x \<and> cstring (adv p) xs"

primrec strn :: "nat \<Rightarrow> cstr \<Rightarrow> u8 list" where
  "strn 0 p = []"
| "strn (Suc n) p = (if p 0 = 0 then [] else p 0 # strn n (adv p))"

definition pad0 :: "u8 list \<Rightarrow> cstr" where
  "pad0 xs = (\<lambda>i. if i < length xs then xs ! i else 0)"

lemma adv_app [simp]: "adv p i = p (Suc i)"
  by (simp add: adv_def)

lemma length_strn: "length (strn n p) \<le> n"
  by (induction n arbitrary: p) auto

lemma strn_nonzero [simp]: "0 \<notin> set (strn n p)"
  by (induction n arbitrary: p) (auto split: if_splits)

lemma strn_cong: "(\<And>i. i < n \<Longrightarrow> p i = q i) \<Longrightarrow> strn n p = strn n q"
proof (induction n arbitrary: p q)
  case (Suc n)
  have "strn n (adv p) = strn n (adv q)" by (rule Suc.IH) (simp add: Suc.prems)
  with Suc.prems [of 0] show ?case by simp
qed simp

lemma adv_pad0 [simp]: "adv (pad0 (x # xs)) = pad0 xs"
  by (rule ext) (simp add: pad0_def)

lemma pad0_nth [simp]: "pad0 [] i = 0" "pad0 (x # xs) 0 = x" "pad0 (x # xs) (Suc i) = pad0 xs i"
  by (simp_all add: pad0_def)

lemma pad0_shift: "i \<le> j \<Longrightarrow> pad0 (x # xs) (j - i) = (if j = i then x else pad0 xs (j - Suc i))"
proof (cases "j = i")
  case False
  moreover assume "i \<le> j"
  ultimately have "j - i = Suc (j - Suc i)" by arith
  with False show ?thesis by simp
qed simp

lemma strn_pad0: "length xs \<le> n \<Longrightarrow> 0 \<notin> set xs \<Longrightarrow> strn n (pad0 xs) = xs"
proof (induction n arbitrary: xs)
  case (Suc n)
  then show ?case by (cases xs) auto
qed simp

lemma cstring_pad0: "0 \<notin> set xs \<Longrightarrow> cstring (pad0 xs) xs"
  by (induction xs) auto

lemma cstring_nonzero: "cstring p xs \<Longrightarrow> 0 \<notin> set xs"
  by (induction xs arbitrary: p) auto

lemma cstring_nth: "cstring p xs \<longleftrightarrow> 0 \<notin> set xs \<and> (\<forall>i\<le>length xs. p i = pad0 xs i)"
proof (induction xs arbitrary: p)
  case (Cons x xs)
  have "(\<forall>i\<le>length (x # xs). p i = pad0 (x # xs) i) \<longleftrightarrow> p 0 = x \<and> (\<forall>i\<le>length xs. adv p i = pad0 xs i)"
    by (auto simp: less_Suc_eq_le [symmetric] less_Suc_eq_0_disj)
  with Cons show ?case by auto
qed (simp add: pad0_def)

lemma cstring_unique: "cstring p xs \<Longrightarrow> cstring p ys \<Longrightarrow> xs = ys"
proof (induction xs arbitrary: p ys)
  case Nil
  then show ?case by (cases ys) auto
next
  case (Cons x xs)
  then show ?case by (cases ys) auto
qed

lemma strncmp_eq_0: "strncmp n p q = 0 \<longleftrightarrow> strn n p = strn n q"
  by (induction n arbitrary: p q) (auto simp: word_uint_eq_iff)

lemma strncpy_pad_spec: "strncpy_pad n i s j = (if i \<le> j \<and> j < i + n then 0 else s j)"
  by (induction n arbitrary: i s) auto

lemma strncpy_loop_spec:
  "strncpy_loop n i s t j = (if i \<le> j \<and> j < i + n then pad0 (strn n t) (j - i) else s j)"
proof (induction n arbitrary: i s t)
  case (Suc n)
  then show ?case by (auto simp: Let_def strncpy_pad_spec pad0_shift)
qed auto

lemma strncpy_spec:
  "strncpy s t n j = (if j < nat n then pad0 (strn (nat n) t) j else s j)"
  by (simp add: strncpy_def strncpy_loop_spec)

lemma strn_strncpy: "strn (nat n) (strncpy s t n) = strn (nat n) t"
proof -
  have "strn (nat n) (strncpy s t n) = strn (nat n) (pad0 (strn (nat n) t))"
    by (rule strn_cong) (simp add: strncpy_spec)
  also have "\<dots> = strn (nat n) t"
    by (simp add: strn_pad0 length_strn)
  finally show ?thesis .
qed

lemma safestrcpy_loop_spec:
  "case safestrcpy_loop n i s t of (k, s1) \<Rightarrow>
     i + length (strn n t) \<le> k \<and> k \<le> i + n \<and> k \<le> i + length (strn n t) + 1 \<and>
     (\<forall>j. s1 j = (if i \<le> j \<and> j < k then pad0 (strn n t) (j - i) else s j))"
proof (induction n arbitrary: i s t)
  case (Suc n)
  show ?case
  proof (cases "t 0 = 0")
    case False
    obtain k s1 where l: "safestrcpy_loop n (Suc i) (s(i := t 0)) (adv t) = (k, s1)" by fastforce
    have "case safestrcpy_loop n (Suc i) (s(i := t 0)) (adv t) of (k, s1) \<Rightarrow>
        Suc i + length (strn n (adv t)) \<le> k \<and> k \<le> Suc i + n \<and> k \<le> Suc i + length (strn n (adv t)) + 1 \<and>
        (\<forall>j. s1 j = (if Suc i \<le> j \<and> j < k then pad0 (strn n (adv t)) (j - Suc i) else (s(i := t 0)) j))"
      by (rule Suc.IH)
    with l False show ?thesis by (auto simp: pad0_shift)
  qed (auto simp: Let_def)
qed auto

lemma safestrcpy_spec:
  assumes "0 < n"
  shows "cstring (safestrcpy s t n) (strn (nat (n - 1)) t) \<and> (\<forall>j\<ge>nat n. safestrcpy s t n j = s j)"
proof -
  let ?xs = "strn (nat (n - 1)) t"
  obtain k s1 where l: "safestrcpy_loop (nat (n - 1)) 0 s t = (k, s1)" by fastforce
  have k: "length ?xs \<le> k" "k \<le> nat (n - 1)" "k \<le> length ?xs + 1"
    and s1: "\<And>j. s1 j = (if j < k then pad0 ?xs j else s j)"
    using safestrcpy_loop_spec [where n = "nat (n - 1)" and i = 0 and s = s and t = t] l by auto
  have r: "safestrcpy s t n = s1(k := 0)" using assms l by (simp add: safestrcpy_def)
  have "\<forall>i\<le>length ?xs. (s1(k := 0)) i = pad0 ?xs i"
    using k s1 by (auto simp: pad0_def)
  moreover have "\<forall>j\<ge>nat n. (s1(k := 0)) j = s j" using k s1 assms by auto
  ultimately show ?thesis by (simp add: r cstring_nth)
qed

lemma strlen_spec: "cstring p xs \<Longrightarrow> strlen p = Some (length xs)"
proof -
  assume c: "cstring p xs"
  have "k \<le> length xs \<Longrightarrow> strlen_loop p (length xs - k) = Some (length xs)" for k
  proof (induction k)
    case 0
    then show ?case using c by (subst strlen_loop.simps) (simp add: cstring_nth pad0_def)
  next
    case (Suc k)
    have "p (length xs - Suc k) \<noteq> 0"
      using c Suc.prems by (simp add: cstring_nth pad0_def) (metis Suc_le_lessD diff_less nth_mem zero_less_Suc order_less_le_trans)
    then show ?case using Suc by (subst strlen_loop.simps) (simp add: Suc_diff_Suc)
  qed
  from this [of "length xs"] show ?thesis by (simp add: strlen_def)
qed

lemma strcmp_spec: "cstring p xs \<Longrightarrow> cstring q ys \<Longrightarrow> \<exists>r. strcmp p q = Some r \<and> (r = 0 \<longleftrightarrow> xs = ys)"
proof (induction xs arbitrary: p q ys)
  case Nil
  then show ?case by (cases ys) (auto simp: strcmp.simps [of p q] unsigned_eq_0_iff)
next
  case (Cons x xs)
  show ?case
  proof (cases ys)
    case Nil
    then show ?thesis using Cons.prems by (auto simp: strcmp.simps [of p q] unsigned_eq_0_iff)
  next
    case (Cons y ys')
    show ?thesis
    proof (cases "x = y")
      case True
      with Cons.prems Cons have "cstring (adv p) xs" "cstring (adv q) ys'" by simp_all
      then obtain r where "strcmp (adv p) (adv q) = Some r \<and> (r = 0 \<longleftrightarrow> xs = ys')" using Cons.IH by blast
      with True Cons.prems Cons show ?thesis by (simp add: strcmp.simps [of p q])
    next
      case False
      then show ?thesis using Cons.prems Cons by (auto simp: strcmp.simps [of p q] word_uint_eq_iff)
    qed
  qed
qed

lemma strcpy_loop_spec:
  assumes "cstring t xs"
  shows "k \<le> length xs \<Longrightarrow> strcpy_loop s (length xs - k) t =
    Some (\<lambda>j. if length xs - k \<le> j \<and> j \<le> length xs then t j else s j)"
proof (induction k arbitrary: s)
  case 0
  have "t (length xs) = 0" using assms by (simp add: cstring_nth pad0_def)
  then show ?case by (subst strcpy_loop.simps) (auto simp: fun_eq_iff)
next
  case (Suc k)
  have "t (length xs - Suc k) \<noteq> 0"
    using assms Suc.prems by (simp add: cstring_nth pad0_def) (metis Suc_le_lessD diff_less nth_mem zero_less_Suc order_less_le_trans)
  then show ?case using Suc by (subst strcpy_loop.simps) (auto simp: Suc_diff_Suc fun_eq_iff)
qed

lemma strcpy_spec:
  "cstring t xs \<Longrightarrow> \<exists>s1. strcpy s t = Some s1 \<and> cstring s1 xs \<and> (\<forall>j>length xs. s1 j = s j)"
  using strcpy_loop_spec [of t xs "length xs" s] by (auto simp: strcpy_def cstring_nth)

lemma strchr_loop_spec:
  "cstring p (zs @ ys) \<Longrightarrow>
   strchr_loop p c (length zs) = Some (map_option ((+) (length zs)) (first_idx (\<lambda>x. x = c) ys))"
proof (induction ys arbitrary: zs)
  case Nil
  then have "p (length zs) = 0" by (simp add: cstring_nth pad0_def)
  then show ?case by (subst strchr_loop.simps) simp
next
  case (Cons y ys)
  have p: "p (length zs) = y" "y \<noteq> 0"
    using Cons.prems by (auto simp: cstring_nth pad0_def dest: spec [of _ "length zs"])
  have "strchr_loop p c (length (zs @ [y])) =
      Some (map_option ((+) (length (zs @ [y]))) (first_idx (\<lambda>x. x = c) ys))"
    using Cons.prems by (intro Cons.IH) simp
  with p show ?case
    by (subst strchr_loop.simps) (cases "first_idx (\<lambda>x. x = c) ys"; auto)
qed

lemma strchr_spec: "cstring p xs \<Longrightarrow> strchr p c = Some (first_idx (\<lambda>x. x = c) xs)"
  using strchr_loop_spec [of p "[]" xs c]
  by (cases "first_idx (\<lambda>x. x = c) xs") (simp_all add: strchr_def)

primrec dec_value :: "nat \<Rightarrow> u8 list \<Rightarrow> nat" where
  "dec_value n [] = n"
| "dec_value n (d # ds) = dec_value (n * 10 + (unat d - 48)) ds"

definition is_digit :: "u8 \<Rightarrow> bool" where
  "is_digit c \<longleftrightarrow> 48 \<le> c \<and> c \<le> 57"

lemma atoi_spec:
  assumes "cstring p (ds @ rest)" and "\<forall>d\<in>set ds. is_digit d" and "rest = [] \<or> \<not> is_digit (hd rest)"
  shows "atoi p = Some (of_nat (dec_value 0 ds))"
proof -
  have "atoi_loop p (of_nat n) = Some (of_nat (dec_value n ds))" for n
    using assms
  proof (induction ds arbitrary: p n)
    case Nil
    then show ?case by (cases rest) (auto simp: atoi_loop.simps [of p] is_digit_def)
  next
    case (Cons d ds)
    have d: "d = p 0" "48 \<le> d" "d \<le> 57" using Cons.prems by (auto simp: is_digit_def)
    have v: "of_nat n * 10 + ucast d - 48 = (of_nat (n * 10 + (unat d - 48)) :: u32)"
    proof -
      have "48 \<le> unat d" using d(2) by (simp add: word_le_nat_alt)
      then have "(of_nat (unat d - 48) :: u32) = ucast d - 48" by (simp add: of_nat_diff)
      then show ?thesis by simp
    qed
    moreover have "atoi_loop (adv p) (of_nat (n * 10 + (unat d - 48))) =
        Some (of_nat (dec_value (n * 10 + (unat d - 48)) ds))"
    proof (rule Cons.IH)
      show "cstring (adv p) (ds @ rest)" "\<forall>d\<in>set ds. is_digit d" using Cons.prems by simp_all
    qed (rule Cons.prems(3))
    ultimately show ?case unfolding d(1) using d by (subst atoi_loop.simps) (simp only: d(1) v, simp)
  qed
  from this [of 0] show ?thesis by (simp add: atoi_def)
qed

section \<open>Properties\<close>

text \<open>
  C30. \<^verbatim>\<open>memmove\<close> copies the source block as it was before the call, byte for byte, and changes
  nothing else, whether the blocks are disjoint or overlap in either direction, as long as neither
  block reaches the end of the address space.  \<^verbatim>\<open>memset\<close> fills exactly the block, on its
  word-at-a-time path and on its byte path.
\<close>

theorem memmove_memset_correct:
  assumes "unat src + unat n < 2 ^ 32" and "unat dst + unat n < 2 ^ 32"
  shows "memmove dst src n m = (\<lambda>a. if a - dst < n then m (src + (a - dst)) else m a) \<and>
    memcpy dst src n m = memmove dst src n m \<and>
    memset dst c n m = (\<lambda>a. if a - dst < n then ucast c else m a)"
  using memmove_spec [OF assms] by (simp add: fun_eq_iff memset_spec memcpy_def)

theorem memmove_memset_correct_witness:
  "(let m = (\<lambda>a. ucast a :: u8) in
     map (memmove 102 100 4 m) [100, 101, 102, 103, 104, 105, 106] = [100, 101, 100, 101, 102, 103, 106] \<and>
     map (memmove 100 102 4 m) [100, 101, 102, 103, 104] = [102, 103, 104, 105, 104])"
  using memmove_memset_correct [of 100 4 102 "\<lambda>a. ucast a" 0]
    memmove_memset_correct [of 102 4 100 "\<lambda>a. ucast a" 0]
  by simp

text \<open>
  C31. Fixed-width names: \<^verbatim>\<open>strncpy\<close> into an \<open>n\<close>-byte field followed by \<^verbatim>\<open>strncmp\<close> over
  \<open>n\<close> bytes reports equality exactly for the strings with the same first \<open>n\<close> bytes; the field
  is padded with NUL bytes and nothing beyond it is written.  \<^verbatim>\<open>safestrcpy\<close> always leaves a
  NUL-terminated string in its \<open>n\<close> bytes, the longest prefix that fits.
\<close>

theorem fixed_width_names:
  "(strncmp (nat n) (strncpy s t n) u = 0 \<longleftrightarrow> strn (nat n) t = strn (nat n) u) \<and>
   strncpy s t n = (\<lambda>j. if j < nat n then pad0 (strn (nat n) t) j else s j) \<and>
   (0 < n \<longrightarrow> cstring (safestrcpy s t n) (strn (nat (n - 1)) t) \<and>
      (\<forall>j\<ge>nat n. safestrcpy s t n j = s j))"
  using safestrcpy_spec by (auto simp: strncmp_eq_0 strn_strncpy strncpy_spec fun_eq_iff)

theorem fixed_width_names_witness:
  "cstring (safestrcpy (\<lambda>_. 7) (pad0 [97, 98, 99, 100]) 3) [97, 98] \<and>
   strncmp 2 (strncpy (\<lambda>_. 7) (pad0 [97, 98, 99]) 2) (pad0 [97, 98, 120]) = 0"
proof -
  have n: "nat (3 - 1) = Suc (Suc 0)" "nat 2 = Suc (Suc 0)" "(2 :: nat) = Suc (Suc 0)" by simp_all
  have s: "strn (Suc (Suc 0)) (pad0 [97, 98, 99, 100]) = [97, 98]"
    "strn (Suc (Suc 0)) (pad0 [97, 98, 99]) = strn (Suc (Suc 0)) (pad0 [97, 98, 120])"
    by simp_all
  have "cstring (safestrcpy (\<lambda>_. 7) (pad0 [97, 98, 99, 100]) 3) [97, 98]"
    using fixed_width_names [of 3 "\<lambda>_. 7" "pad0 [97, 98, 99, 100]"] unfolding n s by simp
  moreover have "strncmp 2 (strncpy (\<lambda>_. 7) (pad0 [97, 98, 99]) 2) (pad0 [97, 98, 120]) = 0"
    using fixed_width_names [of 2 "\<lambda>_. 7" "pad0 [97, 98, 99]" "pad0 [97, 98, 120]"] unfolding n s by blast
  ultimately show ?thesis by blast
qed

end
