(* ===== verification/Format.thy ===== *)
theory Format
  imports C_String
begin

text \<open>
  Formatted output: \<^verbatim>\<open>printint\<close> and \<^verbatim>\<open>cprintf\<close> of the kernel (\<^verbatim>\<open>console.c\<close>), and
  \<^verbatim>\<open>printint\<close> and \<^verbatim>\<open>printf\<close> of user programs (\<^verbatim>\<open>printf.c\<close>).

  \<^item> Output is the list of bytes handed to \<^verbatim>\<open>consputc\<close> or \<^verbatim>\<open>putc\<close>, in order.
  \<^item> The variadic arguments are the words that follow \<^verbatim>\<open>fmt\<close> on the stack, a function of
    their position; \<open>mem\<close> gives the bytes at the address of a \<^verbatim>\<open>%s\<close> argument.
  \<^item> Loops end at a NUL byte, so they are partial functions; \<open>None\<close> is "does not return".
\<close>

section \<open>Operations\<close>

definition digits_lower :: "u8 list" where
  "digits_lower = [48, 49, 50, 51, 52, 53, 54, 55, 56, 57, 97, 98, 99, 100, 101, 102]"

definition digits_upper :: "u8 list" where
  "digits_upper = [48, 49, 50, 51, 52, 53, 54, 55, 56, 57, 65, 66, 67, 68, 69, 70]"

text \<open>The \<^verbatim>\<open>do\<close> loop that fills \<^verbatim>\<open>buf\<close>, least significant digit first.\<close>

partial_function (option) printint_loop :: "u8 list \<Rightarrow> u32 \<Rightarrow> u32 \<Rightarrow> u8 list \<Rightarrow> u8 list option" where
  "printint_loop digits base x buf =
     (let buf1 = buf @ [digits ! unat (x mod base)]; x1 = x div base
      in if x1 \<noteq> 0 then printint_loop digits base x1 buf1 else Some buf1)"

text \<open>The second component is \<^verbatim>\<open>buf\<close> as filled, so that its bound can be stated.\<close>

definition printint :: "u32 \<Rightarrow> u32 \<Rightarrow> bool \<Rightarrow> (u8 list \<times> u8 list) option" where
  "printint xx base sign =
     (let neg = (sign \<and> xx <s 0); x = (if neg then - xx else xx)
      in case printint_loop digits_lower base x [] of
           None \<Rightarrow> None
         | Some buf \<Rightarrow> let buf1 = (if neg then buf @ [45] else buf) in Some (rev buf1, buf1))"

definition u_printint :: "u32 \<Rightarrow> u32 \<Rightarrow> bool \<Rightarrow> (u8 list \<times> u8 list) option" where
  "u_printint xx base sgnd =
     (let neg = (sgnd \<and> xx <s 0); x = (if neg then - xx else xx)
      in case printint_loop digits_upper base x [] of
           None \<Rightarrow> None
         | Some buf \<Rightarrow> let buf1 = (if neg then buf @ [45] else buf) in Some (rev buf1, buf1))"

partial_function (option) puts_loop :: "cstr \<Rightarrow> u8 list \<Rightarrow> u8 list option" where
  "puts_loop s out = (if s 0 \<noteq> 0 then puts_loop (adv s) (out @ [s 0]) else Some out)"

definition null_str :: cstr where
  "null_str = pad0 [40, 110, 117, 108, 108, 41]"

definition string_arg :: "(u32 \<Rightarrow> u8) \<Rightarrow> u32 \<Rightarrow> cstr" where
  "string_arg mem a = (if a = 0 then null_str else (\<lambda>i. mem (a + of_nat i)))"

text \<open>The conversion after a percent sign; the result is the next argument and the output.\<close>

definition cprintf_conv ::
  "(u32 \<Rightarrow> u8) \<Rightarrow> (nat \<Rightarrow> u32) \<Rightarrow> u8 \<Rightarrow> nat \<Rightarrow> u8 list \<Rightarrow> (nat \<times> u8 list) option" where
  "cprintf_conv mem arg c k out =
     (if c = 100 then map_option (\<lambda>b. (k + 1, out @ fst b)) (printint (arg k) 10 True)
      else if c = 120 \<or> c = 112 then map_option (\<lambda>b. (k + 1, out @ fst b)) (printint (arg k) 16 False)
      else if c = 115 then map_option (\<lambda>out1. (k + 1, out1)) (puts_loop (string_arg mem (arg k)) out)
      else if c = 37 then Some (k, out @ [37])
      else Some (k, out @ [37, c]))"

partial_function (option) cprintf_loop ::
  "(u32 \<Rightarrow> u8) \<Rightarrow> (nat \<Rightarrow> u32) \<Rightarrow> cstr \<Rightarrow> nat \<Rightarrow> u8 list \<Rightarrow> u8 list option" where
  "cprintf_loop mem arg fmt k out =
     (if fmt 0 = 0 then Some out
      else if fmt 0 \<noteq> 37 then cprintf_loop mem arg (adv fmt) k (out @ [fmt 0])
      else if fmt 1 = 0 then Some out
      else Option.bind (cprintf_conv mem arg (fmt 1) k out)
             (\<lambda>p. cprintf_loop mem arg (adv (adv fmt)) (fst p) (snd p)))"

text \<open>A null format pointer is \<open>None\<close> in the first argument.\<close>

definition cprintf :: "(u32 \<Rightarrow> u8) \<Rightarrow> (nat \<Rightarrow> u32) \<Rightarrow> cstr option \<Rightarrow> u8 list res option" where
  "cprintf mem arg fmt = (case fmt of
      None \<Rightarrow> Some (Panic ''null fmt'')
    | Some f \<Rightarrow> map_option Ret (cprintf_loop mem arg f 0 []))"

text \<open>The conversion after a percent sign; the result is the next argument and the output.\<close>

definition printf_conv ::
  "(u32 \<Rightarrow> u8) \<Rightarrow> (nat \<Rightarrow> u32) \<Rightarrow> u8 \<Rightarrow> nat \<Rightarrow> u8 list \<Rightarrow> (nat \<times> u8 list) option" where
  "printf_conv mem arg c k out =
     (if c = 100 then map_option (\<lambda>b. (k + 1, out @ fst b)) (u_printint (arg k) 10 True)
      else if c = 120 \<or> c = 112 then map_option (\<lambda>b. (k + 1, out @ fst b)) (u_printint (arg k) 16 False)
      else if c = 115 then map_option (\<lambda>out1. (k + 1, out1)) (puts_loop (string_arg mem (arg k)) out)
      else if c = 99 then Some (k + 1, out @ [ucast (arg k)])
      else if c = 37 then Some (k, out @ [c])
      else Some (k, out @ [37, c]))"

partial_function (option) printf_loop ::
  "(u32 \<Rightarrow> u8) \<Rightarrow> (nat \<Rightarrow> u32) \<Rightarrow> bool \<Rightarrow> cstr \<Rightarrow> nat \<Rightarrow> u8 list \<Rightarrow> u8 list option" where
  "printf_loop mem arg state fmt k out =
     (if fmt 0 = 0 then Some out
      else if \<not> state then
        (if fmt 0 = 37 then printf_loop mem arg True (adv fmt) k out
         else printf_loop mem arg False (adv fmt) k (out @ [fmt 0]))
      else Option.bind (printf_conv mem arg (fmt 0) k out)
             (\<lambda>p. printf_loop mem arg False (adv fmt) (fst p) (snd p)))"

definition printf :: "(u32 \<Rightarrow> u8) \<Rightarrow> (nat \<Rightarrow> u32) \<Rightarrow> cstr \<Rightarrow> u8 list option" where
  "printf mem arg fmt = printf_loop mem arg False fmt 0 []"

section \<open>Numbers\<close>

fun nat_digits :: "nat \<Rightarrow> nat \<Rightarrow> nat list" where
  "nat_digits b n = (if b < 2 \<or> n < b then [n] else nat_digits b (n div b) @ [n mod b])"

declare nat_digits.simps [simp del]

lemma nat_digits_bound: "1 < b \<Longrightarrow> d \<in> set (nat_digits b n) \<Longrightarrow> d < b"
proof (induction b n rule: nat_digits.induct)
  case (1 b n)
  then show ?case by (cases "n < b") (auto simp: nat_digits.simps [of b n])
qed

lemma nat_digits_length: "1 < b \<Longrightarrow> n < b ^ Suc k \<Longrightarrow> length (nat_digits b n) \<le> Suc k"
proof (induction k arbitrary: n)
  case (Suc k)
  have "length (nat_digits b (n div b)) \<le> Suc k"
    using Suc.prems by (intro Suc.IH) (simp_all add: less_mult_imp_div_less mult.commute)
  then show ?case by (simp add: nat_digits.simps [of b n])
qed (simp add: nat_digits.simps [of b])

lemma printint_loop_spec:
  assumes "1 < base"
  shows "printint_loop digits base x buf =
    Some (buf @ rev (map ((!) digits) (nat_digits (unat base) (unat x))))"
proof (induction "unat x" arbitrary: x buf rule: less_induct)
  case less
  have b: "1 < unat base" using assms by (simp add: word_less_nat_alt)
  show ?case
  proof (cases "x div base = 0")
    case True
    then have "unat x < unat base"
      using b by (simp add: word_unat_eq_iff unat_div div_eq_0_iff)
    with True b show ?thesis
      by (simp add: printint_loop.simps [of _ _ x] nat_digits.simps [of _ "unat x"] unat_mod)
  next
    case False
    then have ge: "unat base \<le> unat x"
      using b by (simp add: word_unat_eq_iff unat_div div_eq_0_iff)
    have "unat (x div base) < unat x" using b ge by (simp add: unat_div)
    from less [OF this] False b ge show ?thesis
      by (simp add: printint_loop.simps [of _ _ x] nat_digits.simps [of _ "unat x"] unat_mod unat_div Let_def)
  qed
qed

definition show_int :: "u8 list \<Rightarrow> nat \<Rightarrow> bool \<Rightarrow> u32 \<Rightarrow> u8 list" where
  "show_int digits base sign x =
     (let neg = (sign \<and> x <s 0)
      in (if neg then [45] else []) @ map ((!) digits) (nat_digits base (unat (if neg then - x else x))))"

lemma printint_eq:
  "1 < base \<Longrightarrow> printint xx base sign =
     Some (show_int digits_lower (unat base) sign xx, rev (show_int digits_lower (unat base) sign xx))"
  "1 < base \<Longrightarrow> u_printint xx base sign =
     Some (show_int digits_upper (unat base) sign xx, rev (show_int digits_upper (unat base) sign xx))"
  by (simp_all add: printint_def u_printint_def printint_loop_spec show_int_def Let_def)

lemma show_int_length:
  "length (show_int digits 10 sign x) \<le> 11" "length (show_int digits 16 sign x) \<le> 9"
proof -
  have "unat y < 10 ^ Suc 9" for y :: u32
    using unsigned_less [of y, where ?'a = nat] by simp
  then have l10: "length (nat_digits 10 (unat y)) \<le> 10" for y :: u32
    using nat_digits_length [of 10 "unat y" 9] by simp
  show "length (show_int digits 10 sign x) \<le> 11"
    using l10 [of x] l10 [of "- x"] by (auto simp: show_int_def Let_def)
  have "unat y < 16 ^ Suc 7" for y :: u32
    using unsigned_less [of y, where ?'a = nat] by simp
  then have l16: "length (nat_digits 16 (unat y)) \<le> 8" for y :: u32
    using nat_digits_length [of 16 "unat y" 7] by simp
  show "length (show_int digits 16 sign x) \<le> 9"
    using l16 [of x] l16 [of "- x"] by (auto simp: show_int_def Let_def)
qed

lemma dec_value_append: "dec_value n (xs @ ys) = dec_value (dec_value n xs) ys"
  by (induction xs arbitrary: n) auto

lemma digits_decimal:
  assumes "digits = digits_lower \<or> digits = digits_upper" and "d < 10"
  shows "digits ! d = of_nat (48 + d)"
proof -
  have "d = 0 \<or> d = 1 \<or> d = 2 \<or> d = 3 \<or> d = 4 \<or> d = 5 \<or> d = 6 \<or> d = 7 \<or> d = 8 \<or> d = 9"
    using assms(2) by arith
  with assms(1) show ?thesis by (elim disjE) (simp_all add: digits_lower_def digits_upper_def)
qed

lemma digits_decimal_digit:
  assumes "digits = digits_lower \<or> digits = digits_upper" and "d < 10"
  shows "is_digit (digits ! d)" "unat (digits ! d) - 48 = d"
proof -
  have "unat (of_nat (48 + d) :: u8) = 48 + d"
    using assms(2) by (simp add: unat_of_nat take_bit_eq_mod del: of_nat_add)
  then show "is_digit (digits ! d)" "unat (digits ! d) - 48 = d"
    using assms by (simp_all add: digits_decimal is_digit_def word_le_nat_alt del: of_nat_add)
qed

lemma dec_value_digits:
  assumes "digits = digits_lower \<or> digits = digits_upper"
  shows "dec_value 0 (map ((!) digits) (nat_digits 10 n)) = n"
proof (induction "10 :: nat" n rule: nat_digits.induct)
  case (1 n)
  show ?case
  proof (cases "n < 10")
    case True
    then show ?thesis using digits_decimal_digit [OF assms True] by (simp add: nat_digits.simps [of 10 n])
  next
    case False
    have "n mod 10 < 10" by simp
    from 1 False digits_decimal_digit(2) [OF assms this] show ?thesis
      by (simp add: nat_digits.simps [of 10 n] dec_value_append)
  qed
qed

section \<open>Format strings\<close>

definition render_conv ::
  "u8 list \<Rightarrow> bool \<Rightarrow> (nat \<Rightarrow> u8 list) \<Rightarrow> (nat \<Rightarrow> u32) \<Rightarrow> u8 \<Rightarrow> nat \<Rightarrow> nat \<times> u8 list" where
  "render_conv digits chr str arg d k =
     (if d = 100 then (k + 1, show_int digits 10 True (arg k))
      else if d = 120 \<or> d = 112 then (k + 1, show_int digits 16 False (arg k))
      else if d = 115 then (k + 1, str k)
      else if chr \<and> d = 99 then (k + 1, [ucast (arg k)])
      else if d = 37 then (k, [37])
      else (k, [37, d]))"

fun render :: "u8 list \<Rightarrow> bool \<Rightarrow> (nat \<Rightarrow> u8 list) \<Rightarrow> (nat \<Rightarrow> u32) \<Rightarrow> u8 list \<Rightarrow> nat \<Rightarrow> u8 list" where
  "render digits chr str arg [] k = []"
| "render digits chr str arg (c # fs) k =
     (if c \<noteq> 37 then c # render digits chr str arg fs k
      else case fs of
             [] \<Rightarrow> []
           | d # fs1 \<Rightarrow> (let r = render_conv digits chr str arg d k
                        in snd r @ render digits chr str arg fs1 (fst r)))"

lemma puts_loop_spec: "cstring s xs \<Longrightarrow> puts_loop s out = Some (out @ xs)"
proof (induction xs arbitrary: s out)
  case (Cons x xs)
  have "puts_loop (adv s) (out @ [x]) = Some ((out @ [x]) @ xs)"
    using Cons.prems by (intro Cons.IH) (simp del: adv_app)
  with Cons.prems show ?case by (subst puts_loop.simps) simp
qed (simp add: puts_loop.simps)

lemma conv_spec:
  assumes "\<And>k. cstring (string_arg mem (arg k)) (str k)"
  shows "cprintf_conv mem arg d k out =
      Some (let r = render_conv digits_lower False str arg d k in (fst r, out @ snd r))"
    and "printf_conv mem arg d k out =
      Some (let r = render_conv digits_upper True str arg d k in (fst r, out @ snd r))"
  using puts_loop_spec [OF assms]
  by (simp_all add: cprintf_conv_def printf_conv_def render_conv_def printint_eq word_less_nat_alt)

lemma cprintf_loop_spec:
  assumes "\<And>k. cstring (string_arg mem (arg k)) (str k)"
  shows "cstring fmt fs \<Longrightarrow>
    cprintf_loop mem arg fmt k out = Some (out @ render digits_lower False str arg fs k)"
proof (induction "length fs" arbitrary: fs fmt k out rule: less_induct)
  case less
  note conv = conv_spec(1) [OF assms]
  show ?case
  proof (cases fs)
    case Nil
    with less.prems show ?thesis by (subst cprintf_loop.simps) simp
  next
    case (Cons c gs)
    have IH1: "cprintf_loop mem arg (adv fmt) k out = Some (out @ render digits_lower False str arg gs k)" for k out
      using less.prems Cons by (intro less.hyps) (simp_all del: adv_app)
    show ?thesis
    proof (cases "c = 37")
      case False
      then show ?thesis using IH1 less.prems Cons by (subst cprintf_loop.simps) simp
    next
      case pc: True
      show ?thesis
      proof (cases gs)
        case Nil
        then show ?thesis using pc less.prems Cons by (subst cprintf_loop.simps) simp
      next
        case (Cons d hs)
        have "cprintf_loop mem arg (adv (adv fmt)) k out = Some (out @ render digits_lower False str arg hs k)" for k out
          using less.prems Cons \<open>fs = c # gs\<close> by (intro less.hyps) (simp_all del: adv_app)
        then show ?thesis using pc less.prems Cons \<open>fs = c # gs\<close>
          by (subst cprintf_loop.simps) (simp add: conv Let_def)
      qed
    qed
  qed
qed

lemma printf_loop_spec:
  assumes "\<And>k. cstring (string_arg mem (arg k)) (str k)"
  shows "cstring fmt fs \<Longrightarrow>
    printf_loop mem arg False fmt k out = Some (out @ render digits_upper True str arg fs k)"
proof (induction "length fs" arbitrary: fs fmt k out rule: less_induct)
  case less
  note conv = conv_spec(2) [OF assms]
  show ?case
  proof (cases fs)
    case Nil
    with less.prems show ?thesis by (subst printf_loop.simps) simp
  next
    case (Cons c gs)
    have IH1: "printf_loop mem arg False (adv fmt) k out = Some (out @ render digits_upper True str arg gs k)" for k out
      using less.prems Cons by (intro less.hyps) (simp_all del: adv_app)
    show ?thesis
    proof (cases "c = 37")
      case False
      then show ?thesis using IH1 less.prems Cons by (subst printf_loop.simps) simp
    next
      case pc: True
      show ?thesis
      proof (cases gs)
        case Nil
        then show ?thesis using pc less.prems Cons
          by (subst printf_loop.simps; subst printf_loop.simps) simp
      next
        case (Cons d hs)
        have "printf_loop mem arg False (adv (adv fmt)) k out = Some (out @ render digits_upper True str arg hs k)" for k out
          using less.prems Cons \<open>fs = c # gs\<close> by (intro less.hyps) (simp_all del: adv_app)
        then show ?thesis using pc less.prems Cons \<open>fs = c # gs\<close>
          by (subst printf_loop.simps; subst printf_loop.simps) (simp add: conv Let_def)
      qed
    qed
  qed
qed

section \<open>Properties\<close>


definition ex_mem :: "u32 \<Rightarrow> u8" where
  "ex_mem a = (if a = 8 then 104 else if a = 9 then 105 else 0)"

definition ex_arg :: "nat \<Rightarrow> u32" where
  "ex_arg k = (if k = 0 then -12 else if k = 1 then 8 else if k = 2 then 255 else 0)"


text \<open>
  C33. Decimal printing and \<^verbatim>\<open>atoi\<close> are inverse: printing any non-negative \<^verbatim>\<open>int\<close> with
  \<^verbatim>\<open>%d\<close>, in the kernel or in a user program, returns, and \<^verbatim>\<open>atoi\<close> of the text is the
  number.  The 16-byte buffer never overflows, in either base and for either sign.
\<close>

theorem printint_atoi:
  shows "(0 \<le>s x \<longrightarrow> (\<exists>out buf. printint x 10 True = Some (out, buf) \<and> atoi (pad0 out) = Some x) \<and>
      (\<exists>out buf. u_printint x 10 True = Some (out, buf) \<and> atoi (pad0 out) = Some x)) \<and>
    (\<exists>out buf. printint x 10 sign = Some (out, buf) \<and> length buf \<le> 16) \<and>
    (\<exists>out buf. printint x 16 sign = Some (out, buf) \<and> length buf \<le> 16) \<and>
    (\<exists>out buf. u_printint x 10 sign = Some (out, buf) \<and> length buf \<le> 16) \<and>
    (\<exists>out buf. u_printint x 16 sign = Some (out, buf) \<and> length buf \<le> 16)"
proof -
  have at: "atoi (pad0 (show_int digits 10 True x)) = Some x"
    if "0 \<le>s x" "digits = digits_lower \<or> digits = digits_upper" for digits
  proof -
    have s: "show_int digits 10 True x = map ((!) digits) (nat_digits 10 (unat x))"
      using that(1) by (simp add: show_int_def word_sless_alt word_sle_eq)
    have dg: "\<forall>d\<in>set (show_int digits 10 True x). is_digit d"
      using digits_decimal_digit(1) [OF that(2)] nat_digits_bound [of 10] by (auto simp: s)
    then have "0 \<notin> set (show_int digits 10 True x)" by (auto simp: is_digit_def)
    then have "cstring (pad0 (show_int digits 10 True x)) (show_int digits 10 True x @ [])"
      by (simp add: cstring_pad0)
    from atoi_spec [OF this dg] show ?thesis by (simp add: s dec_value_digits [OF that(2)])
  qed
  have b: "length (show_int digits 10 sign x) \<le> 16" "length (show_int digits 16 sign x) \<le> 16" for digits sign
    using show_int_length [of digits sign x] by simp_all
  show ?thesis
    using at b by (simp add: printint_eq word_less_nat_alt)
qed

theorem printint_atoi_witness:
  "\<exists>out buf. printint 1000 10 True = Some (out, buf) \<and> atoi (pad0 out) = Some 1000"
  using printint_atoi [of 1000] by (simp add: word_sle_eq)

end
