(* ===== verification/Locking.thy ===== *)
theory Locking
  imports Kernel_Prelude
begin

text \<open>
  Spin locks with their interrupt nesting (\<^verbatim>\<open>spinlock.c\<close>, \<^verbatim>\<open>mycpu\<close> of \<^verbatim>\<open>proc.c\<close>) and
  sleep locks (\<^verbatim>\<open>sleeplock.c\<close>).

  \<^item> Every operation has as argument the APIC id of the processor that runs it.  \<^verbatim>\<open>cpus[]\<close>
    is a list; a \<^verbatim>\<open>struct cpu\<close> pointer is an index into it.
  \<^item> \<^verbatim>\<open>acquire\<close> and \<^verbatim>\<open>release\<close> are cut where another processor can come in between: the
    test, each \<^verbatim>\<open>xchg\<close>, the store of \<^verbatim>\<open>lk->cpu\<close>, the \<^verbatim>\<open>movl\<close> and \<^verbatim>\<open>popcli\<close> are single
    steps of \<open>lock_step\<close>, which interleaves any number of processors and locks.
  \<^item> A sleep lock is protected by its spin lock, so its operations are atomic; \<open>slock_step\<close>
    interleaves processes that acquire, sleep, wake up and release.
  \<^item> The recorded call stack (\<^verbatim>\<open>getcallerpcs\<close>) and the lock names serve debugging only and
    are left out.
\<close>

section \<open>State\<close>

record cpu =
  apicid :: u32
  ncli :: int
  intena :: bool

record spinlock =
  lk_locked :: bool
  lk_cpu :: "nat option"

record mach =
  cpus :: "cpu list"
  eflags_if :: "u32 \<Rightarrow> bool"
  locks :: "nat \<Rightarrow> spinlock"

definition upd_cpu :: "nat \<Rightarrow> (cpu \<Rightarrow> cpu) \<Rightarrow> mach \<Rightarrow> mach" where
  "upd_cpu i f s = s\<lparr>cpus := (cpus s)[i := f (cpus s ! i)]\<rparr>"

definition upd_lock :: "nat \<Rightarrow> (spinlock \<Rightarrow> spinlock) \<Rightarrow> mach \<Rightarrow> mach" where
  "upd_lock l f s = s\<lparr>locks := (locks s)(l := f (locks s l))\<rparr>"

definition set_if :: "u32 \<Rightarrow> bool \<Rightarrow> mach \<Rightarrow> mach" where
  "set_if a b s = s\<lparr>eflags_if := (eflags_if s)(a := b)\<rparr>"

section \<open>Operations\<close>

definition initlock :: "nat \<Rightarrow> (mach, unit) kop" where
  "initlock l = kmod (upd_lock l (\<lambda>_. \<lparr>lk_locked = False, lk_cpu = None\<rparr>))"

definition mycpu :: "u32 \<Rightarrow> (mach, nat) kop" where
  "mycpu a = (\<lambda>s.
     if eflags_if s a then (Panic ''mycpu called with interrupts enabled'', s)
     else case first_idx (\<lambda>c. apicid c = a) (cpus s) of
            Some i \<Rightarrow> (Ret i, s)
          | None \<Rightarrow> (Panic ''unknown apicid'', s))"

definition pushcli :: "u32 \<Rightarrow> (mach, unit) kop" where
  "pushcli a =
     kbind (kget (\<lambda>s. eflags_if s a)) (\<lambda>eflags.
     kseq (kmod (set_if a False)) (
     kbind (mycpu a) (\<lambda>i.
     kmod (upd_cpu i (\<lambda>c. (if ncli c = 0 then c\<lparr>intena := eflags\<rparr> else c)\<lparr>ncli := ncli c + 1\<rparr>)))))"

definition popcli :: "u32 \<Rightarrow> (mach, unit) kop" where
  "popcli a = (\<lambda>s.
     if eflags_if s a then (Panic ''popcli - interruptible'', s)
     else kbind (mycpu a) (\<lambda>i.
          kseq (kmod (upd_cpu i (\<lambda>c. c\<lparr>ncli := ncli c - 1\<rparr>)))
            (\<lambda>t. let c = cpus t ! i in
               if ncli c < 0 then (Panic ''popcli'', t)
               else if ncli c = 0 \<and> intena c then (Ret (), set_if a True t)
               else (Ret (), t))) s)"

definition holding :: "u32 \<Rightarrow> nat \<Rightarrow> (mach, bool) kop" where
  "holding a l =
     kseq (pushcli a) (
     kbind (mycpu a) (\<lambda>i.
     kbind (kget (\<lambda>s. lk_locked (locks s l) \<and> lk_cpu (locks s l) = Some i)) (\<lambda>r.
     kseq (popcli a) (kret r))))"

definition acquire_enter :: "u32 \<Rightarrow> nat \<Rightarrow> (mach, unit) kop" where
  "acquire_enter a l =
     kseq (pushcli a) (kbind (holding a l) (\<lambda>h. if h then panic ''acquire'' else kret ()))"

definition acquire_xchg :: "nat \<Rightarrow> (mach, bool) kop" where
  "acquire_xchg l = (\<lambda>s. (Ret (lk_locked (locks s l)), upd_lock l (\<lambda>k. k\<lparr>lk_locked := True\<rparr>) s))"

definition acquire_finish :: "u32 \<Rightarrow> nat \<Rightarrow> (mach, unit) kop" where
  "acquire_finish a l = kbind (mycpu a) (\<lambda>i. kmod (upd_lock l (\<lambda>k. k\<lparr>lk_cpu := Some i\<rparr>)))"

definition release_start :: "u32 \<Rightarrow> nat \<Rightarrow> (mach, unit) kop" where
  "release_start a l =
     kbind (holding a l) (\<lambda>h. if \<not> h then panic ''release''
                             else kmod (upd_lock l (\<lambda>k. k\<lparr>lk_cpu := None\<rparr>)))"

definition release_movl :: "nat \<Rightarrow> (mach, unit) kop" where
  "release_movl l = kmod (upd_lock l (\<lambda>k. k\<lparr>lk_locked := False\<rparr>))"

text \<open>The uncontended case, in which the first \<^verbatim>\<open>xchg\<close> succeeds.\<close>

definition acquire_free :: "u32 \<Rightarrow> nat \<Rightarrow> (mach, bool) kop" where
  "acquire_free a l = kseq (acquire_enter a l) (kbind (acquire_xchg l) (\<lambda>busy.
     kseq (acquire_finish a l) (kret busy)))"

definition release :: "u32 \<Rightarrow> nat \<Rightarrow> (mach, unit) kop" where
  "release a l = kseq (release_start a l) (kseq (release_movl l) (popcli a))"

section \<open>What each step does\<close>

definition cpu_of :: "mach \<Rightarrow> u32 \<Rightarrow> nat option" where
  "cpu_of s a = first_idx (\<lambda>c. apicid c = a) (cpus s)"

definition the_cpu :: "mach \<Rightarrow> u32 \<Rightarrow> cpu" where
  "the_cpu s a = cpus s ! the (cpu_of s a)"

text \<open>Interrupts are off whenever the nesting count is positive.\<close>

definition nest_ok :: "mach \<Rightarrow> u32 \<Rightarrow> bool" where
  "nest_ok s a \<longleftrightarrow> cpu_of s a \<noteq> None \<and> 0 \<le> ncli (the_cpu s a) \<and>
     (0 < ncli (the_cpu s a) \<longrightarrow> \<not> eflags_if s a)"

lemma upd_cpu_simps [simp]:
  "eflags_if (upd_cpu i f s) = eflags_if s" "locks (upd_cpu i f s) = locks s"
  "length (cpus (upd_cpu i f s)) = length (cpus s)"
  by (simp_all add: upd_cpu_def)

lemma upd_lock_simps [simp]:
  "eflags_if (upd_lock l g s) = eflags_if s" "cpus (upd_lock l g s) = cpus s"
  "cpu_of (upd_lock l g s) = cpu_of s" "the_cpu (upd_lock l g s) = the_cpu s"
  "locks (upd_lock l g s) = (locks s)(l := g (locks s l))"
  by (simp_all add: upd_lock_def cpu_of_def the_cpu_def fun_eq_iff)

lemma set_if_simps [simp]:
  "locks (set_if a b s) = locks s" "cpus (set_if a b s) = cpus s" "eflags_if (set_if a b s) = (eflags_if s)(a := b)"
  "cpu_of (set_if a b s) = cpu_of s" "the_cpu (set_if a b s) = the_cpu s"
  by (simp_all add: set_if_def cpu_of_def the_cpu_def fun_eq_iff)

lemma cpu_of_bound: "cpu_of s a = Some i \<Longrightarrow> i < length (cpus s) \<and> apicid (cpus s ! i) = a"
  by (auto simp: cpu_of_def dest: first_idx_SomeD)

lemma cpu_of_inj: "cpu_of s a = Some i \<Longrightarrow> cpu_of s b = Some i \<Longrightarrow> a = b"
  using cpu_of_bound by blast

lemma cpu_of_upd:
  assumes "\<And>c. apicid (f c) = apicid c"
  shows "cpu_of (upd_cpu i f s) = cpu_of s"
proof -
  have "map apicid ((cpus s)[i := f (cpus s ! i)]) = map apicid (cpus s)"
    by (simp add: map_update assms) (metis list_update_id map_update)
  moreover have fm: "first_idx (\<lambda>c. apicid c = a) cs = first_idx (\<lambda>x. x = a) (map apicid cs)" for a and cs :: "cpu list"
    by (induction cs) auto
  ultimately show ?thesis unfolding cpu_of_def upd_cpu_def fm by simp
qed

lemma the_cpu_upd:
  assumes "\<And>c. apicid (f c) = apicid c" and "cpu_of s a = Some i" and "cpu_of s b \<noteq> None"
  shows "the_cpu (upd_cpu i f s) b = (if b = a then f (the_cpu s a) else the_cpu s b)"
proof -
  obtain j where j: "cpu_of s b = Some j" using assms(3) by blast
  have c: "cpu_of (upd_cpu i f s) = cpu_of s" using assms(1) by (rule cpu_of_upd)
  have i: "i < length (cpus s)" using cpu_of_bound [OF assms(2)] by simp
  show ?thesis
  proof (cases "b = a")
    case True
    then show ?thesis using c i assms(2) by (simp add: the_cpu_def) (simp add: upd_cpu_def)
  next
    case False
    then have "i \<noteq> j" using cpu_of_inj [OF assms(2)] j by auto
    with False c j show ?thesis by (simp add: the_cpu_def) (simp add: upd_cpu_def)
  qed
qed

lemma pushcli_spec:
  assumes "nest_ok s a"
  shows "\<exists>t. pushcli a s = (Ret (), t) \<and> locks t = locks s \<and> cpu_of t = cpu_of s \<and>
    eflags_if t = (eflags_if s)(a := False) \<and> length (cpus t) = length (cpus s) \<and>
    (\<forall>b. cpu_of s b \<noteq> None \<longrightarrow> the_cpu t b =
      (if b = a then (the_cpu s a)\<lparr>intena := (if ncli (the_cpu s a) = 0 then eflags_if s a else intena (the_cpu s a)),
                                  ncli := ncli (the_cpu s a) + 1\<rparr> else the_cpu s b))"
proof -
  obtain i where i: "cpu_of s a = Some i" using assms by (auto simp: nest_ok_def)
  let ?f = "\<lambda>c. (if ncli c = 0 then c\<lparr>intena := eflags_if s a\<rparr> else c)\<lparr>ncli := ncli c + 1\<rparr>"
  let ?t = "upd_cpu i ?f (set_if a False s)"
  have "pushcli a s = (Ret (), ?t)"
    using i by (simp add: pushcli_def kop_defs mycpu_def cpu_of_def)
  moreover have "cpu_of ?t = cpu_of s" by (simp add: cpu_of_upd)
  moreover have "the_cpu ?t b = (if b = a then ?f (the_cpu s a) else the_cpu s b)" if "cpu_of s b \<noteq> None" for b
    using the_cpu_upd [of ?f "set_if a False s" a i b] i that by simp
  ultimately show ?thesis by (intro exI [of _ ?t]) auto
qed

lemma popcli_spec:
  assumes "nest_ok s a" and "0 < ncli (the_cpu s a)"
  shows "\<exists>t. popcli a s = (Ret (), t) \<and> locks t = locks s \<and> cpu_of t = cpu_of s \<and>
    eflags_if t = (eflags_if s)(a := (ncli (the_cpu s a) = 1 \<and> intena (the_cpu s a))) \<and>
    length (cpus t) = length (cpus s) \<and>
    (\<forall>b. cpu_of s b \<noteq> None \<longrightarrow> the_cpu t b =
      (if b = a then (the_cpu s a)\<lparr>ncli := ncli (the_cpu s a) - 1\<rparr> else the_cpu s b))"
proof -
  obtain i where i: "cpu_of s a = Some i" using assms by (auto simp: nest_ok_def)
  have off: "\<not> eflags_if s a" using assms by (simp add: nest_ok_def)
  let ?f = "\<lambda>c. c\<lparr>ncli := ncli c - 1\<rparr>"
  let ?u = "upd_cpu i ?f s"
  have c: "cpu_of ?u = cpu_of s" by (simp add: cpu_of_upd)
  have u: "the_cpu ?u b = (if b = a then ?f (the_cpu s a) else the_cpu s b)" if "cpu_of s b \<noteq> None" for b
    using the_cpu_upd [of ?f s a i b] i that by simp
  have ci: "cpus ?u ! i = ?f (the_cpu s a)" using u [of a] c i by (simp add: the_cpu_def)
  let ?t = "if ncli (the_cpu s a) = 1 \<and> intena (the_cpu s a) then set_if a True ?u else ?u"
  have "popcli a s = (Ret (), ?t)"
    using i off ci assms(2) by (simp add: popcli_def kop_defs mycpu_def cpu_of_def Let_def)
  moreover have "eflags_if ?t = (eflags_if s)(a := (ncli (the_cpu s a) = 1 \<and> intena (the_cpu s a)))"
    using off by (auto simp: fun_eq_iff)
  ultimately show ?thesis
    using c u by (cases "ncli (the_cpu s a) = 1 \<and> intena (the_cpu s a)") (intro exI [of _ ?t]; auto)+
qed

lemma holding_spec:
  assumes "nest_ok s a"
  shows "\<exists>t. holding a l s = (Ret (lk_locked (locks s l) \<and> lk_cpu (locks s l) = cpu_of s a), t) \<and>
    locks t = locks s \<and> cpu_of t = cpu_of s \<and> eflags_if t = eflags_if s \<and> length (cpus t) = length (cpus s) \<and>
    (\<forall>b. cpu_of s b \<noteq> None \<longrightarrow> ncli (the_cpu t b) = ncli (the_cpu s b)) \<and>
    (0 < ncli (the_cpu s a) \<longrightarrow> intena (the_cpu t a) = intena (the_cpu s a))"
proof -
  obtain i where i: "cpu_of s a = Some i" using assms by (auto simp: nest_ok_def)
  obtain u where u: "pushcli a s = (Ret (), u)" "locks u = locks s" "cpu_of u = cpu_of s"
      "eflags_if u = (eflags_if s)(a := False)" "length (cpus u) = length (cpus s)"
      "\<forall>b. cpu_of s b \<noteq> None \<longrightarrow> the_cpu u b =
        (if b = a then (the_cpu s a)\<lparr>intena := (if ncli (the_cpu s a) = 0 then eflags_if s a else intena (the_cpu s a)),
            ncli := ncli (the_cpu s a) + 1\<rparr> else the_cpu s b)"
    using pushcli_spec [OF assms] by blast
  have ua: "the_cpu u a = (the_cpu s a)\<lparr>intena := (if ncli (the_cpu s a) = 0 then eflags_if s a else intena (the_cpu s a)),
            ncli := ncli (the_cpu s a) + 1\<rparr>" using u(6) i by simp
  have nu: "nest_ok u a" "0 < ncli (the_cpu u a)"
    using assms u(3,4) ua by (auto simp: nest_ok_def)
  obtain t where t: "popcli a u = (Ret (), t)" "locks t = locks u" "cpu_of t = cpu_of u"
      "eflags_if t = (eflags_if u)(a := (ncli (the_cpu u a) = 1 \<and> intena (the_cpu u a)))"
      "length (cpus t) = length (cpus u)"
      "\<forall>b. cpu_of u b \<noteq> None \<longrightarrow> the_cpu t b =
        (if b = a then (the_cpu u a)\<lparr>ncli := ncli (the_cpu u a) - 1\<rparr> else the_cpu u b)"
    using popcli_spec [OF nu] by blast
  have "mycpu a u = (Ret i, u)" using u(3,4) i by (simp add: mycpu_def cpu_of_def [symmetric])
  then have "holding a l s = (Ret (lk_locked (locks s l) \<and> lk_cpu (locks s l) = cpu_of s a), t)"
    using u(1,2) t(1) i by (simp add: holding_def kop_defs)
  moreover have "eflags_if t = eflags_if s"
    using t(4) u(4) ua assms by (auto simp: fun_eq_iff nest_ok_def)
  moreover have "\<forall>b. cpu_of s b \<noteq> None \<longrightarrow> ncli (the_cpu t b) = ncli (the_cpu s b)"
    using t(6) u(3,6) by auto
  moreover have "0 < ncli (the_cpu s a) \<longrightarrow> intena (the_cpu t a) = intena (the_cpu s a)"
    using t(6) u(3) ua i by auto
  ultimately show ?thesis using t u by auto
qed

lemma acquire_enter_spec:
  assumes "nest_ok s a"
  shows "\<exists>t. acquire_enter a l s =
      ((if lk_locked (locks s l) \<and> lk_cpu (locks s l) = cpu_of s a then Panic ''acquire'' else Ret ()), t) \<and>
    locks t = locks s \<and> cpu_of t = cpu_of s \<and> eflags_if t = (eflags_if s)(a := False) \<and>
    (\<forall>b. cpu_of s b \<noteq> None \<longrightarrow>
      ncli (the_cpu t b) = (if b = a then ncli (the_cpu s b) + 1 else ncli (the_cpu s b))) \<and>
    intena (the_cpu t a) = (if ncli (the_cpu s a) = 0 then eflags_if s a else intena (the_cpu s a))"
proof -
  obtain i where i: "cpu_of s a = Some i" using assms by (auto simp: nest_ok_def)
  obtain u where u: "pushcli a s = (Ret (), u)" "locks u = locks s" "cpu_of u = cpu_of s"
      "eflags_if u = (eflags_if s)(a := False)"
      "\<forall>b. cpu_of s b \<noteq> None \<longrightarrow> the_cpu u b =
        (if b = a then (the_cpu s a)\<lparr>intena := (if ncli (the_cpu s a) = 0 then eflags_if s a else intena (the_cpu s a)),
            ncli := ncli (the_cpu s a) + 1\<rparr> else the_cpu s b)"
    using pushcli_spec [OF assms] by blast
  have n: "nest_ok u a" "0 < ncli (the_cpu u a)" using assms u i by (auto simp: nest_ok_def)
  from holding_spec [OF n(1), of l] n(2) u i show ?thesis
    by (auto simp: acquire_enter_def kop_defs)
qed

lemma release_start_spec:
  assumes "nest_ok s a"
  shows "\<exists>t. release_start a l s =
      (if lk_locked (locks s l) \<and> lk_cpu (locks s l) = cpu_of s a
       then (Ret (), upd_lock l (\<lambda>k. k\<lparr>lk_cpu := None\<rparr>) t) else (Panic ''release'', t)) \<and>
    locks t = locks s \<and> cpu_of t = cpu_of s \<and> eflags_if t = eflags_if s \<and>
    (\<forall>b. cpu_of s b \<noteq> None \<longrightarrow> ncli (the_cpu t b) = ncli (the_cpu s b)) \<and>
    (0 < ncli (the_cpu s a) \<longrightarrow> intena (the_cpu t a) = intena (the_cpu s a))"
  using holding_spec [OF assms, of l] by (auto simp: release_start_def kop_defs)

section \<open>Interleaving of processors\<close>

datatype lpc = Run | Spinning nat | Setting nat | Releasing nat | Popping

text \<open>\<open>ls_own\<close> records which processor's \<^verbatim>\<open>xchg\<close> last found the lock free.\<close>

record lsys =
  ls_m :: mach
  ls_pc :: "u32 \<Rightarrow> lpc"
  ls_own :: "nat \<rightharpoonup> u32"

inductive lock_step :: "lsys \<Rightarrow> lsys \<Rightarrow> bool" where
  ls_enter: "ls_pc y a = Run \<Longrightarrow> cpu_of (ls_m y) a \<noteq> None \<Longrightarrow> acquire_enter a l (ls_m y) = (Ret (), t) \<Longrightarrow>
    lock_step y (y\<lparr>ls_m := t, ls_pc := (ls_pc y)(a := Spinning l)\<rparr>)"
| ls_busy: "ls_pc y a = Spinning l \<Longrightarrow> acquire_xchg l (ls_m y) = (Ret True, t) \<Longrightarrow>
    lock_step y (y\<lparr>ls_m := t\<rparr>)"
| ls_free: "ls_pc y a = Spinning l \<Longrightarrow> acquire_xchg l (ls_m y) = (Ret False, t) \<Longrightarrow>
    lock_step y (y\<lparr>ls_m := t, ls_pc := (ls_pc y)(a := Setting l), ls_own := (ls_own y)(l \<mapsto> a)\<rparr>)"
| ls_finish: "ls_pc y a = Setting l \<Longrightarrow> acquire_finish a l (ls_m y) = (Ret (), t) \<Longrightarrow>
    lock_step y (y\<lparr>ls_m := t, ls_pc := (ls_pc y)(a := Run)\<rparr>)"
| ls_start: "ls_pc y a = Run \<Longrightarrow> cpu_of (ls_m y) a \<noteq> None \<Longrightarrow> release_start a l (ls_m y) = (Ret (), t) \<Longrightarrow>
    lock_step y (y\<lparr>ls_m := t, ls_pc := (ls_pc y)(a := Releasing l)\<rparr>)"
| ls_movl: "ls_pc y a = Releasing l \<Longrightarrow> release_movl l (ls_m y) = (Ret (), t) \<Longrightarrow>
    lock_step y (y\<lparr>ls_m := t, ls_pc := (ls_pc y)(a := Popping), ls_own := (ls_own y)(l := None)\<rparr>)"
| ls_pop: "ls_pc y a = Popping \<Longrightarrow> popcli a (ls_m y) = (Ret (), t) \<Longrightarrow>
    lock_step y (y\<lparr>ls_m := t, ls_pc := (ls_pc y)(a := Run)\<rparr>)"
| ls_irq: "ls_pc y a = Run \<Longrightarrow> cpu_of (ls_m y) a \<noteq> None \<Longrightarrow> ncli (the_cpu (ls_m y) a) = 0 \<Longrightarrow>
    lock_step y (y\<lparr>ls_m := set_if a b (ls_m y)\<rparr>)"

definition lock_start :: "lsys \<Rightarrow> bool" where
  "lock_start y \<longleftrightarrow> (\<forall>a. ls_pc y a = Run) \<and> ls_own y = Map.empty \<and>
     (\<forall>l. locks (ls_m y) l = \<lparr>lk_locked = False, lk_cpu = None\<rparr>) \<and>
     (\<forall>a. cpu_of (ls_m y) a \<noteq> None \<longrightarrow> ncli (the_cpu (ls_m y) a) = 0)"

primrec pend :: "lpc \<Rightarrow> nat" where
  "pend Run = 0" | "pend (Spinning l) = 1" | "pend (Setting l) = 0" | "pend (Releasing l) = 0" | "pend Popping = 1"

definition owned :: "lsys \<Rightarrow> u32 \<Rightarrow> nat set" where
  "owned y a = {l. ls_own y l = Some a}"

definition lock_inv :: "lsys \<Rightarrow> bool" where
  "lock_inv y \<longleftrightarrow>
     (\<forall>a. ls_pc y a \<noteq> Run \<longrightarrow> cpu_of (ls_m y) a \<noteq> None) \<and>
     (\<forall>l. lk_locked (locks (ls_m y) l) \<longleftrightarrow> ls_own y l \<noteq> None) \<and>
     (\<forall>l i. lk_cpu (locks (ls_m y) l) = Some i \<longrightarrow>
        (\<exists>a. ls_own y l = Some a \<and> cpu_of (ls_m y) a = Some i)) \<and>
     (\<forall>a l. ls_pc y a = Setting l \<or> ls_pc y a = Releasing l \<longrightarrow> ls_own y l = Some a \<and> lk_cpu (locks (ls_m y) l) = None) \<and>
     (\<forall>l a. ls_own y l = Some a \<longrightarrow> cpu_of (ls_m y) a \<noteq> None) \<and>
     (\<forall>a. cpu_of (ls_m y) a \<noteq> None \<longrightarrow> nest_ok (ls_m y) a \<and> finite (owned y a) \<and>
        ncli (the_cpu (ls_m y) a) = int (card (owned y a) + pend (ls_pc y a)))"

lemma lock_invI:
  assumes "\<And>a. ls_pc y a \<noteq> Run \<Longrightarrow> cpu_of (ls_m y) a \<noteq> None"
    and "\<And>l. lk_locked (locks (ls_m y) l) \<longleftrightarrow> ls_own y l \<noteq> None"
    and "\<And>l i. lk_cpu (locks (ls_m y) l) = Some i \<Longrightarrow>
        (\<exists>a. ls_own y l = Some a \<and> cpu_of (ls_m y) a = Some i)"
    and "\<And>a l. ls_pc y a = Setting l \<or> ls_pc y a = Releasing l \<Longrightarrow> ls_own y l = Some a"
    and "\<And>l a. ls_own y l = Some a \<Longrightarrow> cpu_of (ls_m y) a \<noteq> None"
    and "\<And>a. cpu_of (ls_m y) a \<noteq> None \<Longrightarrow> finite (owned y a)"
    and "\<And>a. cpu_of (ls_m y) a \<noteq> None \<Longrightarrow> ncli (the_cpu (ls_m y) a) = int (card (owned y a) + pend (ls_pc y a))"
    and "\<And>a. cpu_of (ls_m y) a \<noteq> None \<Longrightarrow> 0 < ncli (the_cpu (ls_m y) a) \<Longrightarrow> \<not> eflags_if (ls_m y) a"
    and "\<And>a l. ls_pc y a = Setting l \<or> ls_pc y a = Releasing l \<Longrightarrow> lk_cpu (locks (ls_m y) l) = None"
  shows "lock_inv y"
  using assms unfolding lock_inv_def nest_ok_def by simp

lemma lock_invD:
  assumes "lock_inv y"
  shows "\<And>a. ls_pc y a \<noteq> Run \<Longrightarrow> cpu_of (ls_m y) a \<noteq> None"
    and "\<And>l. lk_locked (locks (ls_m y) l) \<longleftrightarrow> ls_own y l \<noteq> None"
    and "\<And>l i. lk_cpu (locks (ls_m y) l) = Some i \<Longrightarrow>
        (\<exists>a. ls_own y l = Some a \<and> cpu_of (ls_m y) a = Some i)"
    and "\<And>a l. ls_pc y a = Setting l \<or> ls_pc y a = Releasing l \<Longrightarrow> ls_own y l = Some a"
    and "\<And>l a. ls_own y l = Some a \<Longrightarrow> cpu_of (ls_m y) a \<noteq> None"
    and "\<And>a. cpu_of (ls_m y) a \<noteq> None \<Longrightarrow> nest_ok (ls_m y) a"
    and "\<And>a. cpu_of (ls_m y) a \<noteq> None \<Longrightarrow> finite (owned y a)"
    and "\<And>a. cpu_of (ls_m y) a \<noteq> None \<Longrightarrow> ncli (the_cpu (ls_m y) a) = int (card (owned y a) + pend (ls_pc y a))"
    and "\<And>a. cpu_of (ls_m y) a \<noteq> None \<Longrightarrow> 0 < ncli (the_cpu (ls_m y) a) \<Longrightarrow> \<not> eflags_if (ls_m y) a"
    and "\<And>a l. ls_pc y a = Setting l \<or> ls_pc y a = Releasing l \<Longrightarrow> lk_cpu (locks (ls_m y) l) = None"
  using assms unfolding lock_inv_def nest_ok_def by blast+

lemma owned_upd:
  "owned (y\<lparr>ls_m := t, ls_pc := p, ls_own := (ls_own y)(l \<mapsto> a)\<rparr>) b =
     (if b = a then insert l (owned y b) else owned y b - {l})"
  "owned (y\<lparr>ls_m := t, ls_pc := p, ls_own := (ls_own y)(l := None)\<rparr>) b = owned y b - {l}"
  "owned (y\<lparr>ls_m := t, ls_pc := p\<rparr>) b = owned y b"
  "owned (y\<lparr>ls_m := t\<rparr>) b = owned y b"
  by (auto simp: owned_def)

lemma step_enter:
  assumes "lock_inv y" "ls_pc y a = Run" "cpu_of (ls_m y) a \<noteq> None" "acquire_enter a l (ls_m y) = (Ret (), t)"
  shows "lock_inv (y\<lparr>ls_m := t, ls_pc := (ls_pc y)(a := Spinning l)\<rparr>)"
proof -
  note D = lock_invD [OF assms(1)]
  have t: "locks t = locks (ls_m y)" "cpu_of t = cpu_of (ls_m y)" "eflags_if t = (eflags_if (ls_m y))(a := False)"
    "\<forall>b. cpu_of (ls_m y) b \<noteq> None \<longrightarrow>
      ncli (the_cpu t b) = (if b = a then ncli (the_cpu (ls_m y) b) + 1 else ncli (the_cpu (ls_m y) b))"
    using acquire_enter_spec [OF D(6) [OF assms(3)], of l] assms(4) by (auto split: if_splits)
  show ?thesis
    using D(7,9) t assms(2,3) by (intro lock_invI) (auto simp: owned_upd D(2,8) dest: D(1,3,5) D(4,10) [OF disjI1] D(4,10) [OF disjI2] intro: D(7) D(9) split: if_splits)
qed

lemma step_busy:
  assumes "lock_inv y" "acquire_xchg l (ls_m y) = (Ret True, t)"
  shows "lock_inv (y\<lparr>ls_m := t\<rparr>)"
proof -
  have "t = ls_m y" using assms(2) by (auto simp: acquire_xchg_def upd_lock_def fun_upd_idem)
  with assms(1) show ?thesis by simp
qed

lemma step_free:
  assumes "lock_inv y" "ls_pc y a = Spinning l" "acquire_xchg l (ls_m y) = (Ret False, t)"
  shows "lock_inv (y\<lparr>ls_m := t, ls_pc := (ls_pc y)(a := Setting l), ls_own := (ls_own y)(l \<mapsto> a)\<rparr>)"
proof -
  note D = lock_invD [OF assms(1)]
  have t: "\<not> lk_locked (locks (ls_m y) l)" "t = upd_lock l (\<lambda>k. k\<lparr>lk_locked := True\<rparr>) (ls_m y)"
    using assms(3) by (auto simp: acquire_xchg_def)
  have free: "ls_own y l = None" using D(2) [of l] t(1) by auto
  then have nl: "l \<notin> owned y b" for b by (simp add: owned_def)
  have nc: "lk_cpu (locks (ls_m y) l) = None" using D(3) [of l] free by (cases "lk_cpu (locks (ls_m y) l)") auto
  have np: "ls_pc y b \<noteq> Setting l" "ls_pc y b \<noteq> Releasing l" for b
    using D(4) [of b l] free by auto
  have c: "cpu_of (ls_m y) a \<noteq> None" using D(1) [of a] assms(2) by simp
  show ?thesis
    using D(7,9) t assms(2) free nl nc np c by (intro lock_invI) (auto simp: owned_upd D(2,8) dest: D(1,3,5) D(4,10) [OF disjI1] D(4,10) [OF disjI2] intro: D(7) D(9) split: if_splits)
qed

lemma step_finish:
  assumes "lock_inv y" "ls_pc y a = Setting l" "acquire_finish a l (ls_m y) = (Ret (), t)"
  shows "lock_inv (y\<lparr>ls_m := t, ls_pc := (ls_pc y)(a := Run)\<rparr>)"
proof -
  note D = lock_invD [OF assms(1)]
  obtain i where i: "cpu_of (ls_m y) a = Some i" using D(1) [of a] assms(2) by auto
  have own: "ls_own y l = Some a" using D(4) assms(2) by blast
  have t: "t = upd_lock l (\<lambda>k. k\<lparr>lk_cpu := Some i\<rparr>) (ls_m y)"
    using assms(3) i by (auto simp: acquire_finish_def kop_defs mycpu_def cpu_of_def split: if_splits)
  have np: "ls_pc y b \<noteq> Setting l \<and> ls_pc y b \<noteq> Releasing l" if "b \<noteq> a" for b
    using D(4) [of b l] own that by auto
  show ?thesis
    using D(7,9) t assms(2) own np i by (intro lock_invI) (auto simp: owned_upd D(2,8) dest: D(1,3,5) D(4,10) [OF disjI1] D(4,10) [OF disjI2] intro: D(7) D(9) split: if_splits)
qed

lemma step_start:
  assumes "lock_inv y" "ls_pc y a = Run" "cpu_of (ls_m y) a \<noteq> None" "release_start a l (ls_m y) = (Ret (), t)"
  shows "lock_inv (y\<lparr>ls_m := t, ls_pc := (ls_pc y)(a := Releasing l)\<rparr>)"
proof -
  note D = lock_invD [OF assms(1)]
  obtain u where u: "t = upd_lock l (\<lambda>k. k\<lparr>lk_cpu := None\<rparr>) u" "locks u = locks (ls_m y)"
    "cpu_of u = cpu_of (ls_m y)" "eflags_if u = eflags_if (ls_m y)"
    "\<forall>b. cpu_of (ls_m y) b \<noteq> None \<longrightarrow> ncli (the_cpu u b) = ncli (the_cpu (ls_m y) b)"
    and h: "lk_locked (locks (ls_m y) l)" "lk_cpu (locks (ls_m y) l) = cpu_of (ls_m y) a"
  proof -
    assume *: "\<And>u. t = upd_lock l (\<lambda>k. k\<lparr>lk_cpu := None\<rparr>) u \<Longrightarrow> locks u = locks (ls_m y) \<Longrightarrow>
      cpu_of u = cpu_of (ls_m y) \<Longrightarrow> eflags_if u = eflags_if (ls_m y) \<Longrightarrow>
      \<forall>b. cpu_of (ls_m y) b \<noteq> None \<longrightarrow> ncli (the_cpu u b) = ncli (the_cpu (ls_m y) b) \<Longrightarrow>
      lk_locked (locks (ls_m y) l) \<Longrightarrow> lk_cpu (locks (ls_m y) l) = cpu_of (ls_m y) a \<Longrightarrow> thesis"
    show thesis
      using release_start_spec [OF D(6) [OF assms(3)], of l] assms(4) * by (metis Pair_inject res.distinct(1))
  qed
  obtain i where i: "cpu_of (ls_m y) a = Some i" using assms(3) by blast
  obtain b where b: "ls_own y l = Some b" "cpu_of (ls_m y) b = Some i" using D(3) h(2) i by metis
  have own: "ls_own y l = Some a" using b cpu_of_inj i by metis
  show ?thesis
    using D(7,9) u assms(2) own i by (intro lock_invI) (auto simp: owned_upd D(2,8) dest: D(1,3,5) D(4,10) [OF disjI1] D(4,10) [OF disjI2] intro: D(7) D(9) split: if_splits)
qed

lemma step_movl:
  assumes "lock_inv y" "ls_pc y a = Releasing l" "release_movl l (ls_m y) = (Ret (), t)"
  shows "lock_inv (y\<lparr>ls_m := t, ls_pc := (ls_pc y)(a := Popping), ls_own := (ls_own y)(l := None)\<rparr>)"
proof -
  note D = lock_invD [OF assms(1)]
  have own: "ls_own y l = Some a" "lk_cpu (locks (ls_m y) l) = None" using D(4,10) assms(2) by blast+
  have t: "t = upd_lock l (\<lambda>k. k\<lparr>lk_locked := False\<rparr>) (ls_m y)"
    using assms(3) by (auto simp: release_movl_def kop_defs)
  have np: "ls_pc y b \<noteq> Setting l \<and> ls_pc y b \<noteq> Releasing l" if "b \<noteq> a" for b
    using D(4) [of b l] own that by auto
  have l: "l \<in> owned y a" "l \<notin> owned y b" if "b \<noteq> a" for b using own that by (auto simp: owned_def)
  have "cpu_of (ls_m y) a \<noteq> None" using D(1) [of a] assms(2) by simp
  then have c: "card (owned y a) = Suc (card (owned y a - {l}))"
    using D(7) own by (intro card.remove) (auto simp: owned_def)
  show ?thesis
    using D(7,9) t assms(2) own np l c by (intro lock_invI) (auto simp: owned_upd D(2,8) dest: D(1,3,5) D(4,10) [OF disjI1] D(4,10) [OF disjI2] intro: D(7) D(9) split: if_splits)
qed

lemma step_pop:
  assumes "lock_inv y" "ls_pc y a = Popping" "popcli a (ls_m y) = (Ret (), t)"
  shows "lock_inv (y\<lparr>ls_m := t, ls_pc := (ls_pc y)(a := Run)\<rparr>)"
proof -
  note D = lock_invD [OF assms(1)]
  have c: "cpu_of (ls_m y) a \<noteq> None" using D(1) [of a] assms(2) by simp
  then have n: "0 < ncli (the_cpu (ls_m y) a)" using D(8) assms(2) by simp
  have t: "locks t = locks (ls_m y)" "cpu_of t = cpu_of (ls_m y)"
    "eflags_if t = (eflags_if (ls_m y))(a := (ncli (the_cpu (ls_m y) a) = 1 \<and> intena (the_cpu (ls_m y) a)))"
    "\<forall>b. cpu_of (ls_m y) b \<noteq> None \<longrightarrow> ncli (the_cpu t b) =
      (if b = a then ncli (the_cpu (ls_m y) a) - 1 else ncli (the_cpu (ls_m y) b))"
    using popcli_spec [OF D(6) [OF c] n] assms(3) by auto
  show ?thesis
    using D(7,9) t assms(2) c by (intro lock_invI) (auto simp: owned_upd D(2,8) dest: D(1,3,5) D(4,10) [OF disjI1] D(4,10) [OF disjI2] intro: D(7) D(9) split: if_splits)
qed

lemma step_irq:
  assumes "lock_inv y" "cpu_of (ls_m y) a \<noteq> None" "ncli (the_cpu (ls_m y) a) = 0"
  shows "lock_inv (y\<lparr>ls_m := set_if a b (ls_m y)\<rparr>)"
proof -
  note D = lock_invD [OF assms(1)]
  show ?thesis
    using D(7,9) assms(2,3)
    by (intro lock_invI) (auto simp: owned_upd D(2,8) dest: D(1,3,5) D(4,10) [OF disjI1] D(4,10) [OF disjI2] intro: D(7) D(9) split: if_splits)
qed

lemma lock_inv_step:
  assumes "lock_inv y" and "lock_step y z"
  shows "lock_inv z"
  using assms(2)
proof cases
  case ls_enter
  then show ?thesis using step_enter [OF assms(1)] by simp
next
  case ls_busy
  then show ?thesis using step_busy [OF assms(1)] by simp
next
  case ls_free
  then show ?thesis using step_free [OF assms(1)] by simp
next
  case ls_finish
  then show ?thesis using step_finish [OF assms(1)] by simp
next
  case ls_start
  then show ?thesis using step_start [OF assms(1)] by simp
next
  case ls_movl
  then show ?thesis using step_movl [OF assms(1)] by simp
next
  case ls_pop
  then show ?thesis using step_pop [OF assms(1)] by simp
next
  case ls_irq
  then show ?thesis using step_irq [OF assms(1)] by simp
qed

lemma lock_inv_start: "lock_start y \<Longrightarrow> lock_inv y"
  by (rule lock_invI) (auto simp: lock_start_def owned_def)

interpretation lk: state_machine lock_start lock_step lock_inv
  using lock_inv_start lock_inv_step by unfold_locales

section \<open>Sleep locks\<close>

record sleeplock =
  sl_locked :: bool
  sl_pid :: nat

definition initsleeplock :: sleeplock where
  "initsleeplock = \<lparr>sl_locked = False, sl_pid = 0\<rparr>"

text \<open>\<^verbatim>\<open>Sleep\<close> is the \<^verbatim>\<open>sleep\<close> of the loop, whose test is repeated after the wakeup.\<close>

definition acquiresleep :: "nat \<Rightarrow> nat \<Rightarrow> (sleeplock, unit) kop" where
  "acquiresleep n pid = (\<lambda>lk.
     if sl_locked lk then (Sleep (ChanSleeplock n), lk)
     else (Ret (), lk\<lparr>sl_locked := True, sl_pid := pid\<rparr>))"

definition releasesleep :: "nat \<Rightarrow> (sleeplock, chan list) kop" where
  "releasesleep n = (\<lambda>lk. (Ret [ChanSleeplock n], lk\<lparr>sl_locked := False, sl_pid := 0\<rparr>))"

definition holdingsleep :: "nat \<Rightarrow> (sleeplock, bool) kop" where
  "holdingsleep pid = kget (\<lambda>lk. sl_locked lk \<and> sl_pid lk = pid)"

datatype spc = Out | Want | Asleep | Inside

record slsys =
  ss_lk :: sleeplock
  ss_pc :: "nat \<Rightarrow> spc"

definition wake_all :: "(nat \<Rightarrow> spc) \<Rightarrow> (nat \<Rightarrow> spc)" where
  "wake_all pc = (\<lambda>p. if pc p = Asleep then Want else pc p)"

inductive slock_step :: "nat \<Rightarrow> slsys \<Rightarrow> slsys \<Rightarrow> bool" for n :: nat where
  sl_call: "ss_pc y p = Out \<Longrightarrow> slock_step n y (y\<lparr>ss_pc := (ss_pc y)(p := Want)\<rparr>)"
| sl_got: "ss_pc y p = Want \<Longrightarrow> acquiresleep n p (ss_lk y) = (Ret (), t) \<Longrightarrow>
    slock_step n y (y\<lparr>ss_lk := t, ss_pc := (ss_pc y)(p := Inside)\<rparr>)"
| sl_sleep: "ss_pc y p = Want \<Longrightarrow> acquiresleep n p (ss_lk y) = (Sleep c, t) \<Longrightarrow>
    slock_step n y (y\<lparr>ss_lk := t, ss_pc := (ss_pc y)(p := Asleep)\<rparr>)"
| sl_kill: "ss_pc y p = Asleep \<Longrightarrow> slock_step n y (y\<lparr>ss_pc := (ss_pc y)(p := Want)\<rparr>)"
| sl_release: "holdingsleep p (ss_lk y) = (Ret True, u) \<Longrightarrow> ss_pc y p = Inside \<Longrightarrow>
    releasesleep n (ss_lk y) = (Ret w, t) \<Longrightarrow>
    slock_step n y (y\<lparr>ss_lk := t,
      ss_pc := (if ChanSleeplock n \<in> set w then wake_all else id) ((ss_pc y)(p := Out))\<rparr>)"

definition slock_start :: "slsys \<Rightarrow> bool" where
  "slock_start y \<longleftrightarrow> ss_lk y = initsleeplock \<and> (\<forall>p. ss_pc y p = Out)"

definition slock_inv :: "slsys \<Rightarrow> bool" where
  "slock_inv y \<longleftrightarrow>
     (\<forall>p. ss_pc y p = Inside \<longleftrightarrow> sl_locked (ss_lk y) \<and> p = sl_pid (ss_lk y)) \<and>
     (\<forall>p. ss_pc y p = Asleep \<longrightarrow> sl_locked (ss_lk y))"

lemma slock_inv_step:
  assumes "slock_inv y" and "slock_step n y z"
  shows "slock_inv z"
proof -
  have I: "\<And>p. ss_pc y p = Inside \<longleftrightarrow> sl_locked (ss_lk y) \<and> p = sl_pid (ss_lk y)"
    and A: "\<And>p. ss_pc y p = Asleep \<Longrightarrow> sl_locked (ss_lk y)"
    using assms(1) by (auto simp: slock_inv_def)
  from assms(2) show ?thesis
  proof cases
    case (sl_call p)
    then show ?thesis using I [of p] by (simp add: slock_inv_def I) (use A in blast)
  next
    case (sl_got p t)
    then have "\<not> sl_locked (ss_lk y)" "t = (ss_lk y)\<lparr>sl_locked := True, sl_pid := p\<rparr>"
      by (auto simp: acquiresleep_def split: if_splits)
    with sl_got(1) A show ?thesis by (simp add: slock_inv_def I)
  next
    case (sl_sleep p c t)
    then have "sl_locked (ss_lk y)" "t = ss_lk y" by (auto simp: acquiresleep_def split: if_splits)
    with sl_sleep(1,2) I [of p] show ?thesis by (simp add: slock_inv_def I)
  next
    case (sl_kill p)
    then show ?thesis using I [of p] A by (simp add: slock_inv_def I)
  next
    case (sl_release p u w t)
    then have "sl_pid (ss_lk y) = p" "t = (ss_lk y)\<lparr>sl_locked := False, sl_pid := 0\<rparr>" "w = [ChanSleeplock n]"
      by (auto simp: holdingsleep_def kget_def releasesleep_def)
    with sl_release(1) show ?thesis by (simp add: slock_inv_def wake_all_def I)
  qed
qed

lemma slock_inv_start: "slock_start y \<Longrightarrow> slock_inv y"
  by (auto simp: slock_start_def slock_inv_def initsleeplock_def)

interpretation sl: state_machine slock_start "slock_step n" slock_inv
  using slock_inv_start slock_inv_step by unfold_locales

section \<open>Properties\<close>

definition in_cs :: "lsys \<Rightarrow> u32 \<Rightarrow> nat \<Rightarrow> bool" where
  "in_cs y a l \<longleftrightarrow> ls_pc y a = Setting l \<or> ls_pc y a = Releasing l \<or>
     (cpu_of (ls_m y) a \<noteq> None \<and> lk_locked (locks (ls_m y) l) \<and> lk_cpu (locks (ls_m y) l) = cpu_of (ls_m y) a)"

lemma in_cs_own: "lock_inv y \<Longrightarrow> in_cs y a l \<Longrightarrow> ls_own y l = Some a \<and> cpu_of (ls_m y) a \<noteq> None"
proof -
  assume inv: "lock_inv y" and cs: "in_cs y a l"
  note D = lock_invD [OF inv]
  show ?thesis
  proof (cases "ls_pc y a = Setting l \<or> ls_pc y a = Releasing l")
    case True
    then show ?thesis using D(1) [of a] D(4) [OF True] by auto
  next
    case False
    with cs obtain i where i: "cpu_of (ls_m y) a = Some i" "lk_cpu (locks (ls_m y) l) = Some i"
      by (auto simp: in_cs_def)
    with D(3) [OF i(2)] cpu_of_inj show ?thesis by fastforce
  qed
qed

text \<open>
  C9. Spin locks give mutual exclusion on any number of processors: in every reachable state at
  most one processor is between a successful \<^verbatim>\<open>xchg\<close> and the store that clears the lock, and
  that processor has interrupts off.  A holder can always release without a panic, and
  \<^verbatim>\<open>acquire\<close> panics exactly when the processor already holds the lock.
\<close>

theorem spinlock_mutex:
  assumes "reach lock_start lock_step y"
  shows "(\<forall>l a b. in_cs y a l \<and> in_cs y b l \<longrightarrow> a = b) \<and>
    (\<forall>l a. in_cs y a l \<longrightarrow> \<not> eflags_if (ls_m y) a) \<and>
    (\<forall>l a. cpu_of (ls_m y) a \<noteq> None \<longrightarrow>
       (let held = (lk_locked (locks (ls_m y) l) \<and> lk_cpu (locks (ls_m y) l) = cpu_of (ls_m y) a)
        in fst (acquire_enter a l (ls_m y)) = (if held then Panic ''acquire'' else Ret ()) \<and>
           fst (release_start a l (ls_m y)) = (if held then Ret () else Panic ''release'')))"
proof -
  have inv: "lock_inv y" using lk.reach_inv [OF assms] .
  note D = lock_invD [OF inv]
  have off: "\<not> eflags_if (ls_m y) a" if "in_cs y a l" for a l
  proof -
    have own: "ls_own y l = Some a" "cpu_of (ls_m y) a \<noteq> None" using in_cs_own [OF inv that] by auto
    then have "0 < card (owned y a)" using D(7) [OF own(2)] by (auto simp: owned_def card_gt_0_iff)
    then show ?thesis using D(8,9) [OF own(2)] by simp
  qed
  have excl: "a = b" if "in_cs y a l \<and> in_cs y b l" for a b l
    using in_cs_own [OF inv, of a l] in_cs_own [OF inv, of b l] that by simp
  have acq: "fst (acquire_enter a l (ls_m y)) =
      (if lk_locked (locks (ls_m y) l) \<and> lk_cpu (locks (ls_m y) l) = cpu_of (ls_m y) a then Panic ''acquire'' else Ret ())"
    if "cpu_of (ls_m y) a \<noteq> None" for a l
    using acquire_enter_spec [OF D(6) [OF that], of l] by auto
  have rel: "fst (release_start a l (ls_m y)) =
      (if lk_locked (locks (ls_m y) l) \<and> lk_cpu (locks (ls_m y) l) = cpu_of (ls_m y) a then Ret () else Panic ''release'')"
    if "cpu_of (ls_m y) a \<noteq> None" for a l
    using release_start_spec [OF D(6) [OF that], of l] by auto
  show ?thesis
    unfolding Let_def by (intro conjI allI impI) (erule excl, erule off, erule acq, erule rel)
qed

definition ex_mach :: mach where
  "ex_mach = \<lparr>cpus = [\<lparr>apicid = 3, ncli = 0, intena = False\<rparr>, \<lparr>apicid = 9, ncli = 0, intena = False\<rparr>],
     eflags_if = (\<lambda>a. a = 9), locks = (\<lambda>_. \<lparr>lk_locked = False, lk_cpu = None\<rparr>)\<rparr>"

definition ex_locked :: lsys where
  "ex_locked =
     (let m1 = snd (acquire_enter 9 5 ex_mach); m2 = snd (acquire_xchg 5 m1); m3 = snd (acquire_finish 9 5 m2)
      in \<lparr>ls_m = m3, ls_pc = (\<lambda>_. Run), ls_own = [5 \<mapsto> 9]\<rparr>)"

lemma ex_locked_reach: "reach lock_start lock_step ex_locked"
proof -
  let ?y0 = "\<lparr>ls_m = ex_mach, ls_pc = (\<lambda>_. Run), ls_own = Map.empty\<rparr>"
  let ?m1 = "snd (acquire_enter 9 5 ex_mach)"
  let ?m2 = "snd (acquire_xchg 5 ?m1)"
  let ?m3 = "snd (acquire_finish 9 5 ?m2)"
  let ?y1 = "\<lparr>ls_m = ?m1, ls_pc = (\<lambda>_. Run)(9 := Spinning 5), ls_own = Map.empty\<rparr>"
  let ?y2 = "\<lparr>ls_m = ?m2, ls_pc = (\<lambda>_. Run)(9 := Setting 5), ls_own = [5 \<mapsto> 9]\<rparr>"
  note defs = ex_mach_def acquire_enter_def acquire_xchg_def acquire_finish_def holding_def pushcli_def popcli_def
    kop_defs mycpu_def upd_cpu_def set_if_def upd_lock_def
  have "lock_start ?y0" by (auto simp: lock_start_def ex_mach_def cpu_of_def the_cpu_def)
  then have 0: "reach lock_start lock_step ?y0" by (rule reach_start)
  have 1: "lock_step ?y0 ?y1"
    using ls_enter [of ?y0 9 5 ?m1] by (simp add: defs cpu_of_def)
  have 2: "lock_step ?y1 ?y2"
    using ls_free [of ?y1 9 5 ?m2] by (simp add: defs)
  have 3: "lock_step ?y2 ex_locked"
    using ls_finish [of ?y2 9 5 ?m3] by (simp add: defs ex_locked_def fun_upd_idem)
  show ?thesis using 0 1 2 3 by (meson reach_step)
qed

theorem spinlock_mutex_witness:
  "reach lock_start lock_step ex_locked \<and> in_cs ex_locked 9 5 \<and> \<not> eflags_if (ls_m ex_locked) 9 \<and>
   \<not> in_cs ex_locked 3 5 \<and> fst (release_start 9 5 (ls_m ex_locked)) = Ret ()"
proof -
  note defs = ex_mach_def acquire_enter_def acquire_xchg_def acquire_finish_def holding_def pushcli_def popcli_def
    kop_defs mycpu_def upd_cpu_def set_if_def upd_lock_def
  have c: "cpu_of (ls_m ex_locked) 9 = Some 1" "lk_locked (locks (ls_m ex_locked) 5)"
      "lk_cpu (locks (ls_m ex_locked) 5) = Some 1"
    by (simp_all add: defs ex_locked_def cpu_of_def)
  then have cs: "in_cs ex_locked 9 5" by (simp add: in_cs_def)
  note m = spinlock_mutex [OF ex_locked_reach, unfolded Let_def]
  have "\<not> in_cs ex_locked 3 5"
  proof
    assume "in_cs ex_locked 3 5"
    with cs have "(3 :: u32) = 9" using m [THEN conjunct1, rule_format, of 3 5 9] by simp
    then show False by simp
  qed
  moreover have "fst (release_start 9 5 (ls_m ex_locked)) = Ret ()"
    using m [THEN conjunct2, THEN conjunct2, rule_format, of 9 5] c by simp
  moreover have "\<not> eflags_if (ls_m ex_locked) 9"
    using m [THEN conjunct2, THEN conjunct1, rule_format, OF cs] .
  ultimately show ?thesis using cs ex_locked_reach by blast
qed

text \<open>
  C26. Acquiring a free lock and releasing it again gives back the machine as it was: the lock is
  free, the nesting count is the old one and interrupts are on again exactly if they were on
  before; in between they are off.  So \<^verbatim>\<open>pushcli\<close>/\<^verbatim>\<open>popcli\<close> pairs nest to any depth.
\<close>

theorem lock_unlock_restores:
  assumes "nest_ok s a" and "locks s l = \<lparr>lk_locked = False, lk_cpu = None\<rparr>"
  shows "\<exists>t u. acquire_free a l s = (Ret False, t) \<and> \<not> eflags_if t a \<and>
    locks t l = \<lparr>lk_locked = True, lk_cpu = cpu_of s a\<rparr> \<and> nest_ok t a \<and>
    release a l t = (Ret (), u) \<and> locks u = locks s \<and> eflags_if u = eflags_if s \<and>
    ncli (the_cpu u a) = ncli (the_cpu s a)"
proof -
  obtain i where i: "cpu_of s a = Some i" using assms by (auto simp: nest_ok_def)
  obtain s1 where s1: "acquire_enter a l s = (Ret (), s1)" "locks s1 = locks s" "cpu_of s1 = cpu_of s"
      "eflags_if s1 = (eflags_if s)(a := False)" "ncli (the_cpu s1 a) = ncli (the_cpu s a) + 1"
      "intena (the_cpu s1 a) = (if ncli (the_cpu s a) = 0 then eflags_if s a else intena (the_cpu s a))"
    using acquire_enter_spec [OF assms(1), of l] assms(2) i by auto
  define t where "t = upd_lock l (\<lambda>k. k\<lparr>lk_cpu := Some i\<rparr>) (upd_lock l (\<lambda>k. k\<lparr>lk_locked := True\<rparr>) s1)"
  have acq: "acquire_free a l s = (Ret False, t)"
    using s1 assms(2) i
    by (simp add: acquire_free_def kop_defs acquire_xchg_def acquire_finish_def mycpu_def t_def cpu_of_def [symmetric])
  have nt: "nest_ok t a" using assms(1) s1 by (auto simp: nest_ok_def t_def)
  have lt: "locks t l = \<lparr>lk_locked = True, lk_cpu = cpu_of s a\<rparr>" using assms(2) s1(2) i by (simp add: t_def)
  obtain t1 where t1: "release_start a l t = (Ret (), upd_lock l (\<lambda>k. k\<lparr>lk_cpu := None\<rparr>) t1)" "locks t1 = locks t"
      "cpu_of t1 = cpu_of t" "eflags_if t1 = eflags_if t" "ncli (the_cpu t1 a) = ncli (the_cpu t a)"
      "intena (the_cpu t1 a) = intena (the_cpu t a)"
    using release_start_spec [OF nt, of l] lt s1(3,5) i assms(1) by (auto simp: t_def nest_ok_def)
  define t2 where "t2 = upd_lock l (\<lambda>k. k\<lparr>lk_locked := False\<rparr>) (upd_lock l (\<lambda>k. k\<lparr>lk_cpu := None\<rparr>) t1)"
  have n2: "nest_ok t2 a" "0 < ncli (the_cpu t2 a)"
    using nt t1 s1(5) assms(1) by (auto simp: nest_ok_def t2_def t_def)
  obtain u where u: "popcli a t2 = (Ret (), u)" "locks u = locks t2" "cpu_of u = cpu_of t2"
      "eflags_if u = (eflags_if t2)(a := (ncli (the_cpu t2 a) = 1 \<and> intena (the_cpu t2 a)))"
      "the_cpu u a = (the_cpu t2 a)\<lparr>ncli := ncli (the_cpu t2 a) - 1\<rparr>"
    using popcli_spec [OF n2] n2(1) by (auto simp: nest_ok_def)
  have "release a l t = (Ret (), u)"
    using t1(1) u(1) by (simp add: release_def kop_defs release_movl_def t2_def)
  moreover have "locks u = locks s"
    using u(2) t1(2) s1(2) assms(2) by (auto simp: t2_def t_def fun_eq_iff)
  moreover have "eflags_if u = eflags_if s"
    using u(4) t1(4,5,6) s1(4,5,6) assms(1) by (auto simp: t2_def t_def fun_eq_iff nest_ok_def)
  moreover have "ncli (the_cpu u a) = ncli (the_cpu s a)"
    using u(5) t1(5) s1(5) by (simp add: t2_def t_def)
  ultimately show ?thesis using acq nt lt s1(4) by (intro exI [of _ t] exI [of _ u]) (simp add: t_def)
qed

theorem lock_unlock_restores_witness:
  "\<exists>t u. acquire_free 9 5 ex_mach = (Ret False, t) \<and> \<not> eflags_if t 9 \<and> release 9 5 t = (Ret (), u) \<and>
     eflags_if u 9"
proof -
  have "nest_ok ex_mach 9" by (simp add: nest_ok_def ex_mach_def cpu_of_def the_cpu_def)
  moreover have "locks ex_mach 5 = \<lparr>lk_locked = False, lk_cpu = None\<rparr>" "eflags_if ex_mach 9"
    by (simp_all add: ex_mach_def)
  ultimately show ?thesis using lock_unlock_restores [of ex_mach 9 5] by metis
qed

text \<open>
  C18. Sleep locks give mutual exclusion among processes, and no wakeup is lost: in every reachable
  state at most one process is inside, the lock records its pid, and a process is asleep on the
  lock only while another holds it.
\<close>

theorem sleeplock_mutex:
  assumes "reach slock_start (slock_step n) y"
  shows "(\<forall>p q. ss_pc y p = Inside \<and> ss_pc y q = Inside \<longrightarrow> p = q) \<and>
    (\<forall>p. ss_pc y p = Inside \<longrightarrow> holdingsleep p (ss_lk y) = (Ret True, ss_lk y)) \<and>
    (\<forall>p. ss_pc y p = Asleep \<longrightarrow> (\<exists>q. q \<noteq> p \<and> ss_pc y q = Inside))"
proof -
  have inv: "slock_inv y" using sl.reach_inv [OF assms] .
  then have I: "\<And>p. ss_pc y p = Inside \<longleftrightarrow> sl_locked (ss_lk y) \<and> p = sl_pid (ss_lk y)"
    and A: "\<And>p. ss_pc y p = Asleep \<Longrightarrow> sl_locked (ss_lk y)"
    by (auto simp: slock_inv_def)
  have "\<exists>q. q \<noteq> p \<and> ss_pc y q = Inside" if "ss_pc y p = Asleep" for p
  proof (intro exI conjI)
    show i: "ss_pc y (sl_pid (ss_lk y)) = Inside" using I A [OF that] by simp
    show "sl_pid (ss_lk y) \<noteq> p" using i that by auto
  qed
  then show ?thesis using I by (simp add: holdingsleep_def kget_def)
qed

definition ex_slsys :: slsys where
  "ex_slsys = \<lparr>ss_lk = \<lparr>sl_locked = True, sl_pid = 4\<rparr>, ss_pc = (\<lambda>_. Out)(4 := Inside, 7 := Asleep)\<rparr>"

theorem sleeplock_mutex_witness:
  "reach slock_start (slock_step 2) ex_slsys \<and> ss_pc ex_slsys 7 = Asleep \<and>
   (\<exists>q. q \<noteq> 7 \<and> ss_pc ex_slsys q = Inside)"
proof -
  let ?s0 = "\<lparr>ss_lk = initsleeplock, ss_pc = (\<lambda>_. Out)\<rparr>"
  let ?s1 = "?s0\<lparr>ss_pc := (\<lambda>_. Out)(4 := Want)\<rparr>"
  let ?s2 = "\<lparr>ss_lk = \<lparr>sl_locked = True, sl_pid = 4\<rparr>, ss_pc = (\<lambda>_. Out)(4 := Inside)\<rparr>"
  let ?s3 = "?s2\<lparr>ss_pc := (\<lambda>_. Out)(4 := Inside, 7 := Want)\<rparr>"
  have "reach slock_start (slock_step 2) ?s0" by (rule reach_start) (simp add: slock_start_def)
  moreover have "slock_step 2 ?s0 ?s1" using sl_call [of ?s0 4 2] by simp
  moreover have "slock_step 2 ?s1 ?s2"
    using sl_got [of ?s1 4 2 "\<lparr>sl_locked = True, sl_pid = 4\<rparr>"]
    by (simp add: acquiresleep_def initsleeplock_def)
  moreover have "slock_step 2 ?s2 ?s3" using sl_call [of ?s2 7 2] by simp
  moreover have "slock_step 2 ?s3 ex_slsys"
    using sl_sleep [of ?s3 7 2 "ChanSleeplock 2" "\<lparr>sl_locked = True, sl_pid = 4\<rparr>"]
    by (simp add: acquiresleep_def ex_slsys_def)
  ultimately have r: "reach slock_start (slock_step 2) ex_slsys" by (meson reach_step)
  have a: "ss_pc ex_slsys 7 = Asleep" by (simp add: ex_slsys_def)
  show ?thesis
    using r a sleeplock_mutex [OF r, THEN conjunct2, THEN conjunct2, rule_format, OF a] by blast
qed

end
