(* ===== verification/Buf_Cache.thy ===== *)
theory Buf_Cache
  imports Locking
begin

text \<open>
  The buffer cache (\<^verbatim>\<open>bio.c\<close>) on the disk drivers \<^verbatim>\<open>ide.c\<close> and \<^verbatim>\<open>memide.c\<close>.

  \<^item> \<open>bufs\<close> is the array \<^verbatim>\<open>bcache.buf\<close>; a buffer pointer is an index.  \<open>mru\<close> is the list
    through \<^verbatim>\<open>next\<close> from \<^verbatim>\<open>bcache.head\<close>, most recently used first.
  \<^item> A transfer by \<^verbatim>\<open>iderw\<close> is one step: the calling process holds the buffer's lock and sleeps
    until the interrupt handler has moved the block.  \<open>disk_writes\<close> records the blocks written,
    in order, so that a crash between two of them can be talked about.
  \<^item> \<open>logical\<close> is the block a reader gets: the cached data if there is a valid buffer, else the
    disk.  \<open>binv\<close> is the invariant, for the buffers of a device other than 0.
\<close>

section \<open>State\<close>

type_synonym block = "nat \<Rightarrow> u8"

definition NBUF :: nat where
  [const_defs]: "NBUF = 30"

definition FSSIZE :: u32 where
  [const_defs]: "FSSIZE = 262144"

definition BSIZE :: nat where
  [const_defs]: "BSIZE = 512"

record buf =
  b_valid :: bool
  b_dirty :: bool
  b_dev :: u32
  b_blockno :: u32
  b_lock :: sleeplock
  b_refcnt :: u32
  b_data :: block

record bcache =
  bufs :: "buf list"
  mru :: "nat list"
  disk :: "u32 \<Rightarrow> u32 \<Rightarrow> block"
  disk_writes :: "(u32 \<times> u32 \<times> block) list"
  havedisk1 :: bool

definition upd_buf :: "nat \<Rightarrow> (buf \<Rightarrow> buf) \<Rightarrow> bcache \<Rightarrow> bcache" where
  "upd_buf i f s = s\<lparr>bufs := (bufs s)[i := f (bufs s ! i)]\<rparr>"

definition bkey :: "buf \<Rightarrow> u32 \<times> u32" where
  "bkey b = (b_dev b, b_blockno b)"

section \<open>Operations\<close>

definition empty_buf :: buf where
  "empty_buf = \<lparr>b_valid = False, b_dirty = False, b_dev = 0, b_blockno = 0, b_lock = initsleeplock,
     b_refcnt = 0, b_data = (\<lambda>_. 0)\<rparr>"

text \<open>Each buffer of the (zeroed) array in turn is put in front of the list.\<close>

primrec binit_loop :: "nat \<Rightarrow> nat list" where
  "binit_loop 0 = []"
| "binit_loop (Suc n) = n # binit_loop n"

definition binit :: "bcache \<Rightarrow> bcache" where
  "binit s = s\<lparr>bufs := replicate NBUF empty_buf, mru := binit_loop NBUF\<rparr>"

definition lock_buf :: "nat \<Rightarrow> nat \<Rightarrow> (bcache, unit) kop" where
  "lock_buf me i = zoom (\<lambda>s. b_lock (bufs s ! i)) (\<lambda>l. upd_buf i (\<lambda>b. b\<lparr>b_lock := l\<rparr>)) (acquiresleep i me)"

definition holding_buf :: "nat \<Rightarrow> nat \<Rightarrow> bcache \<Rightarrow> bool" where
  "holding_buf me i s \<longleftrightarrow> fst (holdingsleep me (b_lock (bufs s ! i))) = Ret True"

definition bget :: "nat \<Rightarrow> u32 \<Rightarrow> u32 \<Rightarrow> (bcache, nat) kop" where
  "bget me dev blockno = (\<lambda>s.
     case find (\<lambda>i. bkey (bufs s ! i) = (dev, blockno)) (mru s) of
       Some i \<Rightarrow> kseq (lock_buf me i) (kret i) (upd_buf i (\<lambda>b. b\<lparr>b_refcnt := b_refcnt b + 1\<rparr>) s)
     | None \<Rightarrow>
         (case find (\<lambda>i. b_refcnt (bufs s ! i) = 0 \<and> \<not> b_dirty (bufs s ! i)) (rev (mru s)) of
            Some i \<Rightarrow>
              kseq (lock_buf me i) (kret i)
                (upd_buf i (\<lambda>b. b\<lparr>b_dev := dev, b_blockno := blockno, b_valid := False, b_dirty := False,
                                 b_refcnt := 1\<rparr>) s)
          | None \<Rightarrow> (Panic ''bget: no buffers'', s)))"

definition ide_transfer :: "nat \<Rightarrow> bcache \<Rightarrow> bcache" where
  "ide_transfer i s = (let b = bufs s ! i in
     if b_dirty b
     then upd_buf i (\<lambda>b. b\<lparr>b_valid := True, b_dirty := False\<rparr>)
            (s\<lparr>disk := (disk s)(b_dev b := (disk s (b_dev b))(b_blockno b := b_data b)),
               disk_writes := disk_writes s @ [(b_dev b, b_blockno b, b_data b)]\<rparr>)
     else upd_buf i (\<lambda>b. b\<lparr>b_valid := True, b_data := disk s (b_dev b) (b_blockno b)\<rparr>) s)"

definition iderw :: "nat \<Rightarrow> nat \<Rightarrow> (bcache, unit) kop" where
  "iderw me i = (\<lambda>s. let b = bufs s ! i in
     if \<not> holding_buf me i s then (Panic ''iderw: buf not locked'', s)
     else if b_valid b \<and> \<not> b_dirty b then (Panic ''iderw: nothing to do'', s)
     else if b_dev b \<noteq> 0 \<and> \<not> havedisk1 s then (Panic ''iderw: ide disk 1 not present'', s)
     else if FSSIZE \<le> b_blockno b then (Panic ''incorrect blockno'', s)
     else (Ret (), ide_transfer i s))"

text \<open>The driver for a disk image in memory; \<open>disksize\<close> comes from the linked image.\<close>

definition mem_iderw :: "u32 \<Rightarrow> nat \<Rightarrow> nat \<Rightarrow> (bcache, unit) kop" where
  "mem_iderw disksize me i = (\<lambda>s. let b = bufs s ! i in
     if \<not> holding_buf me i s then (Panic ''iderw: buf not locked'', s)
     else if b_valid b \<and> \<not> b_dirty b then (Panic ''iderw: nothing to do'', s)
     else if b_dev b \<noteq> 1 then (Panic ''iderw: request not for disk 1'', s)
     else if disksize \<le> b_blockno b then (Panic ''iderw: block out of range'', s)
     else (Ret (), ide_transfer i s))"

definition bread :: "nat \<Rightarrow> u32 \<Rightarrow> u32 \<Rightarrow> (bcache, nat) kop" where
  "bread me dev blockno =
     kbind (bget me dev blockno) (\<lambda>i.
     kbind (kget (\<lambda>s. b_valid (bufs s ! i))) (\<lambda>v.
     kseq (if \<not> v then iderw me i else kret ()) (kret i)))"

definition bwrite :: "nat \<Rightarrow> nat \<Rightarrow> (bcache, unit) kop" where
  "bwrite me i = (\<lambda>s.
     if \<not> holding_buf me i s then (Panic ''bwrite'', s)
     else iderw me i (upd_buf i (\<lambda>b. b\<lparr>b_dirty := True\<rparr>) s))"

definition brelse :: "nat \<Rightarrow> nat \<Rightarrow> (bcache, unit) kop" where
  "brelse me i = (\<lambda>s.
     if \<not> holding_buf me i s then (Panic ''brelse'', s)
     else let s1 = upd_buf i (\<lambda>b. b\<lparr>b_lock := snd (releasesleep i (b_lock b)), b_refcnt := b_refcnt b - 1\<rparr>) s
          in (Ret (), if b_refcnt (bufs s1 ! i) = 0 then s1\<lparr>mru := i # remove1 i (mru s1)\<rparr> else s1))"

text \<open>What a client does with a locked buffer: overwrite its data.\<close>

definition bset :: "nat \<Rightarrow> (block \<Rightarrow> block) \<Rightarrow> (bcache, unit) kop" where
  "bset i f = kmod (upd_buf i (\<lambda>b. b\<lparr>b_data := f (b_data b)\<rparr>))"

section \<open>Invariant\<close>

definition logical :: "bcache \<Rightarrow> u32 \<Rightarrow> u32 \<Rightarrow> block" where
  "logical s dev n =
     (case find (\<lambda>i. bkey (bufs s ! i) = (dev, n) \<and> b_valid (bufs s ! i)) [0..<length (bufs s)] of
        Some i \<Rightarrow> b_data (bufs s ! i)
      | None \<Rightarrow> disk s dev n)"

definition is_free :: "buf \<Rightarrow> bool" where
  "is_free b \<longleftrightarrow> b_refcnt b = 0 \<and> \<not> b_dirty b"

definition free_bufs :: "bcache \<Rightarrow> nat set" where
  "free_bufs s = {i. i < length (bufs s) \<and> is_free (bufs s ! i)}"

text \<open>
  \<^item> the list is a permutation of the array, and no two buffers have the same block of the disk;
  \<^item> a buffer is locked exactly when it has a reference (the cache is used by one process at a
    time), and its holder is \<open>me\<close>;
  \<^item> a buffer not in \<open>held\<close> that is valid and clean agrees with the disk; dirty ones are valid.
\<close>

definition binv :: "nat \<Rightarrow> nat set \<Rightarrow> bcache \<Rightarrow> bool" where
  "binv me held s \<longleftrightarrow>
     distinct (mru s) \<and> set (mru s) = {..<length (bufs s)} \<and> havedisk1 s \<and>
     (\<forall>i j. i < length (bufs s) \<longrightarrow> j < length (bufs s) \<longrightarrow> b_dev (bufs s ! i) \<noteq> 0 \<longrightarrow>
        bkey (bufs s ! i) = bkey (bufs s ! j) \<longrightarrow> i = j) \<and>
     held \<subseteq> {..<length (bufs s)} \<and>
     (\<forall>i\<in>held. b_lock (bufs s ! i) = \<lparr>sl_locked = True, sl_pid = me\<rparr> \<and> b_refcnt (bufs s ! i) = 1 \<and>
        b_valid (bufs s ! i)) \<and>
     (\<forall>i<length (bufs s). i \<notin> held \<longrightarrow> \<not> sl_locked (b_lock (bufs s ! i)) \<and> b_refcnt (bufs s ! i) = 0) \<and>
     (\<forall>i<length (bufs s). i \<notin> held \<longrightarrow> b_valid (bufs s ! i) \<longrightarrow> \<not> b_dirty (bufs s ! i) \<longrightarrow>
        b_data (bufs s ! i) = disk s (b_dev (bufs s ! i)) (b_blockno (bufs s ! i))) \<and>
     (\<forall>i<length (bufs s). b_dirty (bufs s ! i) \<longrightarrow> b_valid (bufs s ! i))"

lemma binvD:
  assumes "binv me held s"
  shows "distinct (mru s)" and "set (mru s) = {..<length (bufs s)}" and "havedisk1 s"
    and "\<And>i j. i < length (bufs s) \<Longrightarrow> j < length (bufs s) \<Longrightarrow> b_dev (bufs s ! i) \<noteq> 0 \<Longrightarrow>
      bkey (bufs s ! i) = bkey (bufs s ! j) \<Longrightarrow> i = j"
    and "held \<subseteq> {..<length (bufs s)}"
    and "\<And>i. i \<in> held \<Longrightarrow> b_lock (bufs s ! i) = \<lparr>sl_locked = True, sl_pid = me\<rparr> \<and>
      b_refcnt (bufs s ! i) = 1 \<and> b_valid (bufs s ! i) \<and> i < length (bufs s)"
    and "\<And>i. i < length (bufs s) \<Longrightarrow> i \<notin> held \<Longrightarrow> \<not> sl_locked (b_lock (bufs s ! i)) \<and> b_refcnt (bufs s ! i) = 0"
    and "\<And>i. i < length (bufs s) \<Longrightarrow> i \<notin> held \<Longrightarrow> b_valid (bufs s ! i) \<Longrightarrow> \<not> b_dirty (bufs s ! i) \<Longrightarrow>
      b_data (bufs s ! i) = disk s (b_dev (bufs s ! i)) (b_blockno (bufs s ! i))"
    and "\<And>i. i < length (bufs s) \<Longrightarrow> b_dirty (bufs s ! i) \<Longrightarrow> b_valid (bufs s ! i)"
  using assms unfolding binv_def by auto

lemma binvI:
  assumes "distinct (mru s)" and "set (mru s) = {..<length (bufs s)}" and "havedisk1 s"
    and "\<And>i j. i < length (bufs s) \<Longrightarrow> j < length (bufs s) \<Longrightarrow> b_dev (bufs s ! i) \<noteq> 0 \<Longrightarrow>
      bkey (bufs s ! i) = bkey (bufs s ! j) \<Longrightarrow> i = j"
    and "held \<subseteq> {..<length (bufs s)}"
    and "\<And>i. i \<in> held \<Longrightarrow> b_lock (bufs s ! i) = \<lparr>sl_locked = True, sl_pid = me\<rparr> \<and>
      b_refcnt (bufs s ! i) = 1 \<and> b_valid (bufs s ! i)"
    and "\<And>i. i < length (bufs s) \<Longrightarrow> i \<notin> held \<Longrightarrow> \<not> sl_locked (b_lock (bufs s ! i)) \<and> b_refcnt (bufs s ! i) = 0"
    and "\<And>i. i < length (bufs s) \<Longrightarrow> i \<notin> held \<Longrightarrow> b_valid (bufs s ! i) \<Longrightarrow> \<not> b_dirty (bufs s ! i) \<Longrightarrow>
      b_data (bufs s ! i) = disk s (b_dev (bufs s ! i)) (b_blockno (bufs s ! i))"
    and "\<And>i. i < length (bufs s) \<Longrightarrow> b_dirty (bufs s ! i) \<Longrightarrow> b_valid (bufs s ! i)"
  shows "binv me held s"
  unfolding binv_def using assms by simp

lemma upd_buf_simps [simp]:
  "mru (upd_buf i f s) = mru s" "disk (upd_buf i f s) = disk s" "havedisk1 (upd_buf i f s) = havedisk1 s"
  "disk_writes (upd_buf i f s) = disk_writes s" "length (bufs (upd_buf i f s)) = length (bufs s)"
  by (simp_all add: upd_buf_def)

lemma upd_buf_nth: "i < length (bufs s) \<Longrightarrow> bufs (upd_buf i f s) ! j = (if j = i then f (bufs s ! i) else bufs s ! j)"
  by (simp add: upd_buf_def)

lemma upd_buf_upd_buf: "i < length (bufs s) \<Longrightarrow> upd_buf i g (upd_buf i f s) = upd_buf i (g \<circ> f) s"
  by (simp add: upd_buf_def)

lemma logical_cached:
  assumes "binv me held s" and "i < length (bufs s)" and "bkey (bufs s ! i) = (dev, n)" and "dev \<noteq> 0"
    and "b_valid (bufs s ! i)"
  shows "logical s dev n = b_data (bufs s ! i)"
proof -
  let ?P = "\<lambda>i. bkey (bufs s ! i) = (dev, n) \<and> b_valid (bufs s ! i)"
  have "find ?P [0..<length (bufs s)] \<noteq> None" using assms(2,3,5) by (auto simp: find_None_iff)
  then obtain j where j: "find ?P [0..<length (bufs s)] = Some j" by blast
  then have "j < length (bufs s)" "?P j" by (auto simp: find_Some_iff)
  with assms binvD(4) [OF assms(1), of j i] have "j = i" by (auto simp: bkey_def)
  with j show ?thesis by (simp add: logical_def)
qed

lemma logical_uncached:
  assumes "\<And>i. i < length (bufs s) \<Longrightarrow> b_valid (bufs s ! i) \<Longrightarrow> bkey (bufs s ! i) \<noteq> (dev, n)"
  shows "logical s dev n = disk s dev n"
proof -
  have "find (\<lambda>i. bkey (bufs s ! i) = (dev, n) \<and> b_valid (bufs s ! i)) [0..<length (bufs s)] = None"
    using assms by (auto simp: find_None_iff)
  then show ?thesis by (simp add: logical_def)
qed

lemma sl_upd [simp]: "(l :: sleeplock)\<lparr>sl_locked := a, sl_pid := b\<rparr> = \<lparr>sl_locked = a, sl_pid = b\<rparr>"
  by (cases l) simp

definition take_buf :: "nat \<Rightarrow> u32 \<Rightarrow> u32 \<Rightarrow> nat \<Rightarrow> bcache \<Rightarrow> bcache" where
  "take_buf me dev n i s = upd_buf i (\<lambda>b. b\<lparr>b_valid := True, b_dev := dev, b_blockno := n,
     b_lock := \<lparr>sl_locked = True, sl_pid = me\<rparr>, b_refcnt := 1, b_data := logical s dev n\<rparr>) s"

definition bcached :: "bcache \<Rightarrow> u32 \<Rightarrow> u32 \<Rightarrow> bool" where
  "bcached s dev n \<longleftrightarrow> (\<exists>i<length (bufs s). bkey (bufs s ! i) = (dev, n))"

text \<open>The buffer \<^verbatim>\<open>bread\<close> picks: the one that has the block, or else a free one.\<close>

definition bpick :: "bcache \<Rightarrow> u32 \<Rightarrow> u32 \<Rightarrow> nat \<Rightarrow> bool" where
  "bpick s dev n i \<longleftrightarrow> i < length (bufs s) \<and>
     (if bcached s dev n then bkey (bufs s ! i) = (dev, n) else is_free (bufs s ! i))"

lemma find_SomeD: "find P xs = Some x \<Longrightarrow> x \<in> set xs \<and> P x"
  by (auto simp: find_Some_iff in_set_conv_nth)

lemma bread_exec:
  assumes inv: "binv me held s" and "dev \<noteq> 0" and "n < FSSIZE"
    and nh: "\<And>i. i \<in> held \<Longrightarrow> bkey (bufs s ! i) \<noteq> (dev, n)"
    and room: "bcached s dev n \<or> free_bufs s \<noteq> {}"
  shows "\<exists>i. bread me dev n s = (Ret i, take_buf me dev n i s) \<and> bpick s dev n i \<and> i \<notin> held"
proof -
  note D = binvD [OF inv]
  let ?P = "\<lambda>i. bkey (bufs s ! i) = (dev, n)"
  let ?F = "\<lambda>i. b_refcnt (bufs s ! i) = 0 \<and> \<not> b_dirty (bufs s ! i)"
  show ?thesis
  proof (cases "find ?P (mru s)")
    case (Some i)
    then have i: "i < length (bufs s)" "?P i" using D(2) by (auto simp: find_Some_iff)
    have nhi: "i \<notin> held" using nh i(2) by blast
    have c: "bcached s dev n" using i by (auto simp: bcached_def)
    have free: "\<not> sl_locked (b_lock (bufs s ! i))" "b_refcnt (bufs s ! i) = 0" using D(7) [OF i(1) nhi] by auto
    define u where "u = upd_buf i (\<lambda>b. b\<lparr>b_refcnt := 1, b_lock := \<lparr>sl_locked = True, sl_pid = me\<rparr>\<rparr>) s"
    have bg: "bget me dev n s = (Ret i, u)"
      using Some i free
      by (simp add: bget_def kop_defs lock_buf_def zoom_def acquiresleep_def upd_buf_def u_def)
    have ui: "bufs u ! i = (bufs s ! i)\<lparr>b_refcnt := 1, b_lock := \<lparr>sl_locked = True, sl_pid = me\<rparr>\<rparr>"
      using i by (simp add: u_def upd_buf_nth)
    have "bread me dev n s = (Ret i, take_buf me dev n i s)"
    proof (cases "b_valid (bufs s ! i)")
      case True
      have "(bufs s ! i)\<lparr>b_valid := True, b_dev := dev, b_blockno := n, b_lock := \<lparr>sl_locked = True, sl_pid = me\<rparr>,
          b_refcnt := 1, b_data := logical s dev n\<rparr> = bufs u ! i"
        using i(2) True logical_cached [OF inv i(1,2) assms(2) True] ui
        by (intro buf.equality) (simp_all add: bkey_def)
      then have "take_buf me dev n i s = u" using ui by (simp add: take_buf_def u_def upd_buf_def)
      then show ?thesis using bg ui True by (simp add: bread_def kop_defs)
    next
      case False
      have nd: "\<not> b_dirty (bufs s ! i)" using D(9) [OF i(1)] False by blast
      have l: "logical s dev n = disk s dev n"
        using D(4) [OF i(1)] i(2) assms(2) False by (intro logical_uncached) (metis bkey_def fst_conv)
      have hb: "holding_buf me i u" using ui by (simp add: holding_buf_def holdingsleep_def kget_def)
      have "iderw me i u = (Ret (), ide_transfer i u)"
        using ui hb False i(2) assms(2,3) D(3)
        by (simp add: iderw_def bkey_def not_le Let_def) (simp add: u_def)
      moreover have "ide_transfer i u = take_buf me dev n i s"
      proof -
        have "(bufs u ! i)\<lparr>b_valid := True, b_data := disk s dev n\<rparr> =
            (bufs s ! i)\<lparr>b_valid := True, b_dev := dev, b_blockno := n, b_lock := \<lparr>sl_locked = True, sl_pid = me\<rparr>,
              b_refcnt := 1, b_data := logical s dev n\<rparr>"
          using ui i(2) l by (intro buf.equality) (simp_all add: bkey_def)
        then show ?thesis
          using ui nd i by (simp add: ide_transfer_def take_buf_def bkey_def) (simp add: u_def upd_buf_def)
      qed
      ultimately show ?thesis using bg ui False by (simp add: bread_def kop_defs)
    qed
    then show ?thesis using i nhi c by (auto simp: bpick_def)
  next
    case None
    then have nc: "\<not> bcached s dev n" using D(2) by (auto simp: bcached_def find_None_iff)
    with room obtain j where "j < length (bufs s)" "?F j" by (auto simp: free_bufs_def is_free_def)
    then have "find ?F (rev (mru s)) \<noteq> None" using D(2) by (auto simp: find_None_iff)
    then obtain i where fi: "find ?F (rev (mru s)) = Some i" by blast
    then have "i \<in> set (rev (mru s))" "?F i" by (auto dest: find_SomeD)
    then have i: "i < length (bufs s)" "?F i" using D(2) by auto
    have nhi: "i \<notin> held" using D(6) i(2) by force
    have ul: "\<not> sl_locked (b_lock (bufs s ! i))" using D(7) [OF i(1) nhi] by auto
    define u where "u = upd_buf i (\<lambda>b. b\<lparr>b_dev := dev, b_blockno := n, b_valid := False, b_dirty := False,
       b_refcnt := 1, b_lock := \<lparr>sl_locked = True, sl_pid = me\<rparr>\<rparr>) s"
    have bg: "bget me dev n s = (Ret i, u)"
      using None fi i ul
      by (simp add: bget_def kop_defs lock_buf_def zoom_def acquiresleep_def upd_buf_def u_def)
    have ui: "bufs u ! i = (bufs s ! i)\<lparr>b_dev := dev, b_blockno := n, b_valid := False, b_dirty := False,
       b_refcnt := 1, b_lock := \<lparr>sl_locked = True, sl_pid = me\<rparr>\<rparr>"
      using i by (simp add: u_def upd_buf_nth)
    have l: "logical s dev n = disk s dev n"
      using nc by (intro logical_uncached) (auto simp: bcached_def)
    have hb: "holding_buf me i u" using ui by (simp add: holding_buf_def holdingsleep_def kget_def)
    have "iderw me i u = (Ret (), ide_transfer i u)"
      using ui hb assms(2,3) D(3) by (simp add: iderw_def not_le Let_def) (simp add: u_def)
    moreover have "ide_transfer i u = take_buf me dev n i s"
    proof -
      have "(bufs u ! i)\<lparr>b_valid := True, b_data := disk s dev n\<rparr> =
          (bufs s ! i)\<lparr>b_valid := True, b_dev := dev, b_blockno := n, b_lock := \<lparr>sl_locked = True, sl_pid = me\<rparr>,
            b_refcnt := 1, b_data := logical s dev n\<rparr>"
        using ui i(2) l by (intro buf.equality) simp_all
      then show ?thesis
        using ui i(1) by (simp add: ide_transfer_def take_buf_def) (simp add: u_def upd_buf_def)
    qed
    ultimately have "bread me dev n s = (Ret i, take_buf me dev n i s)"
      using bg ui by (simp add: bread_def kop_defs)
    then show ?thesis using i nhi nc by (auto simp: bpick_def is_free_def)
  qed
qed

lemma take_buf_nth:
  "i < length (bufs s) \<Longrightarrow> bufs (take_buf me dev n i s) ! j =
     (if j = i then (bufs s ! i)\<lparr>b_valid := True, b_dev := dev, b_blockno := n,
        b_lock := \<lparr>sl_locked = True, sl_pid = me\<rparr>, b_refcnt := 1, b_data := logical s dev n\<rparr> else bufs s ! j)"
  by (simp add: take_buf_def upd_buf_nth)

lemma take_buf_simps [simp]:
  "mru (take_buf me dev n i s) = mru s" "disk (take_buf me dev n i s) = disk s"
  "havedisk1 (take_buf me dev n i s) = havedisk1 s" "disk_writes (take_buf me dev n i s) = disk_writes s"
  "length (bufs (take_buf me dev n i s)) = length (bufs s)"
  by (simp_all add: take_buf_def)

lemma bkey_upd [simp]:
  "bkey (b\<lparr>b_valid := v\<rparr>) = bkey b" "bkey (b\<lparr>b_dirty := d\<rparr>) = bkey b" "bkey (b\<lparr>b_lock := l\<rparr>) = bkey b"
  "bkey (b\<lparr>b_refcnt := r\<rparr>) = bkey b" "bkey (b\<lparr>b_data := x\<rparr>) = bkey b"
  "bkey (b\<lparr>b_dev := dv, b_blockno := n\<rparr>) = (dv, n)"
  by (simp_all add: bkey_def)

definition dirty_blocks :: "bcache \<Rightarrow> (u32 \<times> u32) set" where
  "dirty_blocks s = {k. \<exists>i<length (bufs s). bkey (bufs s ! i) = k \<and> b_dirty (bufs s ! i)}"

lemma bpick_key:
  assumes "binv me held s" and "dev \<noteq> 0" and "bpick s dev n i"
  shows "\<And>j. j < length (bufs s) \<Longrightarrow> bkey (bufs s ! j) = (dev, n) \<Longrightarrow> j = i"
proof -
  fix j assume j: "j < length (bufs s)" "bkey (bufs s ! j) = (dev, n)"
  then have "bcached s dev n" by (auto simp: bcached_def)
  with assms(3) have "bkey (bufs s ! i) = (dev, n)" "i < length (bufs s)" by (simp_all add: bpick_def)
  then show "j = i" using binvD(4) [OF assms(1) j(1)] j assms(2) by (auto simp: bkey_def)
qed

lemma take_buf_binv:
  assumes "binv me held s" and "dev \<noteq> 0" and "bpick s dev n i" and "i \<notin> held"
  shows "binv me (insert i held) (take_buf me dev n i s)"
proof -
  note D = binvD [OF assms(1)]
  have i: "i < length (bufs s)" using assms(3) by (simp add: bpick_def)
  note K = bpick_key [OF assms(1-3)]
  note nth = take_buf_nth [OF i]
  show ?thesis
  proof (rule binvI)
    fix j k assume jk: "j < length (bufs (take_buf me dev n i s))" "k < length (bufs (take_buf me dev n i s))"
      "b_dev (bufs (take_buf me dev n i s) ! j) \<noteq> 0"
      "bkey (bufs (take_buf me dev n i s) ! j) = bkey (bufs (take_buf me dev n i s) ! k)"
    have kt: "bkey (bufs (take_buf me dev n i s) ! x) = (if x = i then (dev, n) else bkey (bufs s ! x))" for x
      by (simp add: nth bkey_def)
    show "j = k"
    proof (cases "j = i \<or> k = i")
      case True
      then show ?thesis using jk(1,2,4) K [of j] K [of k] unfolding kt by (metis take_buf_simps(5))
    next
      case False
      then show ?thesis using jk D(4) [of j k] by (simp add: nth)
    qed
  next
    show "distinct (mru (take_buf me dev n i s))" "havedisk1 (take_buf me dev n i s)"
      "set (mru (take_buf me dev n i s)) = {..<length (bufs (take_buf me dev n i s))}"
      using D(1-3) by simp_all
    show "insert i held \<subseteq> {..<length (bufs (take_buf me dev n i s))}" using D(5) i by simp
    fix j
    show "b_lock (bufs (take_buf me dev n i s) ! j) = \<lparr>sl_locked = True, sl_pid = me\<rparr> \<and>
        b_refcnt (bufs (take_buf me dev n i s) ! j) = 1 \<and> b_valid (bufs (take_buf me dev n i s) ! j)"
      if "j \<in> insert i held" using D(6) [of j] that by (cases "j = i") (simp_all add: nth)
    assume j: "j < length (bufs (take_buf me dev n i s))"
    show "b_dirty (bufs (take_buf me dev n i s) ! j) \<Longrightarrow> b_valid (bufs (take_buf me dev n i s) ! j)"
      using D(9) [of j] j by (simp add: nth split: if_splits)
    assume nj: "j \<notin> insert i held"
    show "\<not> sl_locked (b_lock (bufs (take_buf me dev n i s) ! j)) \<and> b_refcnt (bufs (take_buf me dev n i s) ! j) = 0"
      using D(7) [of j] j nj by (simp add: nth)
    show "b_valid (bufs (take_buf me dev n i s) ! j) \<Longrightarrow> \<not> b_dirty (bufs (take_buf me dev n i s) ! j) \<Longrightarrow>
        b_data (bufs (take_buf me dev n i s) ! j) =
        disk (take_buf me dev n i s) (b_dev (bufs (take_buf me dev n i s) ! j)) (b_blockno (bufs (take_buf me dev n i s) ! j))"
      using D(8) [of j] j nj by (simp add: nth)
  qed
qed

lemma take_buf_logical:
  assumes "binv me held s" and "dev \<noteq> 0" and "bpick s dev n i" and "i \<notin> held" and "d \<noteq> 0"
  shows "logical (take_buf me dev n i s) d m = logical s d m"
proof -
  let ?t = "take_buf me dev n i s"
  note D = binvD [OF assms(1)]
  have i: "i < length (bufs s)" using assms(3) by (simp add: bpick_def)
  note K = bpick_key [OF assms(1-3)]
  note nth = take_buf_nth [OF i]
  have inv: "binv me (insert i held) ?t" using take_buf_binv [OF assms(1-4)] .
  show ?thesis
  proof (cases "(d, m) = (dev, n)")
    case True
    then have "logical ?t d m = b_data (bufs ?t ! i)"
      using i assms(2) by (intro logical_cached [OF inv]) (simp_all add: nth bkey_def)
    then show ?thesis using True by (simp add: nth)
  next
    case False
    show ?thesis
    proof (cases "\<exists>j<length (bufs s). j \<noteq> i \<and> bkey (bufs s ! j) = (d, m) \<and> b_valid (bufs s ! j)")
      case True
      then obtain j where j: "j < length (bufs s)" "j \<noteq> i" "bkey (bufs s ! j) = (d, m)" "b_valid (bufs s ! j)"
        by blast
      have "logical ?t d m = b_data (bufs ?t ! j)"
        using j assms(5) by (intro logical_cached [OF inv]) (simp_all add: nth)
      moreover have "logical s d m = b_data (bufs s ! j)"
        using j assms(5) by (intro logical_cached [OF assms(1)])
      ultimately show ?thesis using j by (simp add: nth)
    next
      case none: False
      have t: "logical ?t d m = disk s d m"
      proof (subst logical_uncached)
        fix j assume j: "j < length (bufs ?t)" "b_valid (bufs ?t ! j)"
        show "bkey (bufs ?t ! j) \<noteq> (d, m)"
        proof (cases "j = i")
          case True
          then show ?thesis using False by (auto simp: nth bkey_def)
        next
          case ji: False
          then have "b_valid (bufs s ! j)" "j < length (bufs s)" using j by (simp_all add: nth)
          then show ?thesis using none ji by (simp add: nth) blast
        qed
      qed simp
      have "logical s d m = disk s d m"
      proof (cases "bkey (bufs s ! i) = (d, m) \<and> b_valid (bufs s ! i)")
        case True
        then have "\<not> bcached s dev n" using assms(3) False by (auto simp: bpick_def)
        then have "\<not> b_dirty (bufs s ! i)" using assms(3) by (simp add: bpick_def is_free_def)
        then have "b_data (bufs s ! i) = disk s d m" using D(8) [OF i assms(4)] True by (simp add: bkey_def)
        then show ?thesis using logical_cached [OF assms(1) i _ assms(5)] True by metis
      next
        case False
        then show ?thesis using none by (intro logical_uncached) blast
      qed
      with t show ?thesis by simp
    qed
  qed
qed

lemma upd_held_binv:
  assumes "binv me held s" and "i \<in> held"
    and "bkey (f (bufs s ! i)) = bkey (bufs s ! i)" and "b_lock (f (bufs s ! i)) = b_lock (bufs s ! i)"
    and "b_refcnt (f (bufs s ! i)) = b_refcnt (bufs s ! i)" and "b_valid (f (bufs s ! i))"
  shows "binv me held (upd_buf i f s)"
proof -
  note D = binvD [OF assms(1)]
  have i: "i < length (bufs s)" using D(6) [OF assms(2)] by simp
  note nth = upd_buf_nth [OF i]
  have dev: "b_dev (f (bufs s ! i)) = b_dev (bufs s ! i)" using assms(3) by (simp add: bkey_def)
  show ?thesis
  proof (rule binvI)
    fix j k assume jk: "j < length (bufs (upd_buf i f s))" "k < length (bufs (upd_buf i f s))"
      "b_dev (bufs (upd_buf i f s) ! j) \<noteq> 0" "bkey (bufs (upd_buf i f s) ! j) = bkey (bufs (upd_buf i f s) ! k)"
    have "bkey (bufs (upd_buf i f s) ! j) = bkey (bufs s ! j)" "bkey (bufs (upd_buf i f s) ! k) = bkey (bufs s ! k)"
      "b_dev (bufs (upd_buf i f s) ! j) = b_dev (bufs s ! j)"
      using assms(3) dev by (simp_all add: nth)
    then show "j = k" using jk D(4) [of j k] by simp
  next
    show "distinct (mru (upd_buf i f s))" "havedisk1 (upd_buf i f s)" "held \<subseteq> {..<length (bufs (upd_buf i f s))}"
      "set (mru (upd_buf i f s)) = {..<length (bufs (upd_buf i f s))}"
      using D(1-3,5) by simp_all
    fix j
    show "b_lock (bufs (upd_buf i f s) ! j) = \<lparr>sl_locked = True, sl_pid = me\<rparr> \<and>
        b_refcnt (bufs (upd_buf i f s) ! j) = 1 \<and> b_valid (bufs (upd_buf i f s) ! j)" if "j \<in> held"
      using D(6) [OF that] D(6) [OF assms(2)] assms(4-6) by (simp add: nth)
    assume j: "j < length (bufs (upd_buf i f s))"
    show "b_dirty (bufs (upd_buf i f s) ! j) \<Longrightarrow> b_valid (bufs (upd_buf i f s) ! j)"
      using D(9) [of j] j assms(6) by (simp add: nth split: if_splits)
    assume nj: "j \<notin> held"
    then have ji: "j \<noteq> i" using assms(2) by blast
    show "\<not> sl_locked (b_lock (bufs (upd_buf i f s) ! j)) \<and> b_refcnt (bufs (upd_buf i f s) ! j) = 0"
      using D(7) [of j] j nj ji by (simp add: nth)
    show "b_valid (bufs (upd_buf i f s) ! j) \<Longrightarrow> \<not> b_dirty (bufs (upd_buf i f s) ! j) \<Longrightarrow>
        b_data (bufs (upd_buf i f s) ! j) =
        disk (upd_buf i f s) (b_dev (bufs (upd_buf i f s) ! j)) (b_blockno (bufs (upd_buf i f s) ! j))"
      using D(8) [of j] j nj ji by (simp add: nth)
  qed
qed

lemma upd_held_logical:
  assumes "binv me held s" and "i \<in> held"
    and "bkey (f (bufs s ! i)) = bkey (bufs s ! i)" and "b_lock (f (bufs s ! i)) = b_lock (bufs s ! i)"
    and "b_refcnt (f (bufs s ! i)) = b_refcnt (bufs s ! i)" and "b_valid (f (bufs s ! i))" and "d \<noteq> 0"
  shows "logical (upd_buf i f s) d m =
    (if bkey (bufs s ! i) = (d, m) then b_data (f (bufs s ! i)) else logical s d m)"
proof -
  note D = binvD [OF assms(1)]
  have i: "i < length (bufs s)" using D(6) [OF assms(2)] by simp
  note nth = upd_buf_nth [OF i]
  have inv: "binv me held (upd_buf i f s)" by (rule upd_held_binv) (fact assms)+
  show ?thesis
  proof (cases "bkey (bufs s ! i) = (d, m)")
    case True
    then show ?thesis
      using logical_cached [OF inv, of i d m] i assms(3,6,7) by (simp add: nth)
  next
    case ki: False
    show ?thesis
    proof (cases "\<exists>j<length (bufs s). bkey (bufs s ! j) = (d, m) \<and> b_valid (bufs s ! j)")
      case True
      then obtain j where j: "j < length (bufs s)" "bkey (bufs s ! j) = (d, m)" "b_valid (bufs s ! j)" by blast
      then have ji: "j \<noteq> i" using ki by auto
      have "logical (upd_buf i f s) d m = b_data (bufs (upd_buf i f s) ! j)"
        using j ji assms(7) by (intro logical_cached [OF inv]) (simp_all add: nth)
      moreover have "logical s d m = b_data (bufs s ! j)" using j assms(7) by (intro logical_cached [OF assms(1)])
      ultimately show ?thesis using ki ji by (simp add: nth)
    next
      case none: False
      have "logical (upd_buf i f s) d m = disk (upd_buf i f s) d m"
      proof (rule logical_uncached)
        fix j assume j: "j < length (bufs (upd_buf i f s))" "b_valid (bufs (upd_buf i f s) ! j)"
        show "bkey (bufs (upd_buf i f s) ! j) \<noteq> (d, m)"
        proof (cases "j = i")
          case True
          then show ?thesis using ki assms(3) by (simp add: nth)
        next
          case False
          then have "b_valid (bufs s ! j)" "j < length (bufs s)" using j by (simp_all add: nth)
          then show ?thesis using none False by (simp add: nth) blast
        qed
      qed
      moreover have "logical s d m = disk s d m" using none by (intro logical_uncached) blast
      ultimately show ?thesis using ki by simp
    qed
  qed
qed

text \<open>Giving a buffer back.\<close>

definition give_buf :: "nat \<Rightarrow> bcache \<Rightarrow> bcache" where
  "give_buf i s = (upd_buf i (\<lambda>b. b\<lparr>b_lock := \<lparr>sl_locked = False, sl_pid = 0\<rparr>, b_refcnt := 0\<rparr>) s)\<lparr>mru := i # remove1 i (mru s)\<rparr>"

lemma give_buf_simps [simp]:
  "disk (give_buf i s) = disk s" "havedisk1 (give_buf i s) = havedisk1 s"
  "disk_writes (give_buf i s) = disk_writes s" "length (bufs (give_buf i s)) = length (bufs s)"
  "mru (give_buf i s) = i # remove1 i (mru s)"
  by (simp_all add: give_buf_def upd_buf_def)

lemma give_buf_nth:
  "i < length (bufs s) \<Longrightarrow> bufs (give_buf i s) ! j =
     (if j = i then (bufs s ! i)\<lparr>b_lock := \<lparr>sl_locked = False, sl_pid = 0\<rparr>, b_refcnt := 0\<rparr> else bufs s ! j)"
  by (simp add: give_buf_def upd_buf_def)

lemma held_holding: "binv me held s \<Longrightarrow> i \<in> held \<Longrightarrow> holding_buf me i s"
  using binvD(6) [of me held s i] by (simp add: holding_buf_def holdingsleep_def kget_def)

lemma brelse_exec:
  assumes "binv me held s" and "i \<in> held"
  shows "brelse me i s = (Ret (), give_buf i s)"
proof -
  have i: "i < length (bufs s)" "b_refcnt (bufs s ! i) = 1" using binvD(6) [OF assms] by auto
  show ?thesis
    using held_holding [OF assms] i
    by (simp add: brelse_def releasesleep_def upd_buf_nth Let_def) (simp add: give_buf_def upd_buf_def)
qed

lemma give_buf_binv:
  assumes "binv me held s" and "i \<in> held"
    and "b_dirty (bufs s ! i) \<or> b_data (bufs s ! i) = disk s (b_dev (bufs s ! i)) (b_blockno (bufs s ! i))"
  shows "binv me (held - {i}) (give_buf i s)"
proof -
  note D = binvD [OF assms(1)]
  have i: "i < length (bufs s)" using D(6) [OF assms(2)] by simp
  note nth = give_buf_nth [OF i]
  have key: "bkey (bufs (give_buf i s) ! j) = bkey (bufs s ! j)" "b_dev (bufs (give_buf i s) ! j) = b_dev (bufs s ! j)"
    "b_blockno (bufs (give_buf i s) ! j) = b_blockno (bufs s ! j)" "b_data (bufs (give_buf i s) ! j) = b_data (bufs s ! j)"
    "b_valid (bufs (give_buf i s) ! j) = b_valid (bufs s ! j)" "b_dirty (bufs (give_buf i s) ! j) = b_dirty (bufs s ! j)" for j
    by (simp_all add: nth)
  show ?thesis
  proof (rule binvI)
    fix j k assume "j < length (bufs (give_buf i s))" "k < length (bufs (give_buf i s))"
      "b_dev (bufs (give_buf i s) ! j) \<noteq> 0" "bkey (bufs (give_buf i s) ! j) = bkey (bufs (give_buf i s) ! k)"
    then show "j = k" using D(4) [of j k] by (simp add: key)
  next
    show "distinct (mru (give_buf i s))" using D(1) by simp
    show "set (mru (give_buf i s)) = {..<length (bufs (give_buf i s))}" using D(1,2) i by auto
    show "havedisk1 (give_buf i s)" "held - {i} \<subseteq> {..<length (bufs (give_buf i s))}" using D(3,5) by auto
    fix j
    show "b_lock (bufs (give_buf i s) ! j) = \<lparr>sl_locked = True, sl_pid = me\<rparr> \<and>
        b_refcnt (bufs (give_buf i s) ! j) = 1 \<and> b_valid (bufs (give_buf i s) ! j)" if "j \<in> held - {i}"
      using D(6) [of j] that by (simp add: nth)
    assume j: "j < length (bufs (give_buf i s))"
    show "b_dirty (bufs (give_buf i s) ! j) \<Longrightarrow> b_valid (bufs (give_buf i s) ! j)"
      using D(9) [of j] j by (simp add: key)
    assume nj: "j \<notin> held - {i}"
    show "\<not> sl_locked (b_lock (bufs (give_buf i s) ! j)) \<and> b_refcnt (bufs (give_buf i s) ! j) = 0"
      using D(7) [of j] j nj by (cases "j = i") (simp_all add: nth)
    show "b_valid (bufs (give_buf i s) ! j) \<Longrightarrow> \<not> b_dirty (bufs (give_buf i s) ! j) \<Longrightarrow>
        b_data (bufs (give_buf i s) ! j) =
        disk (give_buf i s) (b_dev (bufs (give_buf i s) ! j)) (b_blockno (bufs (give_buf i s) ! j))"
      using D(8) [of j] j nj assms(3) by (cases "j = i") (simp_all add: key)
  qed
qed

lemma logical_cong:
  assumes "length (bufs t) = length (bufs s)" and "disk t d m = disk s d m"
    and "\<And>j. bkey (bufs t ! j) = bkey (bufs s ! j)" and "\<And>j. b_valid (bufs t ! j) = b_valid (bufs s ! j)"
    and "\<And>j. b_data (bufs t ! j) = b_data (bufs s ! j)"
  shows "logical t d m = logical s d m"
  using assms by (simp add: logical_def split: option.split)

lemma give_buf_logical:
  "i < length (bufs s) \<Longrightarrow> logical (give_buf i s) d m = logical s d m"
  by (rule logical_cong) (simp_all add: give_buf_nth)

text \<open>Writing a held buffer through to the disk.\<close>

definition put_disk :: "nat \<Rightarrow> bcache \<Rightarrow> bcache" where
  "put_disk i s = (let b = bufs s ! i in
     upd_buf i (\<lambda>b. b\<lparr>b_dirty := False\<rparr>)
       (s\<lparr>disk := (disk s)(b_dev b := (disk s (b_dev b))(b_blockno b := b_data b)),
          disk_writes := disk_writes s @ [(b_dev b, b_blockno b, b_data b)]\<rparr>))"

lemma put_disk_simps [simp]:
  "mru (put_disk i s) = mru s" "havedisk1 (put_disk i s) = havedisk1 s" "length (bufs (put_disk i s)) = length (bufs s)"
  "disk_writes (put_disk i s) = disk_writes s @ [(b_dev (bufs s ! i), b_blockno (bufs s ! i), b_data (bufs s ! i))]"
  "disk (put_disk i s) = (disk s)(b_dev (bufs s ! i) :=
     (disk s (b_dev (bufs s ! i)))(b_blockno (bufs s ! i) := b_data (bufs s ! i)))"
  by (simp_all add: put_disk_def Let_def)

lemma put_disk_nth:
  "i < length (bufs s) \<Longrightarrow> bufs (put_disk i s) ! j = (if j = i then (bufs s ! i)\<lparr>b_dirty := False\<rparr> else bufs s ! j)"
  by (simp add: put_disk_def upd_buf_def Let_def)

lemma bwrite_exec:
  assumes "binv me held s" and "i \<in> held" and "b_blockno (bufs s ! i) < FSSIZE"
  shows "bwrite me i s = (Ret (), put_disk i s)"
proof -
  note D = binvD [OF assms(1)]
  have i: "i < length (bufs s)" "b_valid (bufs s ! i)" using D(6) [OF assms(2)] by auto
  let ?u = "upd_buf i (\<lambda>b. b\<lparr>b_dirty := True\<rparr>) s"
  have ui: "bufs ?u ! i = (bufs s ! i)\<lparr>b_dirty := True\<rparr>" using i by (simp add: upd_buf_nth)
  have "holding_buf me i ?u" using held_holding [OF assms(1,2)] ui by (simp add: holding_buf_def)
  then have "iderw me i ?u = (Ret (), ide_transfer i ?u)"
    using ui assms(3) D(3) by (simp add: iderw_def not_le Let_def)
  moreover have "ide_transfer i ?u = put_disk i s"
  proof -
    have eq: "(bufs s ! i)\<lparr>b_valid := True, b_dirty := False\<rparr> = (bufs s ! i)\<lparr>b_dirty := False\<rparr>"
      using i(2) by (intro buf.equality) simp_all
    show ?thesis
      using ui i by (simp add: ide_transfer_def put_disk_def Let_def) (simp add: upd_buf_def eq)
  qed
  ultimately show ?thesis using held_holding [OF assms(1,2)] by (simp add: bwrite_def)
qed

lemma put_disk_binv:
  assumes "binv me held s" and "i \<in> held" and "b_dev (bufs s ! i) \<noteq> 0"
  shows "binv me held (put_disk i s)"
proof -
  note D = binvD [OF assms(1)]
  have i: "i < length (bufs s)" using D(6) [OF assms(2)] by simp
  note nth = put_disk_nth [OF i]
  have same: "bkey (bufs (put_disk i s) ! j) = bkey (bufs s ! j)" "b_dev (bufs (put_disk i s) ! j) = b_dev (bufs s ! j)"
    "b_blockno (bufs (put_disk i s) ! j) = b_blockno (bufs s ! j)" "b_data (bufs (put_disk i s) ! j) = b_data (bufs s ! j)"
    "b_valid (bufs (put_disk i s) ! j) = b_valid (bufs s ! j)" "b_lock (bufs (put_disk i s) ! j) = b_lock (bufs s ! j)"
    "b_refcnt (bufs (put_disk i s) ! j) = b_refcnt (bufs s ! j)" for j
    by (simp_all add: nth)
  show ?thesis
  proof (rule binvI)
    fix j k assume "j < length (bufs (put_disk i s))" "k < length (bufs (put_disk i s))"
      "b_dev (bufs (put_disk i s) ! j) \<noteq> 0" "bkey (bufs (put_disk i s) ! j) = bkey (bufs (put_disk i s) ! k)"
    then show "j = k" using D(4) [of j k] by (simp add: same)
  next
    show "distinct (mru (put_disk i s))" "havedisk1 (put_disk i s)" "held \<subseteq> {..<length (bufs (put_disk i s))}"
      "set (mru (put_disk i s)) = {..<length (bufs (put_disk i s))}"
      using D(1-3,5) by simp_all
    fix j
    show "b_lock (bufs (put_disk i s) ! j) = \<lparr>sl_locked = True, sl_pid = me\<rparr> \<and>
        b_refcnt (bufs (put_disk i s) ! j) = 1 \<and> b_valid (bufs (put_disk i s) ! j)" if "j \<in> held"
      using D(6) [OF that] by (simp add: same)
    assume j: "j < length (bufs (put_disk i s))"
    show "b_dirty (bufs (put_disk i s) ! j) \<Longrightarrow> b_valid (bufs (put_disk i s) ! j)"
      using D(9) [of j] j by (simp add: nth split: if_splits)
    assume nj: "j \<notin> held"
    then have ji: "j \<noteq> i" using assms(2) by blast
    show "\<not> sl_locked (b_lock (bufs (put_disk i s) ! j)) \<and> b_refcnt (bufs (put_disk i s) ! j) = 0"
      using D(7) [of j] j nj by (simp add: same)
    have "\<not> (b_dev (bufs s ! i) = b_dev (bufs s ! j) \<and> b_blockno (bufs s ! i) = b_blockno (bufs s ! j))"
      using D(4) [of i j] i j ji assms(3) by (auto simp: bkey_def)
    then show "b_valid (bufs (put_disk i s) ! j) \<Longrightarrow> \<not> b_dirty (bufs (put_disk i s) ! j) \<Longrightarrow>
        b_data (bufs (put_disk i s) ! j) =
        disk (put_disk i s) (b_dev (bufs (put_disk i s) ! j)) (b_blockno (bufs (put_disk i s) ! j))"
      using D(8) [of j] j nj ji by (auto simp: nth)
  qed
qed

lemma put_disk_logical:
  assumes "binv me held s" and "i \<in> held" and "b_dev (bufs s ! i) \<noteq> 0" and "d \<noteq> 0"
  shows "logical (put_disk i s) d m = logical s d m"
proof -
  note D = binvD [OF assms(1)]
  have i: "i < length (bufs s)" "b_valid (bufs s ! i)" using D(6) [OF assms(2)] by auto
  note nth = put_disk_nth [OF i(1)]
  show ?thesis
  proof (cases "bkey (bufs s ! i) = (d, m)")
    case True
    have "logical (put_disk i s) d m = b_data (bufs (put_disk i s) ! i)"
      using True i assms(4) by (intro logical_cached [OF put_disk_binv [OF assms(1-3)]]) (simp_all add: nth)
    moreover have "logical s d m = b_data (bufs s ! i)"
      using True i assms(4) by (intro logical_cached [OF assms(1)])
    ultimately show ?thesis by (simp add: nth)
  next
    case False
    then show ?thesis by (intro logical_cong) (auto simp: nth bkey_def)
  qed
qed

section \<open>Dirty and free buffers\<close>

lemma dirty_blocks_iff:
  "(d, m) \<in> dirty_blocks s \<longleftrightarrow> (\<exists>i<length (bufs s). bkey (bufs s ! i) = (d, m) \<and> b_dirty (bufs s ! i))"
  by (auto simp: dirty_blocks_def)

lemma finite_free [simp]: "finite (free_bufs s)"
  by (simp add: free_bufs_def)

lemma take_buf_free:
  assumes "bpick s dev n i"
  shows "free_bufs (take_buf me dev n i s) = free_bufs s - {i}"
  using assms by (auto simp: free_bufs_def bpick_def take_buf_nth is_free_def)

lemma take_buf_dirty:
  assumes "bpick s dev n i"
  shows "dirty_blocks (take_buf me dev n i s) = dirty_blocks s"
proof -
  have i: "i < length (bufs s)" using assms by (simp add: bpick_def)
  have c: "\<not> b_dirty (bufs s ! i) \<or> bkey (bufs s ! i) = (dev, n)"
    using assms by (auto simp: bpick_def is_free_def split: if_splits)
  have k: "bkey (bufs (take_buf me dev n i s) ! j) = (if j = i then (dev, n) else bkey (bufs s ! j))"
      "b_dirty (bufs (take_buf me dev n i s) ! j) = b_dirty (bufs s ! j)" for j
    using i by (simp_all add: take_buf_nth bkey_def)
  have "(bkey (bufs (take_buf me dev n i s) ! j) = q \<and> b_dirty (bufs (take_buf me dev n i s) ! j)) \<longleftrightarrow>
      (bkey (bufs s ! j) = q \<and> b_dirty (bufs s ! j))" for j q
    using c by (auto simp: k)
  then show ?thesis by (simp add: dirty_blocks_def)
qed

lemma give_buf_free:
  "i < length (bufs s) \<Longrightarrow>
   free_bufs (give_buf i s) = (if b_dirty (bufs s ! i) then free_bufs s else insert i (free_bufs s)) - (if b_dirty (bufs s ! i) then {i} else {})"
  by (auto simp: free_bufs_def give_buf_nth is_free_def)

lemma give_buf_dirty:
  assumes "i < length (bufs s)"
  shows "dirty_blocks (give_buf i s) = dirty_blocks s"
proof -
  have "bkey (bufs (give_buf i s) ! j) = bkey (bufs s ! j)" "b_dirty (bufs (give_buf i s) ! j) = b_dirty (bufs s ! j)" for j
    using assms by (simp_all add: give_buf_nth)
  then show ?thesis by (simp add: dirty_blocks_def)
qed

lemma put_disk_free:
  "i < length (bufs s) \<Longrightarrow> b_refcnt (bufs s ! i) \<noteq> 0 \<Longrightarrow> free_bufs (put_disk i s) = free_bufs s"
  by (auto simp: free_bufs_def put_disk_nth is_free_def)

lemma put_disk_dirty:
  assumes "binv me held s" and "i \<in> held" and "b_dev (bufs s ! i) \<noteq> 0"
  shows "dirty_blocks (put_disk i s) = dirty_blocks s - {bkey (bufs s ! i)}"
proof -
  note D = binvD [OF assms(1)]
  have i: "i < length (bufs s)" using D(6) [OF assms(2)] by simp
  have u: "j = i" if "j < length (bufs s)" "bkey (bufs s ! j) = bkey (bufs s ! i)" for j
    using D(4) [of i j] i that assms(3) by simp
  have "(bkey (bufs (put_disk i s) ! j) = q \<and> b_dirty (bufs (put_disk i s) ! j)) \<longleftrightarrow>
      (j \<noteq> i \<and> bkey (bufs s ! j) = q \<and> b_dirty (bufs s ! j))" for j q
    using i by (simp add: put_disk_nth)
  then have "dirty_blocks (put_disk i s) =
      {q. \<exists>j<length (bufs s). j \<noteq> i \<and> bkey (bufs s ! j) = q \<and> b_dirty (bufs s ! j)}"
    by (simp add: dirty_blocks_def)
  also have "\<dots> = dirty_blocks s - {bkey (bufs s ! i)}"
  proof (rule set_eqI)
    fix q
    show "q \<in> {q. \<exists>j<length (bufs s). j \<noteq> i \<and> bkey (bufs s ! j) = q \<and> b_dirty (bufs s ! j)} \<longleftrightarrow>
        q \<in> dirty_blocks s - {bkey (bufs s ! i)}"
      using u by (simp add: dirty_blocks_def) metis
  qed
  finally show ?thesis .
qed

section \<open>Properties\<close>

lemma binit_loop_set: "set (binit_loop n) = {..<n}" "distinct (binit_loop n)"
proof -
  show s: "set (binit_loop n) = {..<n}" for n by (induction n) (simp_all add: lessThan_Suc)
  show "distinct (binit_loop n)" by (induction n) (simp_all add: s)
qed
lemma binit_binv: "havedisk1 s \<Longrightarrow> binv me {} (binit s)"
  unfolding binv_def binit_def by (simp add: empty_buf_def initsleeplock_def binit_loop_set)

lemma bread_panic:
  assumes "binv me held s" and "\<not> bcached s dev n" and "free_bufs s = {}"
  shows "bread me dev n s = (Panic ''bget: no buffers'', s)"
proof -
  note D = binvD [OF assms(1)]
  have "find (\<lambda>i. bkey (bufs s ! i) = (dev, n)) (mru s) = None"
    using assms(2) D(2) by (auto simp: find_None_iff bcached_def)
  moreover have "find (\<lambda>i. b_refcnt (bufs s ! i) = 0 \<and> \<not> b_dirty (bufs s ! i)) (rev (mru s)) = None"
    using assms(3) D(2) by (auto simp: find_None_iff free_bufs_def is_free_def)
  ultimately show ?thesis by (simp add: bread_def bget_def kbind_def)
qed


definition ex_bcache :: bcache where
  "ex_bcache = binit \<lparr>bufs = [], mru = [], disk = (\<lambda>d n j. ucast n + of_nat j), disk_writes = [], havedisk1 = True\<rparr>"

lemma ex_bcache_free: "free_bufs ex_bcache \<noteq> {}"
proof -
  have "0 \<in> free_bufs ex_bcache"
    by (simp add: free_bufs_def ex_bcache_def binit_def NBUF_def is_free_def empty_buf_def)
  then show ?thesis by blast
qed

lemma ex_bcache_logical: "logical ex_bcache d n = (\<lambda>j. ucast n + of_nat j)"
proof -
  have "logical ex_bcache d n = disk ex_bcache d n"
    by (rule logical_uncached) (simp add: ex_bcache_def binit_def empty_buf_def)
  then show ?thesis by (simp add: ex_bcache_def binit_def)
qed


text \<open>
  C35. Write-through: on a buffer the caller holds, \<^verbatim>\<open>bwrite\<close> followed by \<^verbatim>\<open>brelse\<close> never
  panics, makes exactly one disk write, of the buffer's data to its own block, leaves the logical
  contents of every block as they were, and gives the buffer back for reuse.
\<close>

theorem bwrite_durable:
  assumes "binv me held s" and "i \<in> held" and "bkey (bufs s ! i) = (dev, n)" and "dev \<noteq> 0" and "n < FSSIZE"
  shows "\<exists>t u. bwrite me i s = (Ret (), t) \<and> brelse me i t = (Ret (), u) \<and> binv me (held - {i}) u \<and>
    disk u dev n = b_data (bufs s ! i) \<and> (\<forall>d m. (d, m) \<noteq> (dev, n) \<longrightarrow> disk u d m = disk s d m) \<and>
    disk_writes u = disk_writes s @ [(dev, n, b_data (bufs s ! i))] \<and>
    (\<forall>d m. d \<noteq> 0 \<longrightarrow> logical u d m = logical s d m) \<and> i \<in> free_bufs u"
proof -
  have i: "i < length (bufs s)" using binvD(6) [OF assms(1,2)] by simp
  have k: "b_dev (bufs s ! i) = dev" "b_blockno (bufs s ! i) = n" using assms(3) by (simp_all add: bkey_def)
  have w: "bwrite me i s = (Ret (), put_disk i s)" using bwrite_exec [OF assms(1,2)] assms(5) k by simp
  have pi: "binv me held (put_disk i s)" using put_disk_binv [OF assms(1,2)] assms(4) k by simp
  have r: "brelse me i (put_disk i s) = (Ret (), give_buf i (put_disk i s))"
    using brelse_exec [OF pi assms(2)] .
  have clean: "b_data (bufs (put_disk i s) ! i) =
      disk (put_disk i s) (b_dev (bufs (put_disk i s) ! i)) (b_blockno (bufs (put_disk i s) ! i))"
    using i k by (simp add: put_disk_nth)
  have "binv me (held - {i}) (give_buf i (put_disk i s))"
    using give_buf_binv [OF pi assms(2)] clean by blast
  moreover have "logical (give_buf i (put_disk i s)) d m = logical s d m" if "d \<noteq> 0" for d m
    using give_buf_logical [of i "put_disk i s"] put_disk_logical [OF assms(1,2) _ that] assms(4) k i by simp
  moreover have "i \<in> free_bufs (give_buf i (put_disk i s))"
    using i by (simp add: give_buf_free put_disk_nth)
  ultimately show ?thesis using w r k by (intro exI [of _ "put_disk i s"] exI [of _ "give_buf i (put_disk i s)"]) auto
qed

theorem bwrite_durable_witness:
  "\<exists>i s t u. bread 7 1 40 ex_bcache = (Ret i, s) \<and> bwrite 7 i s = (Ret (), t) \<and> brelse 7 i t = (Ret (), u) \<and>
     disk_writes u = [(1, 40, b_data (bufs s ! i))]"
proof -
  have inv: "binv 7 {} ex_bcache" unfolding ex_bcache_def by (rule binit_binv) simp
  have n: "(40 :: u32) < FSSIZE" by (simp add: FSSIZE_def)
  obtain i where i: "bread 7 1 40 ex_bcache = (Ret i, take_buf 7 1 40 i ex_bcache)" "bpick ex_bcache 1 40 i"
    using bread_exec [OF inv _ n, of 1] ex_bcache_free by auto
  let ?s = "take_buf 7 1 40 i ex_bcache"
  have s: "binv 7 {i} ?s" using take_buf_binv [OF inv _ i(2)] by simp
  have "bkey (bufs ?s ! i) = (1, 40)" using i(2) by (simp add: take_buf_nth bpick_def bkey_def)
  from bwrite_durable [OF s _ this _ n] i show ?thesis
    by (simp add: ex_bcache_def binit_def) blast
qed

end
