(* ===== verification/Disk_Format.thy ===== *)
theory Disk_Format
  imports Buf_Cache
begin

text \<open>
  Fields of the structures kept in disk blocks.  The kernel accesses them through C structs laid
  over the bytes of a block; on the x86 a \<^verbatim>\<open>short\<close> or \<^verbatim>\<open>uint\<close> field is stored least
  significant byte first.  \<open>get32\<close>, \<open>put32\<close>, \<open>get16\<close> and \<open>put16\<close> are these accesses at a
  byte offset.
\<close>

definition get32 :: "block \<Rightarrow> nat \<Rightarrow> u32" where
  "get32 b i = ucast (b i) OR push_bit 8 (ucast (b (i + 1))) OR
     push_bit 16 (ucast (b (i + 2))) OR push_bit 24 (ucast (b (i + 3)))"

definition put32 :: "nat \<Rightarrow> u32 \<Rightarrow> block \<Rightarrow> block" where
  "put32 i w b = b(i := ucast w, i + 1 := ucast (drop_bit 8 w), i + 2 := ucast (drop_bit 16 w),
     i + 3 := ucast (drop_bit 24 w))"

definition get16 :: "block \<Rightarrow> nat \<Rightarrow> u16" where
  "get16 b i = ucast (b i) OR push_bit 8 (ucast (b (i + 1)))"

definition put16 :: "nat \<Rightarrow> u16 \<Rightarrow> block \<Rightarrow> block" where
  "put16 i w b = b(i := ucast w, i + 1 := ucast (drop_bit 8 w))"

lemma get32_put32 [simp]: "get32 (put32 i w b) i = w"
proof (rule bit_word_eqI)
  fix n :: nat assume "n < LENGTH(32)"
  then consider "n < 8" | "8 \<le> n" "n < 16" | "16 \<le> n" "n < 24" | "24 \<le> n" "n < 32" by fastforce
  then show "bit (get32 (put32 i w b) i) n \<longleftrightarrow> bit w n"
    by cases (auto simp: get32_def put32_def bit_simps)
qed

lemma get16_put16 [simp]: "get16 (put16 i w b) i = w"
  by (rule bit_word_eqI) (auto simp: get16_def put16_def bit_simps)

lemma put32_other: "j < i \<or> i + 4 \<le> j \<Longrightarrow> put32 i w b j = b j"
  by (auto simp: put32_def)

lemma put16_other: "j < i \<or> i + 2 \<le> j \<Longrightarrow> put16 i w b j = b j"
  by (auto simp: put16_def)


lemma get32_cong:
  assumes "\<And>k. i \<le> k \<Longrightarrow> k < i + 4 \<Longrightarrow> b k = c k"
  shows "get32 b i = get32 c i"
  using assms [of i] assms [of "i + 1"] assms [of "i + 2"] assms [of "i + 3"] by (simp add: get32_def)

lemma get16_cong:
  assumes "\<And>k. i \<le> k \<Longrightarrow> k < i + 2 \<Longrightarrow> b k = c k"
  shows "get16 b i = get16 c i"
  using assms [of i] assms [of "i + 1"] by (simp add: get16_def)

lemma get32_put32_other: "i + 4 \<le> j \<or> j + 4 \<le> i \<Longrightarrow> get32 (put32 i w b) j = get32 b j"
  by (rule get32_cong) (auto simp: put32_other)

lemma get32_put16_other: "i + 2 \<le> j \<or> j + 4 \<le> i \<Longrightarrow> get32 (put16 i w b) j = get32 b j"
  by (rule get32_cong) (auto simp: put16_other)

lemma get16_put16_other: "i + 2 \<le> j \<or> j + 2 \<le> i \<Longrightarrow> get16 (put16 i w b) j = get16 b j"
  by (rule get16_cong) (auto simp: put16_other)

lemma get16_put32_other: "i + 4 \<le> j \<or> j + 2 \<le> i \<Longrightarrow> get16 (put32 i w b) j = get16 b j"
  by (rule get16_cong) (auto simp: put32_other)

lemmas get_put_other = get32_put32_other get32_put16_other get16_put16_other get16_put32_other

text \<open>A vector of 32-bit words at an offset.\<close>

fun put_words :: "nat \<Rightarrow> u32 list \<Rightarrow> block \<Rightarrow> block" where
  "put_words i [] b = b"
| "put_words i (w # ws) b = put_words (i + 4) ws (put32 i w b)"

definition get_words :: "block \<Rightarrow> nat \<Rightarrow> nat \<Rightarrow> u32 list" where
  "get_words b i n = map (\<lambda>k. get32 b (i + 4 * k)) [0..<n]"

lemma put_words_other: "j < i \<or> i + 4 * length ws \<le> j \<Longrightarrow> put_words i ws b j = b j"
  by (induction i ws b rule: put_words.induct) (auto simp: put32_other)

lemma get_words_Suc: "get_words b i (Suc n) = get32 b i # get_words b (i + 4) n"
  by (simp add: get_words_def map_upt_Suc algebra_simps del: upt_Suc)

lemma get_words_put_words [simp]: "get_words (put_words i ws b) i (length ws) = ws"
proof (induction i ws b rule: put_words.induct)
  case (1 i b)
  then show ?case by (simp add: get_words_def)
next
  case (2 i w ws b)
  have "get32 (put_words (i + 4) ws (put32 i w b)) i = get32 (put32 i w b) i"
    by (rule get32_cong) (simp add: put_words_other)
  with 2 show ?case by (simp add: get_words_Suc)
qed

lemma get32_put_words_other: "j + 4 \<le> i \<or> i + 4 * length ws \<le> j \<Longrightarrow> get32 (put_words i ws b) j = get32 b j"
  by (rule get32_cong) (auto simp: put_words_other)

end
