(* ===== verification/Log.thy ===== *)
theory Log
  imports Disk_Format
begin

text \<open>
  The write-ahead log (\<^verbatim>\<open>log.c\<close>).

  \<^item> The state joins the buffer cache and \<^verbatim>\<open>struct log\<close>; the first \<^verbatim>\<open>lh.n\<close> entries of
    \<^verbatim>\<open>lh.block\<close> are the list \<open>l_blocks\<close>.  A block is its \<^verbatim>\<open>BSIZE\<close> bytes, so a
    \<^verbatim>\<open>memmove\<close> of \<^verbatim>\<open>BSIZE\<close> bytes copies it whole.
  \<^item> \<^verbatim>\<open>begin_op\<close> and \<^verbatim>\<open>log_write\<close> are atomic under the log's spin lock; \<^verbatim>\<open>commit\<close> runs
    with \<^verbatim>\<open>committing\<close> set, which keeps every other file-system call out.
  \<^item> Crash safety is stated on \<open>disk_writes\<close>: the disk after any prefix of the writes of a commit,
    booted and recovered, has either all or none of the transaction.
\<close>

section \<open>State\<close>

definition LOGSIZE :: nat where
  [const_defs]: "LOGSIZE = 30"

definition MAXOPBLOCKS :: int where
  [const_defs]: "MAXOPBLOCKS = 10"

record superblock =
  sb_size :: u32
  sb_nblocks :: u32
  sb_ninodes :: u32
  sb_nlog :: u32
  sb_logstart :: u32
  sb_inodestart :: u32
  sb_bmapstart :: u32

record log =
  l_start :: u32
  l_size :: int
  l_outstanding :: int
  l_committing :: bool
  l_dev :: u32
  l_blocks :: "u32 list"

record ldisk =
  ld_bc :: bcache
  ld_log :: log

definition inbc :: "(bcache, 'a) kop \<Rightarrow> (ldisk, 'a) kop" where
  "inbc m = zoom ld_bc (\<lambda>b s. s\<lparr>ld_bc := b\<rparr>) m"

definition upd_log :: "(log \<Rightarrow> log) \<Rightarrow> (ldisk, unit) kop" where
  "upd_log f = kmod (\<lambda>s. s\<lparr>ld_log := f (ld_log s)\<rparr>)"

definition buf_data :: "nat \<Rightarrow> (ldisk, block) kop" where
  "buf_data i = kget (\<lambda>s. b_data (bufs (ld_bc s) ! i))"

section \<open>Operations\<close>

definition decode_sb :: "block \<Rightarrow> superblock" where
  "decode_sb d = \<lparr>sb_size = get32 d 0, sb_nblocks = get32 d 4, sb_ninodes = get32 d 8, sb_nlog = get32 d 12,
     sb_logstart = get32 d 16, sb_inodestart = get32 d 20, sb_bmapstart = get32 d 24\<rparr>"

definition readsb :: "nat \<Rightarrow> u32 \<Rightarrow> (ldisk, superblock) kop" where
  "readsb me dev =
     kbind (inbc (bread me dev 1)) (\<lambda>bp.
     kbind (buf_data bp) (\<lambda>d.
     kseq (inbc (brelse me bp)) (kret (decode_sb d))))"

text \<open>Copy a block: the \<^verbatim>\<open>memmove\<close> between two locked buffers.\<close>

definition copy_buf :: "nat \<Rightarrow> nat \<Rightarrow> (ldisk, unit) kop" where
  "copy_buf dst src = kbind (buf_data src) (\<lambda>d. inbc (bset dst (\<lambda>_. d)))"

fun install_loop :: "nat \<Rightarrow> u32 \<Rightarrow> u32 \<Rightarrow> u32 list \<Rightarrow> (ldisk, unit) kop" where
  "install_loop me dev lblock [] = kret ()"
| "install_loop me dev lblock (b # bs) =
     kbind (inbc (bread me dev lblock)) (\<lambda>lbuf.
     kbind (inbc (bread me dev b)) (\<lambda>dbuf.
     kseq (copy_buf dbuf lbuf) (
     kseq (inbc (bwrite me dbuf)) (
     kseq (inbc (brelse me lbuf)) (
     kseq (inbc (brelse me dbuf)) (
     install_loop me dev (lblock + 1) bs))))))"

definition install_trans :: "nat \<Rightarrow> (ldisk, unit) kop" where
  "install_trans me = kbind (kget ld_log) (\<lambda>l. install_loop me (l_dev l) (l_start l + 1) (l_blocks l))"

definition read_head :: "nat \<Rightarrow> (ldisk, unit) kop" where
  "read_head me =
     kbind (kget ld_log) (\<lambda>l.
     kbind (inbc (bread me (l_dev l) (l_start l))) (\<lambda>buf.
     kbind (buf_data buf) (\<lambda>d.
     kseq (upd_log (\<lambda>l. l\<lparr>l_blocks := get_words d 4 (nat (sint (get32 d 0)))\<rparr>)) (
     inbc (brelse me buf)))))"

definition encode_head :: "u32 list \<Rightarrow> block \<Rightarrow> block" where
  "encode_head bs d = put_words 4 bs (put32 0 (of_nat (length bs)) d)"

definition write_head :: "nat \<Rightarrow> (ldisk, unit) kop" where
  "write_head me =
     kbind (kget ld_log) (\<lambda>l.
     kbind (inbc (bread me (l_dev l) (l_start l))) (\<lambda>buf.
     kseq (inbc (bset buf (encode_head (l_blocks l)))) (
     kseq (inbc (bwrite me buf)) (
     inbc (brelse me buf)))))"

definition recover_from_log :: "nat \<Rightarrow> (ldisk, unit) kop" where
  "recover_from_log me =
     kseq (read_head me) (
     kseq (install_trans me) (
     kseq (upd_log (\<lambda>l. l\<lparr>l_blocks := []\<rparr>)) (
     write_head me)))"

text \<open>
  The size test at the start of \<^verbatim>\<open>initlog\<close> compares \<^verbatim>\<open>sizeof(struct logheader)\<close>, 4 bytes for
  the count and for each entry, with \<^verbatim>\<open>BSIZE\<close>.
\<close>

definition initlog :: "nat \<Rightarrow> u32 \<Rightarrow> (ldisk, unit) kop" where
  "initlog me dev =
     (if BSIZE \<le> 4 + 4 * LOGSIZE then panic ''initlog: too big logheader''
      else kbind (readsb me dev) (\<lambda>sb.
        kseq (upd_log (\<lambda>l. l\<lparr>l_start := sb_logstart sb, l_size := sint (sb_nlog sb), l_dev := dev\<rparr>))
          (recover_from_log me)))"

definition begin_op :: "(ldisk, unit) kop" where
  "begin_op = (\<lambda>s. let l = ld_log s in
     if l_committing l then (Sleep ChanLog, s)
     else if int (length (l_blocks l)) + (l_outstanding l + 1) * MAXOPBLOCKS > int LOGSIZE then (Sleep ChanLog, s)
     else upd_log (\<lambda>l. l\<lparr>l_outstanding := l_outstanding l + 1\<rparr>) s)"

fun write_log_loop :: "nat \<Rightarrow> u32 \<Rightarrow> u32 \<Rightarrow> u32 list \<Rightarrow> (ldisk, unit) kop" where
  "write_log_loop me dev lblock [] = kret ()"
| "write_log_loop me dev lblock (b # bs) =
     kbind (inbc (bread me dev lblock)) (\<lambda>to.
     kbind (inbc (bread me dev b)) (\<lambda>from.
     kseq (copy_buf to from) (
     kseq (inbc (bwrite me to)) (
     kseq (inbc (brelse me from)) (
     kseq (inbc (brelse me to)) (
     write_log_loop me dev (lblock + 1) bs))))))"

definition write_log :: "nat \<Rightarrow> (ldisk, unit) kop" where
  "write_log me = kbind (kget ld_log) (\<lambda>l. write_log_loop me (l_dev l) (l_start l + 1) (l_blocks l))"

definition commit :: "nat \<Rightarrow> (ldisk, unit) kop" where
  "commit me = kbind (kget (\<lambda>s. l_blocks (ld_log s))) (\<lambda>bs.
     if 0 < length bs then
       kseq (write_log me) (
       kseq (write_head me) (
       kseq (install_trans me) (
       kseq (upd_log (\<lambda>l. l\<lparr>l_blocks := []\<rparr>)) (
       write_head me))))
     else kret ())"

text \<open>The result is the list of channels woken up.\<close>

definition end_op :: "nat \<Rightarrow> (ldisk, chan list) kop" where
  "end_op me =
     kseq (upd_log (\<lambda>l. l\<lparr>l_outstanding := l_outstanding l - 1\<rparr>)) (
     kbind (kget ld_log) (\<lambda>l.
     if l_committing l then panic ''log.committing''
     else if l_outstanding l = 0 then
       kseq (upd_log (\<lambda>l. l\<lparr>l_committing := True\<rparr>)) (
       kseq (commit me) (
       kseq (upd_log (\<lambda>l. l\<lparr>l_committing := False\<rparr>)) (
       kret [ChanLog])))
     else kret [ChanLog]))"

definition log_write :: "nat \<Rightarrow> (ldisk, unit) kop" where
  "log_write b = (\<lambda>s. let l = ld_log s; no = b_blockno (bufs (ld_bc s) ! b) in
     if length (l_blocks l) \<ge> LOGSIZE \<or> int (length (l_blocks l)) \<ge> l_size l - 1
     then (Panic ''too big a transaction'', s)
     else if l_outstanding l < 1 then (Panic ''log_write outside of trans'', s)
     else (Ret (), s\<lparr>ld_log := l\<lparr>l_blocks := (if no \<in> set (l_blocks l) then l_blocks l else l_blocks l @ [no])\<rparr>,
                    ld_bc := upd_buf b (\<lambda>x. x\<lparr>b_dirty := True\<rparr>) (ld_bc s)\<rparr>))"

section \<open>Buffers in pairs\<close>

lemma take_buf_clean:
  assumes "binv me held s" and "dev \<noteq> 0" and "bpick s dev n i" and "i \<notin> held"
  shows "b_dirty (bufs s ! i) \<or> logical s dev n = disk s dev n"
proof (cases "bcached s dev n \<and> b_valid (bufs s ! i)")
  case True
  then have i: "i < length (bufs s)" "bkey (bufs s ! i) = (dev, n)" using assms(3) by (auto simp: bpick_def)
  then show ?thesis
    using True logical_cached [OF assms(1) i assms(2)] binvD(8) [OF assms(1) i(1) assms(4)] by (auto simp: bkey_def)
next
  case False
  have "logical s dev n = disk s dev n"
  proof (rule logical_uncached)
    fix j assume j: "j < length (bufs s)" "b_valid (bufs s ! j)"
    show "bkey (bufs s ! j) \<noteq> (dev, n)"
    proof
      assume k: "bkey (bufs s ! j) = (dev, n)"
      then have "j = i" using bpick_key [OF assms(1-3) j(1)] by simp
      then show False using False j k by (auto simp: bcached_def)
    qed
  qed
  then show ?thesis ..
qed

lemma two_reads:
  assumes inv: "binv me held s" and "dev \<noteq> 0" and "a < FSSIZE" and "b < FSSIZE" and "a \<noteq> b"
    and nh: "\<And>i. i \<in> held \<Longrightarrow> bkey (bufs s ! i) \<noteq> (dev, a) \<and> bkey (bufs s ! i) \<noteq> (dev, b)"
    and room: "bcached s dev a \<or> free_bufs s \<noteq> {}" "(dev, b) \<in> dirty_blocks s \<or> 2 \<le> card (free_bufs s)"
  shows "\<exists>i j s1 s2. bread me dev a s = (Ret i, s1) \<and> bread me dev b s1 = (Ret j, s2) \<and> i \<noteq> j \<and> i \<notin> held \<and> j \<notin> held \<and>
    binv me (insert j (insert i held)) s2 \<and> bkey (bufs s2 ! i) = (dev, a) \<and> bkey (bufs s2 ! j) = (dev, b) \<and>
    b_data (bufs s2 ! i) = logical s dev a \<and> b_data (bufs s2 ! j) = logical s dev b \<and>
    (b_dirty (bufs s2 ! i) \<or> logical s dev a = disk s dev a) \<and> (b_dirty (bufs s2 ! j) \<or> logical s dev b = disk s dev b) \<and>
    (\<forall>d m. d \<noteq> 0 \<longrightarrow> logical s2 d m = logical s d m) \<and> disk s2 = disk s \<and> disk_writes s2 = disk_writes s \<and>
    dirty_blocks s2 = dirty_blocks s \<and> free_bufs s2 = free_bufs s - {i, j} \<and> length (bufs s2) = length (bufs s) \<and>
    (\<forall>k\<in>held. bufs s2 ! k = bufs s ! k) \<and>
    (i \<in> free_bufs s \<longrightarrow> \<not> b_dirty (bufs s2 ! i)) \<and> (j \<in> free_bufs s \<longrightarrow> \<not> b_dirty (bufs s2 ! j))"
proof -
  have nha: "bkey (bufs s ! i) \<noteq> (dev, a)" if "i \<in> held" for i using nh that by blast
  obtain i where i: "bread me dev a s = (Ret i, take_buf me dev a i s)" "bpick s dev a i" "i \<notin> held"
    using bread_exec [OF inv assms(2,3) nha room(1)] by blast
  define s1 where "s1 = take_buf me dev a i s"
  have li: "i < length (bufs s)" using i(2) by (simp add: bpick_def)
  note nth1 = take_buf_nth [OF li, of me dev a, folded s1_def]
  have inv1: "binv me (insert i held) s1" using take_buf_binv [OF inv assms(2) i(2,3)] by (simp add: s1_def)
  have lg1: "logical s1 d m = logical s d m" if "d \<noteq> 0" for d m
    using take_buf_logical [OF inv assms(2) i(2,3) that] by (simp add: s1_def)
  have nhb: "bkey (bufs s1 ! k) \<noteq> (dev, b)" if "k \<in> insert i held" for k
    using nh that assms(5) i(3) by (auto simp: nth1 bkey_def)
  have f1: "free_bufs s1 = free_bufs s - {i}" "dirty_blocks s1 = dirty_blocks s"
    using take_buf_free [OF i(2)] take_buf_dirty [OF i(2)] by (simp_all add: s1_def)
  have room1: "bcached s1 dev b \<or> free_bufs s1 \<noteq> {}"
  proof (cases "(dev, b) \<in> dirty_blocks s")
    case True
    then have "(dev, b) \<in> dirty_blocks s1" using f1(2) by simp
    then show ?thesis by (auto simp: dirty_blocks_iff bcached_def)
  next
    case False
    then have "2 \<le> card (free_bufs s)" using room(2) by blast
    moreover have "card (free_bufs s) - 1 \<le> card (free_bufs s - {i})" by (simp add: card_Diff_singleton_if)
    ultimately have "card (free_bufs s - {i}) \<noteq> 0" by linarith
    then have "free_bufs s - {i} \<noteq> {}" by (metis card.empty)
    then show ?thesis using f1(1) by simp
  qed
  obtain j where j: "bread me dev b s1 = (Ret j, take_buf me dev b j s1)" "bpick s1 dev b j" "j \<notin> insert i held"
    using bread_exec [OF inv1 assms(2,4) nhb room1] by blast
  define s2 where "s2 = take_buf me dev b j s1"
  have lj: "j < length (bufs s1)" using j(2) by (simp add: bpick_def)
  note nth2 = take_buf_nth [OF lj, of me dev b, folded s2_def]
  have ji: "j \<noteq> i" using j(3) by blast
  have "binv me (insert j (insert i held)) s2" using take_buf_binv [OF inv1 assms(2) j(2,3)] by (simp add: s2_def)
  moreover have "logical s2 d m = logical s d m" if "d \<noteq> 0" for d m
    using take_buf_logical [OF inv1 assms(2) j(2,3) that] lg1 [OF that] by (simp add: s2_def)
  moreover have "free_bufs s2 = free_bufs s - {i, j}" "dirty_blocks s2 = dirty_blocks s"
    using take_buf_free [OF j(2)] take_buf_dirty [OF j(2)] f1 by (auto simp: s2_def)
  moreover have "b_dirty (bufs s2 ! i) \<or> logical s dev a = disk s dev a"
    using take_buf_clean [OF inv assms(2) i(2,3)] ji by (auto simp: nth1 nth2)
  moreover have "b_dirty (bufs s2 ! j) \<or> logical s dev b = disk s dev b"
    using take_buf_clean [OF inv1 assms(2) j(2,3)] lg1 [OF assms(2)] by (auto simp: nth2) (auto simp: s1_def)
  moreover have "\<forall>k\<in>held. bufs s2 ! k = bufs s ! k" using i(3) j(3) by (auto simp: nth1 nth2)
  moreover have "i \<in> free_bufs s \<longrightarrow> \<not> b_dirty (bufs s2 ! i)" "j \<in> free_bufs s \<longrightarrow> \<not> b_dirty (bufs s2 ! j)"
    using ji by (auto simp: nth1 nth2 free_bufs_def is_free_def)
  moreover have "bkey (bufs s2 ! i) = (dev, a)" "bkey (bufs s2 ! j) = (dev, b)"
      "b_data (bufs s2 ! i) = logical s dev a" "b_data (bufs s2 ! j) = logical s dev b"
    using ji lg1 [OF assms(2)] by (simp_all add: nth1 nth2 bkey_def)
  moreover have "disk s2 = disk s" "disk_writes s2 = disk_writes s" "length (bufs s2) = length (bufs s)"
    by (simp_all add: s2_def s1_def)
  ultimately show ?thesis
    using i(1,3) j(1,3) ji by (intro exI [of _ i] exI [of _ j] exI [of _ s1] exI [of _ s2]) (simp add: s1_def s2_def)
qed

lemma finish_copy:
  assumes inv: "binv me held s" and ij: "i \<in> held" "j \<in> held" "i \<noteq> j"
    and kj: "bkey (bufs s ! j) = (dev, n)" and "dev \<noteq> 0" and "n < FSSIZE"
    and ci: "b_dirty (bufs s ! i) \<or> b_data (bufs s ! i) = disk s (b_dev (bufs s ! i)) (b_blockno (bufs s ! i))"
  shows "\<exists>s3 s4 s5 u. bset j (\<lambda>_. b_data (bufs s ! i)) s = (Ret (), s3) \<and> bwrite me j s3 = (Ret (), s4) \<and>
    brelse me i s4 = (Ret (), s5) \<and> brelse me j s5 = (Ret (), u) \<and> binv me (held - {i, j}) u \<and>
    disk u = (disk s)(dev := (disk s dev)(n := b_data (bufs s ! i))) \<and>
    disk_writes u = disk_writes s @ [(dev, n, b_data (bufs s ! i))] \<and>
    (\<forall>d m. d \<noteq> 0 \<longrightarrow> logical u d m = (if (d, m) = (dev, n) then b_data (bufs s ! i) else logical s d m)) \<and>
    dirty_blocks u = dirty_blocks s - {(dev, n)} \<and> length (bufs u) = length (bufs s) \<and>
    free_bufs u = free_bufs s \<union> {j} \<union> (if b_dirty (bufs s ! i) then {} else {i}) \<and>
    (\<forall>k\<in>held - {i, j}. bufs u ! k = bufs s ! k)"
proof -
  note D = binvD [OF inv]
  let ?x = "b_data (bufs s ! i)"
  let ?f = "\<lambda>b. b\<lparr>b_data := ?x\<rparr>"
  have l: "i < length (bufs s)" "j < length (bufs s)" "b_valid (bufs s ! j)" "b_refcnt (bufs s ! j) = 1"
      "b_refcnt (bufs s ! i) = 1"
    using D(6) [OF ij(1)] D(6) [OF ij(2)] by simp_all
  define s3 where "s3 = upd_buf j ?f s"
  note nth3 = upd_buf_nth [OF l(2), of ?f, folded s3_def]
  have l3: "length (bufs s3) = length (bufs s)" "disk s3 = disk s" "disk_writes s3 = disk_writes s" by (simp_all add: s3_def)
  have inv3: "binv me held s3" unfolding s3_def by (rule upd_held_binv [OF inv ij(2)]) (simp_all add: l)
  have lg3: "logical s3 d m = (if (d, m) = (dev, n) then ?x else logical s d m)" if "d \<noteq> 0" for d m
    unfolding s3_def using upd_held_logical [OF inv ij(2), of ?f d m] that l kj by auto
  have k3: "bkey (bufs s3 ! j) = (dev, n)" "b_dev (bufs s3 ! j) = dev" "b_blockno (bufs s3 ! j) = n"
    using kj by (simp_all add: nth3 bkey_def)
  have d3: "dirty_blocks s3 = dirty_blocks s" "free_bufs s3 = free_bufs s"
  proof -
    have "bkey (bufs s3 ! k) = bkey (bufs s ! k)" "b_dirty (bufs s3 ! k) = b_dirty (bufs s ! k)"
      "b_refcnt (bufs s3 ! k) = b_refcnt (bufs s ! k)" for k by (simp_all add: nth3)
    then show "dirty_blocks s3 = dirty_blocks s" "free_bufs s3 = free_bufs s"
      by (simp_all add: dirty_blocks_def free_bufs_def is_free_def l3)
  qed
  define s4 where "s4 = put_disk j s3"
  have lj3: "j < length (bufs s3)" using l l3 by simp
  note nth4 = put_disk_nth [OF lj3, folded s4_def]
  have w: "bwrite me j s3 = (Ret (), s4)" using bwrite_exec [OF inv3 ij(2)] k3 assms(7) by (simp add: s4_def)
  have inv4: "binv me held s4" using put_disk_binv [OF inv3 ij(2)] k3 assms(6) by (simp add: s4_def)
  have r1: "brelse me i s4 = (Ret (), give_buf i s4)" by (rule brelse_exec [OF inv4 ij(1)])
  have l4: "length (bufs s4) = length (bufs s)" "i < length (bufs s4)" "j < length (bufs s4)" using l l3 by (simp_all add: s4_def)
  have ki: "bkey (bufs s ! i) \<noteq> (dev, n)" using D(4) [of i j] l ij(3) kj assms(6) by (auto simp: bkey_def)
  have dk: "disk s4 = (disk s)(dev := (disk s dev)(n := ?x))" "disk_writes s4 = disk_writes s @ [(dev, n, ?x)]"
    using k3 l3 by (simp_all add: s4_def nth3)
  have ci4: "b_dirty (bufs s4 ! i) \<or> b_data (bufs s4 ! i) = disk s4 (b_dev (bufs s4 ! i)) (b_blockno (bufs s4 ! i))"
    using ci ki ij(3) by (auto simp: nth4 nth3 dk bkey_def)
  define s5 where "s5 = give_buf i s4"
  note nth5 = give_buf_nth [OF l4(2), folded s5_def]
  have inv5: "binv me (held - {i}) s5" using give_buf_binv [OF inv4 ij(1) ci4] by (simp add: s5_def)
  have j5: "j \<in> held - {i}" using ij by blast
  have r2: "brelse me j s5 = (Ret (), give_buf j s5)" by (rule brelse_exec [OF inv5 j5])
  have lj5: "j < length (bufs s5)" using l4 by (simp add: s5_def)
  have dk5: "disk s5 = disk s4" "disk_writes s5 = disk_writes s4" by (simp_all add: s5_def)
  have cj5: "b_data (bufs s5 ! j) = disk s5 (b_dev (bufs s5 ! j)) (b_blockno (bufs s5 ! j))" "\<not> b_dirty (bufs s5 ! j)"
    using ij(3) k3 by (simp_all add: nth5 nth4 dk5 dk) (simp add: nth3)
  define u where "u = give_buf j s5"
  have invu: "binv me (held - {i} - {j}) u" using give_buf_binv [OF inv5 j5] cj5(1) by (simp add: u_def)
  have lgu: "logical u d m = (if (d, m) = (dev, n) then ?x else logical s d m)" if "d \<noteq> 0" for d m
    using give_buf_logical [OF lj5] give_buf_logical [OF l4(2)] put_disk_logical [OF inv3 ij(2) _ that] k3 assms(6) lg3 [OF that]
    by (simp add: u_def s5_def s4_def)
  have du: "dirty_blocks u = dirty_blocks s - {(dev, n)}"
    using give_buf_dirty [OF lj5] give_buf_dirty [OF l4(2)] put_disk_dirty [OF inv3 ij(2)] k3 assms(6) d3(1)
    by (simp add: u_def s5_def s4_def)
  have fu: "free_bufs u = free_bufs s \<union> {j} \<union> (if b_dirty (bufs s ! i) then {} else {i})"
  proof -
    have f4: "free_bufs s4 = free_bufs s"
      using put_disk_free [OF lj3] d3(2) l by (simp add: s4_def nth3)
    have ni: "i \<notin> free_bufs s" using l by (simp add: free_bufs_def is_free_def)
    have di: "b_dirty (bufs s4 ! i) = b_dirty (bufs s ! i)" using ij(3) by (simp add: nth4 nth3)
    have f5: "free_bufs s5 = free_bufs s \<union> (if b_dirty (bufs s ! i) then {} else {i})"
      using give_buf_free [OF l4(2)] f4 ni di by (simp add: s5_def)
    show ?thesis using give_buf_free [OF lj5] f5 cj5(2) by (simp add: u_def)
  qed
  have fr: "bufs u ! k = bufs s ! k" if "k \<in> held - {i, j}" for k
    using that give_buf_nth [OF lj5, of k] by (simp add: u_def nth5 nth4 nth3)
  have hd: "held - {i, j} = held - {i} - {j}" by blast
  have "bset j (\<lambda>_. ?x) s = (Ret (), s3)" by (simp add: bset_def kmod_def s3_def)
  then show ?thesis
    using w r1 r2 invu lgu du fu fr dk dk5 l4(1) unfolding hd
    by (intro exI [of _ s3] exI [of _ s4] exI [of _ s5] exI [of _ u]) (simp add: s5_def u_def)
qed

section \<open>Sequences of writes\<close>

definition apply_writes ::
  "(u32 \<times> u32 \<times> block) list \<Rightarrow> (u32 \<Rightarrow> u32 \<Rightarrow> block) \<Rightarrow> (u32 \<Rightarrow> u32 \<Rightarrow> block)" where
  "apply_writes ws D = foldl (\<lambda>D (d, n, x). D(d := (D d)(n := x))) D ws"

lemma apply_writes_simps [simp]:
  "apply_writes [] D = D"
  "apply_writes ((d, n, x) # ws) D = apply_writes ws (D(d := (D d)(n := x)))"
  "apply_writes (ws @ vs) D = apply_writes vs (apply_writes ws D)"
  by (simp_all add: apply_writes_def)

lemma apply_writes_cong:
  "D d n = E d n \<Longrightarrow> apply_writes ws D d n = apply_writes ws E d n"
proof (induction ws arbitrary: D E)
  case (Cons w ws)
  obtain a b c where "w = (a, b, c)" by (cases w)
  moreover have h: "(D(a := (D a)(b := c))) d n = (E(a := (E a)(b := c))) d n" using Cons.prems by auto
  moreover have "apply_writes ws (D(a := (D a)(b := c))) d n = apply_writes ws (E(a := (E a)(b := c))) d n"
    by (rule Cons.IH) (fact h)
  ultimately show ?case by simp
qed simp

definition written :: "(u32 \<times> u32 \<times> block) list \<Rightarrow> (u32 \<times> u32) set" where
  "written ws = (\<lambda>(d, n, x). (d, n)) ` set ws"

lemma written_simps [simp]: "written [] = {}" "written ((d, n, x) # ws) = insert (d, n) (written ws)"
  "written (ws @ vs) = written ws \<union> written vs"
  by (simp_all add: written_def image_Un)

lemma apply_writes_other: "(d, n) \<notin> written ws \<Longrightarrow> apply_writes ws D d n = D d n"
proof (induction ws arbitrary: D)
  case (Cons w ws)
  obtain a b c where "w = (a, b, c)" by (cases w)
  then show ?case using Cons by auto
qed simp

text \<open>\<open>did me ws s t\<close>: from \<open>s\<close> to \<open>t\<close> exactly the writes \<open>ws\<close> went through the cache to the disk.\<close>

definition did :: "nat \<Rightarrow> (u32 \<times> u32 \<times> block) list \<Rightarrow> bcache \<Rightarrow> bcache \<Rightarrow> bool" where
  "did me ws s t \<longleftrightarrow> binv me {} t \<and> disk t = apply_writes ws (disk s) \<and> disk_writes t = disk_writes s @ ws \<and>
     (\<forall>d m. d \<noteq> 0 \<longrightarrow> logical t d m = apply_writes ws (logical s) d m) \<and>
     dirty_blocks t = dirty_blocks s - written ws \<and> free_bufs s \<subseteq> free_bufs t \<and> length (bufs t) = length (bufs s)"

lemma did_trans:
  assumes "did me ws s t" and "did me vs t u"
  shows "did me (ws @ vs) s u"
proof -
  have "apply_writes vs (logical t) d m = apply_writes vs (apply_writes ws (logical s)) d m" if "d \<noteq> 0" for d m
    using assms(1) that by (intro apply_writes_cong) (simp add: did_def)
  with assms show ?thesis by (auto simp: did_def)
qed

lemma did_card: "did me ws s t \<Longrightarrow> card (free_bufs s) \<le> card (free_bufs t)"
  by (auto simp: did_def intro: card_mono)

lemma did_binv: "did me ws s t \<Longrightarrow> binv me {} t"
  by (simp add: did_def)

lemma inbc_exec: "m (ld_bc s) = (r, t) \<Longrightarrow> inbc m s = (r, s\<lparr>ld_bc := t\<rparr>)"
  by (simp add: inbc_def zoom_def)

lemma write_round:
  assumes inv: "binv me {} (ld_bc s)" and "dev \<noteq> 0" and "a < FSSIZE" and "b < FSSIZE" and "a \<noteq> b"
    and room: "free_bufs (ld_bc s) \<noteq> {}" "(dev, b) \<in> dirty_blocks (ld_bc s) \<or> 2 \<le> card (free_bufs (ld_bc s))"
  shows "\<exists>t. write_log_loop me dev a (b # bs) s = write_log_loop me dev (a + 1) bs (s\<lparr>ld_bc := t\<rparr>) \<and>
    did me [(dev, a, logical (ld_bc s) dev b)] (ld_bc s) t"
proof -
  obtain i j s1 s2 where r: "bread me dev a (ld_bc s) = (Ret i, s1)" "bread me dev b s1 = (Ret j, s2)" "i \<noteq> j"
    and s2: "binv me {j, i} s2" "bkey (bufs s2 ! i) = (dev, a)" "bkey (bufs s2 ! j) = (dev, b)"
      "b_data (bufs s2 ! j) = logical (ld_bc s) dev b"
      "b_dirty (bufs s2 ! j) \<or> logical (ld_bc s) dev b = disk (ld_bc s) dev b"
      "\<forall>d m. d \<noteq> 0 \<longrightarrow> logical s2 d m = logical (ld_bc s) d m" "disk s2 = disk (ld_bc s)"
      "disk_writes s2 = disk_writes (ld_bc s)" "dirty_blocks s2 = dirty_blocks (ld_bc s)"
      "free_bufs s2 = free_bufs (ld_bc s) - {i, j}"
      "j \<in> free_bufs (ld_bc s) \<longrightarrow> \<not> b_dirty (bufs s2 ! j)" "length (bufs s2) = length (bufs (ld_bc s))"
    using two_reads [OF inv assms(2-5)] room by auto
  have cj: "b_dirty (bufs s2 ! j) \<or> b_data (bufs s2 ! j) = disk s2 (b_dev (bufs s2 ! j)) (b_blockno (bufs s2 ! j))"
    using s2(3,4,5,7) by (auto simp: bkey_def)
  obtain s3 s4 s5 u where f: "bset i (\<lambda>_. b_data (bufs s2 ! j)) s2 = (Ret (), s3)" "bwrite me i s3 = (Ret (), s4)"
      "brelse me j s4 = (Ret (), s5)" "brelse me i s5 = (Ret (), u)" "binv me ({j, i} - {j, i}) u"
      "disk u = (disk s2)(dev := (disk s2 dev)(a := b_data (bufs s2 ! j)))"
      "disk_writes u = disk_writes s2 @ [(dev, a, b_data (bufs s2 ! j))]"
      "\<forall>d m. d \<noteq> 0 \<longrightarrow> logical u d m = (if (d, m) = (dev, a) then b_data (bufs s2 ! j) else logical s2 d m)"
      "dirty_blocks u = dirty_blocks s2 - {(dev, a)}"
      "free_bufs u = free_bufs s2 \<union> {i} \<union> (if b_dirty (bufs s2 ! j) then {} else {j})" "length (bufs u) = length (bufs s2)"
    using finish_copy [OF s2(1) _ _ r(3) [symmetric] s2(2) assms(2,3) cj] by auto
  have "did me [(dev, a, logical (ld_bc s) dev b)] (ld_bc s) u"
    using f(5-11) s2(4,6-12) by (auto simp: did_def split: if_splits)
  moreover have "write_log_loop me dev a (b # bs) s = write_log_loop me dev (a + 1) bs (s\<lparr>ld_bc := u\<rparr>)"
    using r f by (simp add: kop_defs inbc_def zoom_def copy_buf_def buf_data_def)
  ultimately show ?thesis by blast
qed

lemma install_round:
  assumes inv: "binv me {} (ld_bc s)" and "dev \<noteq> 0" and "a < FSSIZE" and "b < FSSIZE" and "a \<noteq> b"
    and room: "free_bufs (ld_bc s) \<noteq> {}" "(dev, b) \<in> dirty_blocks (ld_bc s) \<or> 2 \<le> card (free_bufs (ld_bc s))"
  shows "\<exists>t. install_loop me dev a (b # bs) s = install_loop me dev (a + 1) bs (s\<lparr>ld_bc := t\<rparr>) \<and>
    did me [(dev, b, logical (ld_bc s) dev a)] (ld_bc s) t"
proof -
  obtain i j s1 s2 where r: "bread me dev a (ld_bc s) = (Ret i, s1)" "bread me dev b s1 = (Ret j, s2)" "i \<noteq> j"
    and s2: "binv me {j, i} s2" "bkey (bufs s2 ! i) = (dev, a)" "bkey (bufs s2 ! j) = (dev, b)"
      "b_data (bufs s2 ! i) = logical (ld_bc s) dev a"
      "b_dirty (bufs s2 ! i) \<or> logical (ld_bc s) dev a = disk (ld_bc s) dev a"
      "\<forall>d m. d \<noteq> 0 \<longrightarrow> logical s2 d m = logical (ld_bc s) d m" "disk s2 = disk (ld_bc s)"
      "disk_writes s2 = disk_writes (ld_bc s)" "dirty_blocks s2 = dirty_blocks (ld_bc s)"
      "free_bufs s2 = free_bufs (ld_bc s) - {i, j}"
      "i \<in> free_bufs (ld_bc s) \<longrightarrow> \<not> b_dirty (bufs s2 ! i)" "length (bufs s2) = length (bufs (ld_bc s))"
    using two_reads [OF inv assms(2-5)] room by auto
  have ci: "b_dirty (bufs s2 ! i) \<or> b_data (bufs s2 ! i) = disk s2 (b_dev (bufs s2 ! i)) (b_blockno (bufs s2 ! i))"
    using s2(2,4,5,7) by (auto simp: bkey_def)
  obtain s3 s4 s5 u where f: "bset j (\<lambda>_. b_data (bufs s2 ! i)) s2 = (Ret (), s3)" "bwrite me j s3 = (Ret (), s4)"
      "brelse me i s4 = (Ret (), s5)" "brelse me j s5 = (Ret (), u)" "binv me ({j, i} - {i, j}) u"
      "disk u = (disk s2)(dev := (disk s2 dev)(b := b_data (bufs s2 ! i)))"
      "disk_writes u = disk_writes s2 @ [(dev, b, b_data (bufs s2 ! i))]"
      "\<forall>d m. d \<noteq> 0 \<longrightarrow> logical u d m = (if (d, m) = (dev, b) then b_data (bufs s2 ! i) else logical s2 d m)"
      "dirty_blocks u = dirty_blocks s2 - {(dev, b)}"
      "free_bufs u = free_bufs s2 \<union> {j} \<union> (if b_dirty (bufs s2 ! i) then {} else {i})" "length (bufs u) = length (bufs s2)"
    using finish_copy [OF s2(1) _ _ r(3) s2(3) assms(2,4) ci] by auto
  have "did me [(dev, b, logical (ld_bc s) dev a)] (ld_bc s) u"
    using f(5-11) s2(4,6-12) by (auto simp: did_def split: if_splits)
  moreover have "install_loop me dev a (b # bs) s = install_loop me dev (a + 1) bs (s\<lparr>ld_bc := u\<rparr>)"
    using r f by (simp add: kop_defs inbc_def zoom_def copy_buf_def buf_data_def)
  ultimately show ?thesis by blast
qed

lemma single_read:
  assumes inv: "binv me {} s" and "dev \<noteq> 0" and "n < FSSIZE" and "free_bufs s \<noteq> {}"
  shows "\<exists>i s1 t. bread me dev n s = (Ret i, s1) \<and> b_data (bufs s1 ! i) = logical s dev n \<and>
    brelse me i s1 = (Ret (), t) \<and> did me [] s t"
proof -
  obtain i where i: "bread me dev n s = (Ret i, take_buf me dev n i s)" "bpick s dev n i"
    using bread_exec [OF inv assms(2,3)] assms(4) by auto
  define s1 where "s1 = take_buf me dev n i s"
  have l: "i < length (bufs s)" "i < length (bufs s1)" using i(2) by (simp_all add: bpick_def s1_def)
  note nth = take_buf_nth [OF l(1), of me dev n, folded s1_def]
  have inv1: "binv me {i} s1" using take_buf_binv [OF inv assms(2) i(2)] by (simp add: s1_def)
  have b: "brelse me i s1 = (Ret (), give_buf i s1)" by (rule brelse_exec [OF inv1]) simp
  have c: "b_dirty (bufs s1 ! i) \<or> b_data (bufs s1 ! i) = disk s1 (b_dev (bufs s1 ! i)) (b_blockno (bufs s1 ! i))"
    using take_buf_clean [OF inv assms(2) i(2)] by (simp add: nth) (simp add: s1_def)
  have "binv me {} (give_buf i s1)" using give_buf_binv [OF inv1 _ c] by simp
  moreover have "logical (give_buf i s1) d m = logical s d m" if "d \<noteq> 0" for d m
    using give_buf_logical [OF l(2)] take_buf_logical [OF inv assms(2) i(2) _ that] by (simp add: s1_def)
  moreover have "dirty_blocks (give_buf i s1) = dirty_blocks s"
    using give_buf_dirty [OF l(2)] take_buf_dirty [OF i(2)] by (simp add: s1_def)
  moreover have "free_bufs s \<subseteq> free_bufs (give_buf i s1)"
  proof -
    have "free_bufs s1 = free_bufs s - {i}" using take_buf_free [OF i(2)] by (simp add: s1_def)
    moreover have "b_dirty (bufs s1 ! i) \<Longrightarrow> i \<notin> free_bufs s" by (simp add: nth free_bufs_def is_free_def)
    ultimately show ?thesis using give_buf_free [OF l(2)] by auto
  qed
  ultimately have "did me [] s (give_buf i s1)" by (simp add: did_def s1_def)
  then show ?thesis using i(1) b nth [of i] by (auto simp: s1_def [symmetric])
qed

lemma single_write:
  assumes inv: "binv me {} s" and "dev \<noteq> 0" and "n < FSSIZE" and "free_bufs s \<noteq> {}"
  shows "\<exists>i s1 s2 s3 t. bread me dev n s = (Ret i, s1) \<and> bset i f s1 = (Ret (), s2) \<and> bwrite me i s2 = (Ret (), s3) \<and>
    brelse me i s3 = (Ret (), t) \<and> did me [(dev, n, f (logical s dev n))] s t"
proof -
  obtain i where i: "bread me dev n s = (Ret i, take_buf me dev n i s)" "bpick s dev n i"
    using bread_exec [OF inv assms(2,3)] assms(4) by auto
  define s1 where "s1 = take_buf me dev n i s"
  have l: "i < length (bufs s)" "i < length (bufs s1)" using i(2) by (simp_all add: bpick_def s1_def)
  note nth = take_buf_nth [OF l(1), of me dev n, folded s1_def]
  have inv1: "binv me {i} s1" using take_buf_binv [OF inv assms(2) i(2)] by (simp add: s1_def)
  let ?g = "\<lambda>b. b\<lparr>b_data := f (b_data b)\<rparr>"
  define s2 where "s2 = upd_buf i ?g s1"
  note nth2 = upd_buf_nth [OF l(2), of ?g, folded s2_def]
  have inv2: "binv me {i} s2" unfolding s2_def by (rule upd_held_binv [OF inv1]) (simp_all add: nth)
  have k2: "bkey (bufs s2 ! i) = (dev, n)" "b_data (bufs s2 ! i) = f (logical s dev n)"
    by (simp_all add: nth2 nth bkey_def)
  obtain s3 u where w: "bwrite me i s2 = (Ret (), s3)" "brelse me i s3 = (Ret (), u)" "binv me ({i} - {i}) u"
    and p: "s3 = put_disk i s2" "u = give_buf i s3"
    using bwrite_exec [OF inv2, of i] brelse_exec [OF put_disk_binv [OF inv2, of i], of i] k2 assms(2,3)
      give_buf_binv [OF put_disk_binv [OF inv2, of i], of i] put_disk_nth [of i s2 i] l
    by (auto simp: bkey_def s2_def)
  have l2: "i < length (bufs s2)" "i < length (bufs s3)" using l by (simp_all add: s2_def p)
  have lg: "logical u d m = apply_writes [(dev, n, f (logical s dev n))] (logical s) d m" if "d \<noteq> 0" for d m
  proof -
    have 1: "logical s1 d m = logical s d m"
      using take_buf_logical [OF inv assms(2) i(2) _ that] by (simp add: s1_def)
    have "logical s2 d m = (if bkey (bufs s1 ! i) = (d, m) then b_data (?g (bufs s1 ! i)) else logical s1 d m)"
      unfolding s2_def by (rule upd_held_logical [OF inv1]) (simp_all add: nth that)
    then have 2: "logical s2 d m = (if (dev, n) = (d, m) then f (logical s dev n) else logical s d m)"
      using 1 by (simp add: nth bkey_def)
    have "logical u d m = logical s2 d m"
      using give_buf_logical [OF l2(2)] put_disk_logical [OF inv2 _ _ that, where i = i] k2 assms(2) by (simp add: p bkey_def)
    with 2 show ?thesis by auto
  qed
  have d2: "dirty_blocks s2 = dirty_blocks s" "free_bufs s2 = free_bufs s - {i}"
  proof -
    have "bkey (bufs s2 ! k) = bkey (bufs s1 ! k)" "b_dirty (bufs s2 ! k) = b_dirty (bufs s1 ! k)"
      "b_refcnt (bufs s2 ! k) = b_refcnt (bufs s1 ! k)" for k by (simp_all add: nth2)
    then have "dirty_blocks s2 = dirty_blocks s1" "free_bufs s2 = free_bufs s1"
      by (simp_all add: dirty_blocks_def free_bufs_def is_free_def s2_def)
    then show "dirty_blocks s2 = dirty_blocks s" "free_bufs s2 = free_bufs s - {i}"
      using take_buf_dirty [OF i(2)] take_buf_free [OF i(2)] by (simp_all add: s1_def)
  qed
  have "dirty_blocks u = dirty_blocks s - {(dev, n)}"
    using give_buf_dirty [OF l2(2)] put_disk_dirty [OF inv2, of i] k2 assms(2) d2(1) by (simp add: p bkey_def)
  moreover have "free_bufs s \<subseteq> free_bufs u"
    using give_buf_free [OF l2(2)] put_disk_free [OF l2(1)] d2(2) l2 by (auto simp: p put_disk_nth nth2 nth)
  moreover have "disk u = apply_writes [(dev, n, f (logical s dev n))] (disk s)"
      "disk_writes u = disk_writes s @ [(dev, n, f (logical s dev n))]"
    using k2 by (simp_all add: p bkey_def s2_def s1_def)
  ultimately have "did me [(dev, n, f (logical s dev n))] s u" using w(3) lg by (simp add: did_def p s2_def s1_def)
  moreover have "bset i f s1 = (Ret (), s2)" by (simp add: bset_def kmod_def s2_def)
  ultimately show ?thesis using i(1) w(1,2) by (auto simp: s1_def [symmetric])
qed

section \<open>The loops of the log\<close>

fun log_writes :: "u32 \<Rightarrow> u32 \<Rightarrow> block list \<Rightarrow> (u32 \<times> u32 \<times> block) list" where
  "log_writes dev a [] = []"
| "log_writes dev a (x # xs) = (dev, a, x) # log_writes dev (a + 1) xs"

definition home_writes :: "u32 \<Rightarrow> u32 list \<Rightarrow> block list \<Rightarrow> (u32 \<times> u32 \<times> block) list" where
  "home_writes dev bs xs = map2 (\<lambda>b x. (dev, b, x)) bs xs"

text \<open>The \<open>n\<close> blocks from \<open>a\<close> on are on the disk and none of them is one of \<open>bs\<close>.\<close>

definition log_area :: "u32 \<Rightarrow> nat \<Rightarrow> u32 list \<Rightarrow> bool" where
  "log_area a n bs \<longleftrightarrow> (\<forall>k<n. a + of_nat k < FSSIZE \<and> a + of_nat k \<notin> set bs) \<and> (\<forall>b\<in>set bs. b < FSSIZE)"

lemma log_area_Cons:
  assumes "log_area a (Suc n) (b # bs)"
  shows "a < FSSIZE" "b < FSSIZE" "a \<noteq> b" "a \<notin> set bs" "log_area (a + 1) n bs"
proof -
  note h = assms [unfolded log_area_def]
  note k = h [THEN conjunct1, rule_format]
  show "a < FSSIZE" "a \<noteq> b" "a \<notin> set bs" using k [of 0] by simp_all
  show "b < FSSIZE" using h by simp
  have "a + 1 + of_nat j < FSSIZE \<and> a + 1 + of_nat j \<notin> set bs" if "j < n" for j
    using k [of "Suc j"] that by (simp add: add.assoc)
  moreover have "\<forall>x\<in>set bs. x < FSSIZE" using h by simp
  ultimately show "log_area (a + 1) n bs" unfolding log_area_def by blast
qed

lemma write_log_loop_spec:
  assumes "binv me {} (ld_bc s)" and "dev \<noteq> 0" and "log_area a (length bs) bs" and "free_bufs (ld_bc s) \<noteq> {}"
    and "(\<forall>b\<in>set bs. (dev, b) \<in> dirty_blocks (ld_bc s)) \<or> 2 \<le> card (free_bufs (ld_bc s))"
  shows "\<exists>t. write_log_loop me dev a bs s = (Ret (), s\<lparr>ld_bc := t\<rparr>) \<and>
    did me (log_writes dev a (map (logical (ld_bc s) dev) bs)) (ld_bc s) t"
  using assms
proof (induction bs arbitrary: a s)
  case Nil
  then show ?case by (intro exI [of _ "ld_bc s"]) (simp add: kret_def did_def)
next
  case (Cons b bs)
  have la: "a < FSSIZE" "b < FSSIZE" "a \<noteq> b" "a \<notin> set bs" "log_area (a + 1) (length bs) bs"
    using log_area_Cons [of a "length bs" b bs] Cons.prems(3) by simp_all
  obtain t where t: "write_log_loop me dev a (b # bs) s = write_log_loop me dev (a + 1) bs (s\<lparr>ld_bc := t\<rparr>)"
      "did me [(dev, a, logical (ld_bc s) dev b)] (ld_bc s) t"
    using write_round [OF Cons.prems(1,2) la(1-3) Cons.prems(4)] Cons.prems(5) by auto
  have lg: "map (logical t dev) bs = map (logical (ld_bc s) dev) bs"
    using t(2) la(4) Cons.prems(2) by (auto simp: did_def)
  have "\<exists>u. write_log_loop me dev (a + 1) bs (s\<lparr>ld_bc := t\<rparr>) = (Ret (), s\<lparr>ld_bc := t\<rparr>\<lparr>ld_bc := u\<rparr>) \<and>
      did me (log_writes dev (a + 1) (map (logical (ld_bc (s\<lparr>ld_bc := t\<rparr>)) dev) bs)) (ld_bc (s\<lparr>ld_bc := t\<rparr>)) u"
  proof (rule Cons.IH)
    show "binv me {} (ld_bc (s\<lparr>ld_bc := t\<rparr>))" using did_binv [OF t(2)] by simp
    show "free_bufs (ld_bc (s\<lparr>ld_bc := t\<rparr>)) \<noteq> {}" using t(2) Cons.prems(4) by (auto simp: did_def)
    show "(\<forall>b\<in>set bs. (dev, b) \<in> dirty_blocks (ld_bc (s\<lparr>ld_bc := t\<rparr>))) \<or> 2 \<le> card (free_bufs (ld_bc (s\<lparr>ld_bc := t\<rparr>)))"
      using Cons.prems(5) t(2) la(4) did_card [OF t(2)] by (auto simp: did_def)
  qed (use Cons.prems(2) la(5) in auto)
  then obtain u where u: "write_log_loop me dev (a + 1) bs (s\<lparr>ld_bc := t\<rparr>) = (Ret (), s\<lparr>ld_bc := u\<rparr>)"
      "did me (log_writes dev (a + 1) (map (logical (ld_bc s) dev) bs)) t u"
    using lg by auto
  show ?case using t(1) u(1) did_trans [OF t(2) u(2)] by auto
qed

lemma install_loop_spec:
  assumes "binv me {} (ld_bc s)" and "dev \<noteq> 0" and "log_area a (length bs) bs" and "free_bufs (ld_bc s) \<noteq> {}"
    and "distinct bs"
    and "(\<forall>b\<in>set bs. (dev, b) \<in> dirty_blocks (ld_bc s)) \<or> 2 \<le> card (free_bufs (ld_bc s))"
  shows "\<exists>t. install_loop me dev a bs s = (Ret (), s\<lparr>ld_bc := t\<rparr>) \<and>
    did me (home_writes dev bs (map (\<lambda>k. logical (ld_bc s) dev (a + of_nat k)) [0..<length bs])) (ld_bc s) t"
  using assms
proof (induction bs arbitrary: a s)
  case Nil
  then show ?case by (intro exI [of _ "ld_bc s"]) (simp add: kret_def did_def home_writes_def)
next
  case (Cons b bs)
  have la: "a < FSSIZE" "b < FSSIZE" "a \<noteq> b" "a \<notin> set bs" "log_area (a + 1) (length bs) bs"
    using log_area_Cons [of a "length bs" b bs] Cons.prems(3) by simp_all
  have lb: "a + of_nat k \<noteq> b" if "k < Suc (length bs)" for k
    using Cons.prems(3) that by (auto simp: log_area_def)
  obtain t where t: "install_loop me dev a (b # bs) s = install_loop me dev (a + 1) bs (s\<lparr>ld_bc := t\<rparr>)"
      "did me [(dev, b, logical (ld_bc s) dev a)] (ld_bc s) t"
    using install_round [OF Cons.prems(1,2) la(1-3) Cons.prems(4)] Cons.prems(6) by auto
  have lg: "map (\<lambda>k. logical t dev (a + 1 + of_nat k)) [0..<length bs] =
      map (\<lambda>k. logical (ld_bc s) dev (a + of_nat (Suc k))) [0..<length bs]"
    using t(2) lb [of "Suc k" for k] Cons.prems(2) by (auto simp: did_def add.assoc)
  have "\<exists>u. install_loop me dev (a + 1) bs (s\<lparr>ld_bc := t\<rparr>) = (Ret (), s\<lparr>ld_bc := t\<rparr>\<lparr>ld_bc := u\<rparr>) \<and>
      did me (home_writes dev bs (map (\<lambda>k. logical (ld_bc (s\<lparr>ld_bc := t\<rparr>)) dev (a + 1 + of_nat k)) [0..<length bs]))
        (ld_bc (s\<lparr>ld_bc := t\<rparr>)) u"
  proof (rule Cons.IH)
    show "binv me {} (ld_bc (s\<lparr>ld_bc := t\<rparr>))" using did_binv [OF t(2)] by simp
    show "free_bufs (ld_bc (s\<lparr>ld_bc := t\<rparr>)) \<noteq> {}" using t(2) Cons.prems(4) by (auto simp: did_def)
    show "(\<forall>b\<in>set bs. (dev, b) \<in> dirty_blocks (ld_bc (s\<lparr>ld_bc := t\<rparr>))) \<or> 2 \<le> card (free_bufs (ld_bc (s\<lparr>ld_bc := t\<rparr>)))"
      using Cons.prems(5,6) t(2) did_card [OF t(2)] by (auto simp: did_def)
  qed (use Cons.prems(2,5) la(5) in auto)
  then obtain u where u: "install_loop me dev (a + 1) bs (s\<lparr>ld_bc := t\<rparr>) = (Ret (), s\<lparr>ld_bc := u\<rparr>)"
      "did me (home_writes dev bs (map (\<lambda>k. logical (ld_bc s) dev (a + of_nat (Suc k))) [0..<length bs])) t u"
    using lg by auto
  have "[(dev, b, logical (ld_bc s) dev a)] @ home_writes dev bs (map (\<lambda>k. logical (ld_bc s) dev (a + of_nat (Suc k))) [0..<length bs])
      = home_writes dev (b # bs) (map (\<lambda>k. logical (ld_bc s) dev (a + of_nat k)) [0..<length (b # bs)])"
    by (simp add: home_writes_def map_upt_Suc del: upt_Suc)
  with t(1) u(1) did_trans [OF t(2) u(2)] show ?case by auto
qed

section \<open>Header, commit and recovery\<close>

definition decode_head :: "block \<Rightarrow> u32 list" where
  "decode_head d = get_words d 4 (nat (sint (get32 d 0)))"

lemma decode_encode:
  assumes "length bs \<le> LOGSIZE"
  shows "decode_head (encode_head bs d) = bs"
proof -
  have "get32 (put_words 4 bs (put32 0 (of_nat (length bs)) d)) 0 = of_nat (length bs)"
    by (simp add: get32_put_words_other)
  moreover have "sint (of_nat (length bs) :: u32) = int (length bs)"
    using assms by (simp add: LOGSIZE_def sint_uint signed_take_bit_eq_if_positive uint_nat unat_of_nat take_bit_eq_mod bit_iff_odd)
  ultimately show ?thesis by (simp add: decode_head_def encode_head_def)
qed

lemma log_block_neq: "n \<le> LOGSIZE \<Longrightarrow> k < n \<Longrightarrow> (start :: u32) + 1 + of_nat k \<noteq> start"
proof
  assume n: "n \<le> LOGSIZE" "k < n" and e: "start + 1 + of_nat k = start"
  have "start + 1 + of_nat k = start + of_nat (Suc k)" by simp
  with e have "(of_nat (Suc k) :: u32) = 0" by simp
  then have "unat (of_nat (Suc k) :: u32) = 0" by simp
  moreover have "unat (of_nat (Suc k) :: u32) = Suc k"
    using n by (simp add: unat_of_nat take_bit_eq_mod LOGSIZE_def del: of_nat_Suc)
  ultimately show False by simp
qed

lemma log_block_inj:
  assumes "n \<le> LOGSIZE" "j < n" "k < n" "(a :: u32) + of_nat j = a + of_nat k"
  shows "j = k"
proof -
  have "(of_nat j :: u32) = of_nat k" using assms(4) by simp
  then have "unat (of_nat j :: u32) = unat (of_nat k :: u32)" by simp
  then show ?thesis using assms by (simp add: unat_of_nat take_bit_eq_mod LOGSIZE_def)
qed

lemma written_log: "written (log_writes dev a xs) = {(dev, a + of_nat k) |k. k < length xs}"
proof (induction dev a xs rule: log_writes.induct)
  case (2 dev a x xs)
  have "{(dev, a + of_nat k) |k. k < length (x # xs)} = insert (dev, a) {(dev, a + 1 + of_nat k) |k. k < length xs}"
  proof (rule set_eqI)
    fix p
    show "p \<in> {(dev, a + of_nat k) |k. k < length (x # xs)} \<longleftrightarrow> p \<in> insert (dev, a) {(dev, a + 1 + of_nat k) |k. k < length xs}"
      by (simp add: Ex_less_Suc2 conj_commute [of "_ = _"] add.assoc del: ex_simps)
  qed
  with 2 show ?case by simp
qed simp

lemma written_home: "length xs = length bs \<Longrightarrow> written (home_writes dev bs xs) = {(dev, b) |b. b \<in> set bs}"
proof -
  assume l: "length xs = length bs"
  have "written (home_writes dev bs xs) = (\<lambda>(b, x). (dev, b)) ` set (zip bs xs)"
    by (simp add: written_def home_writes_def image_image case_prod_unfold)
  also have "\<dots> = (\<lambda>b. (dev, b)) ` set (map fst (zip bs xs))" by (simp add: image_image case_prod_unfold)
  also have "\<dots> = {(dev, b) |b. b \<in> set bs}" using l by auto
  finally show ?thesis .
qed

lemma log_apply:
  "length xs \<le> LOGSIZE \<Longrightarrow> k < length xs \<Longrightarrow> apply_writes (log_writes dev a xs) L dev (a + of_nat k) = xs ! k"
proof (induction dev a xs arbitrary: k L rule: log_writes.induct)
  case (2 dev a x xs)
  show ?case
  proof (cases k)
    case 0
    have "(dev, a) \<notin> written (log_writes dev (a + 1) xs)"
    proof
      assume "(dev, a) \<in> written (log_writes dev (a + 1) xs)"
      then obtain j where "j < length xs" "a = a + 1 + of_nat j" by (auto simp: written_log)
      then show False using log_block_neq [of "length xs" j a] "2.prems"(1) by simp
    qed
    then show ?thesis using 0 by (simp add: apply_writes_other)
  next
    case (Suc j)
    have "a + of_nat k = a + 1 + of_nat j" using Suc by (simp add: add.assoc)
    moreover have "length xs \<le> LOGSIZE" "j < length xs" using "2.prems" Suc by simp_all
    ultimately show ?thesis using "2.IH" Suc by (simp add: add.assoc)
  qed
qed simp

lemma home_apply:
  assumes "distinct bs" and "length xs = length bs" and "k < length bs"
  shows "apply_writes (home_writes dev bs xs) L dev (bs ! k) = xs ! k"
  using assms
proof (induction bs arbitrary: xs k L)
  case (Cons b bs)
  obtain x ys where xs: "xs = x # ys" using Cons.prems(2) by (cases xs) auto
  have eq: "home_writes dev (b # bs) xs = (dev, b, x) # home_writes dev bs ys" by (simp add: home_writes_def xs)
  show ?case
  proof (cases k)
    case 0
    have "(dev, b) \<notin> written (home_writes dev bs ys)" using Cons.prems xs by (simp add: written_home)
    then show ?thesis using 0 xs eq by (simp add: apply_writes_other)
  next
    case (Suc j)
    then show ?thesis using Cons.IH [of ys j] Cons.prems xs eq by simp
  qed
qed simp

lemma write_head_spec:
  assumes "binv me {} (ld_bc s)" and "l_dev (ld_log s) \<noteq> 0" and "l_start (ld_log s) < FSSIZE" and "free_bufs (ld_bc s) \<noteq> {}"
  shows "\<exists>t. write_head me s = (Ret (), s\<lparr>ld_bc := t\<rparr>) \<and>
    did me [(l_dev (ld_log s), l_start (ld_log s),
      encode_head (l_blocks (ld_log s)) (logical (ld_bc s) (l_dev (ld_log s)) (l_start (ld_log s))))] (ld_bc s) t"
  using single_write [OF assms, of "encode_head (l_blocks (ld_log s))"]
  by (auto simp: write_head_def kop_defs inbc_def zoom_def)

lemma read_head_spec:
  assumes "binv me {} (ld_bc s)" and "l_dev (ld_log s) \<noteq> 0" and "l_start (ld_log s) < FSSIZE" and "free_bufs (ld_bc s) \<noteq> {}"
  shows "\<exists>t. read_head me s = (Ret (), s\<lparr>ld_bc := t, ld_log := (ld_log s)\<lparr>l_blocks :=
      decode_head (logical (ld_bc s) (l_dev (ld_log s)) (l_start (ld_log s)))\<rparr>\<rparr>) \<and> did me [] (ld_bc s) t"
proof -
  obtain i s1 t where r: "bread me (l_dev (ld_log s)) (l_start (ld_log s)) (ld_bc s) = (Ret i, s1)"
      "b_data (bufs s1 ! i) = logical (ld_bc s) (l_dev (ld_log s)) (l_start (ld_log s))"
      "brelse me i s1 = (Ret (), t)" "did me [] (ld_bc s) t"
    using single_read [OF assms] by blast
  then show ?thesis
    by (intro exI [of _ t]) (simp add: read_head_def kop_defs inbc_def zoom_def buf_data_def upd_log_def decode_head_def)
qed

text \<open>
  What holds of the log before a commit: the blocks of the transaction are distinct, pinned in the
  cache, and apart from the log area; no other block differs from the disk; the header on disk says
  that no transaction is committed.
\<close>

definition log_region :: "u32 \<Rightarrow> u32 set" where
  "log_region start = insert start {start + 1 + of_nat k |k. k < LOGSIZE - 1}"

definition log_geom :: "u32 \<Rightarrow> u32 list \<Rightarrow> bool" where
  "log_geom start bs \<longleftrightarrow> start < FSSIZE \<and> start \<notin> set bs \<and> distinct bs \<and> length bs < LOGSIZE \<and>
     log_area (start + 1) (LOGSIZE - 1) bs \<and> 1 \<notin> log_region start \<and> 1 \<notin> set bs"

definition log_wf :: "nat \<Rightarrow> ldisk \<Rightarrow> bool" where
  "log_wf me s \<longleftrightarrow> (let l = ld_log s; b = ld_bc s in
     binv me {} b \<and> length (bufs b) = NBUF \<and> l_dev l \<noteq> 0 \<and> log_geom (l_start l) (l_blocks l) \<and>
     dirty_blocks b = {(l_dev l, n) |n. n \<in> set (l_blocks l)} \<and> decode_head (disk b (l_dev l) (l_start l)) = [])"

lemma log_geomD:
  assumes "log_geom start bs"
  shows "start < FSSIZE" "start \<notin> set bs" "distinct bs" "length bs \<le> LOGSIZE" "log_area (start + 1) (length bs) bs"
  using assms by (auto simp: log_geom_def log_area_def)

lemma card_bufs:
  assumes inv: "binv me {} s" and "\<And>d n. (d, n) \<in> dirty_blocks s \<Longrightarrow> d \<noteq> 0"
  shows "card (free_bufs s) + card (dirty_blocks s) = length (bufs s)"
proof -
  note D = binvD [OF inv]
  let ?d = "{i. i < length (bufs s) \<and> b_dirty (bufs s ! i)}"
  have nz: "b_dev (bufs s ! i) \<noteq> 0" if "i \<in> ?d" for i
    using that assms(2) [of "b_dev (bufs s ! i)" "b_blockno (bufs s ! i)"] by (auto simp: dirty_blocks_iff bkey_def)
  have "inj_on (\<lambda>i. bkey (bufs s ! i)) ?d"
  proof (rule inj_onI)
    fix i j assume "i \<in> ?d" "j \<in> ?d" "bkey (bufs s ! i) = bkey (bufs s ! j)"
    then show "i = j" using D(4) [of i j] nz [of i] by simp
  qed
  then have "card ((\<lambda>i. bkey (bufs s ! i)) ` ?d) = card ?d" by (rule card_image)
  moreover have "(\<lambda>i. bkey (bufs s ! i)) ` ?d = dirty_blocks s" unfolding dirty_blocks_def image_def by blast
  moreover have f: "free_bufs s = {..<length (bufs s)} - ?d"
    using D(7) by (auto simp: free_bufs_def is_free_def)
  have "card (free_bufs s) = length (bufs s) - card ?d"
    unfolding f by (subst card_Diff_subset) auto
  moreover have "card ?d \<le> length (bufs s)" using card_mono [of "{..<length (bufs s)}" ?d] by auto
  ultimately show ?thesis by simp
qed

lemma log_wf_free:
  assumes "log_wf me s"
  shows "card (free_bufs (ld_bc s)) + length (l_blocks (ld_log s)) = NBUF" "free_bufs (ld_bc s) \<noteq> {}"
proof -
  let ?bs = "l_blocks (ld_log s)" and ?b = "ld_bc s"
  have W: "binv me {} ?b" "length (bufs ?b) = NBUF" "l_dev (ld_log s) \<noteq> 0" "distinct ?bs" "length ?bs < LOGSIZE"
      "dirty_blocks ?b = {(l_dev (ld_log s), n) |n. n \<in> set ?bs}"
    using assms by (simp_all add: log_wf_def log_geom_def Let_def)
  have "dirty_blocks ?b = Pair (l_dev (ld_log s)) ` set ?bs" using W(6) by auto
  then have "card (dirty_blocks ?b) = length ?bs" using W(4) by (simp add: card_image inj_on_def distinct_card)
  then show c: "card (free_bufs ?b) + length ?bs = NBUF" using card_bufs [OF W(1)] W(2,3,6) by auto
  show "free_bufs ?b \<noteq> {}" using c W(5) by (auto simp: NBUF_def LOGSIZE_def)
qed

lemma written_region:
  "(dev, n) \<in> written (log_writes dev (start + 1) xs) \<Longrightarrow> length xs < LOGSIZE \<Longrightarrow> n \<in> log_region start"
  by (auto simp: written_log log_region_def)

definition commit_writes :: "ldisk \<Rightarrow> (u32 \<times> u32 \<times> block) list" where
  "commit_writes s = (let l = ld_log s; dev = l_dev l; bs = l_blocks l; xs = map (logical (ld_bc s) dev) bs;
       h = encode_head bs (logical (ld_bc s) dev (l_start l))
     in log_writes dev (l_start l + 1) xs @ [(dev, l_start l, h)] @ home_writes dev bs xs @
        [(dev, l_start l, encode_head [] h)])"

lemma commit_exec:
  assumes wf: "log_wf me s" and ne: "l_blocks (ld_log s) \<noteq> []"
  shows "\<exists>t. commit me s = (Ret (), s\<lparr>ld_bc := t, ld_log := (ld_log s)\<lparr>l_blocks := []\<rparr>\<rparr>) \<and>
    did me (commit_writes s) (ld_bc s) t"
proof -
  define dev start bs b0 where "dev = l_dev (ld_log s)" and "start = l_start (ld_log s)"
    and "bs = l_blocks (ld_log s)" and "b0 = ld_bc s"
  define xs where "xs = map (logical b0 dev) bs"
  note defs = dev_def [symmetric] start_def [symmetric] bs_def [symmetric] b0_def [symmetric]
  have fr: "free_bufs b0 \<noteq> {}" using log_wf_free(2) [OF wf] by (simp add: b0_def)
  have W: "binv me {} b0" "free_bufs b0 \<noteq> {}" "dev \<noteq> 0" "start < FSSIZE" "start \<notin> set bs" "distinct bs"
      "length bs \<le> LOGSIZE" "log_area (start + 1) (length bs) bs" "dirty_blocks b0 = {(dev, n) |n. n \<in> set bs}"
    using wf fr log_geomD [of start bs] by (simp_all add: log_wf_def Let_def defs)
  have lx: "length xs = length bs" by (simp add: xs_def)
  have "\<exists>t1. write_log_loop me dev (start + 1) bs s = (Ret (), s\<lparr>ld_bc := t1\<rparr>) \<and>
      did me (log_writes dev (start + 1) (map (logical (ld_bc s) dev) bs)) (ld_bc s) t1"
    by (rule write_log_loop_spec) (use W in \<open>simp_all add: defs\<close>)
  then obtain t1 where t1: "write_log_loop me dev (start + 1) bs s = (Ret (), s\<lparr>ld_bc := t1\<rparr>)"
      "did me (log_writes dev (start + 1) xs) b0 t1"
    by (auto simp: defs xs_def)
  have nstart: "(dev, start) \<notin> written (log_writes dev (start + 1) xs)"
  proof
    assume "(dev, start) \<in> written (log_writes dev (start + 1) xs)"
    then obtain j where "j < length xs" "start = start + 1 + of_nat j" by (auto simp: written_log)
    then show False using log_block_neq [of "length xs" j start] W(7) lx by simp
  qed
  have h1: "logical t1 dev start = logical b0 dev start"
    using t1(2) W(3) apply_writes_other [OF nstart] by (simp add: did_def)
  have f1: "free_bufs t1 \<noteq> {}" using t1(2) W(2) by (auto simp: did_def)
  define h where "h = encode_head bs (logical b0 dev start)"
  have "\<exists>t2. write_head me (s\<lparr>ld_bc := t1\<rparr>) = (Ret (), s\<lparr>ld_bc := t1\<rparr>\<lparr>ld_bc := t2\<rparr>) \<and>
      did me [(dev, start, encode_head bs (logical t1 dev start))] t1 t2"
    using write_head_spec [of me "s\<lparr>ld_bc := t1\<rparr>"] did_binv [OF t1(2)] W(3,4) f1 by (simp add: defs)
  then obtain t2 where t2: "write_head me (s\<lparr>ld_bc := t1\<rparr>) = (Ret (), s\<lparr>ld_bc := t2\<rparr>)" "did me [(dev, start, h)] t1 t2"
    by (auto simp: h1 h_def)
  have d12: "did me (log_writes dev (start + 1) xs @ [(dev, start, h)]) b0 t2" using did_trans [OF t1(2) t2(2)] .
  have lg2: "logical t2 dev (start + 1 + of_nat k) = xs ! k" if "k < length bs" for k
  proof -
    have "start + 1 + of_nat k \<noteq> start" using log_block_neq [of "length bs" k start] W(7) that by simp
    then show ?thesis
      using d12 W(3,7) lx that log_apply [of xs k dev "start + 1" "logical b0"] by (simp add: did_def)
  qed
  have dt: "(dev, x) \<in> dirty_blocks t2" if "x \<in> set bs" for x
  proof -
    have "(dev, x) \<notin> written (log_writes dev (start + 1) xs)"
      using W(8) that lx by (auto simp: written_log log_area_def)
    moreover have "x \<noteq> start" using W(5) that by blast
    ultimately show ?thesis using d12 W(9) that by (simp add: did_def)
  qed
  have f2: "free_bufs t2 \<noteq> {}" using d12 W(2) by (auto simp: did_def)
  have "\<exists>t3. install_loop me dev (start + 1) bs (s\<lparr>ld_bc := t2\<rparr>) = (Ret (), s\<lparr>ld_bc := t2\<rparr>\<lparr>ld_bc := t3\<rparr>) \<and>
      did me (home_writes dev bs (map (\<lambda>k. logical (ld_bc (s\<lparr>ld_bc := t2\<rparr>)) dev (start + 1 + of_nat k)) [0..<length bs]))
        (ld_bc (s\<lparr>ld_bc := t2\<rparr>)) t3"
    by (rule install_loop_spec) (use W did_binv [OF t2(2)] f2 dt in simp_all)
  moreover have "map (\<lambda>k. logical t2 dev (start + 1 + of_nat k)) [0..<length bs] = xs"
    using lg2 lx by (intro nth_equalityI) simp_all
  ultimately obtain t3 where t3: "install_loop me dev (start + 1) bs (s\<lparr>ld_bc := t2\<rparr>) = (Ret (), s\<lparr>ld_bc := t3\<rparr>)"
      "did me (home_writes dev bs xs) t2 t3"
    by auto
  have h3: "logical t3 dev start = h"
  proof -
    have "(dev, start) \<notin> written (home_writes dev bs xs)" using W(5) lx by (simp add: written_home)
    then show ?thesis using t3(2) t2(2) W(3) apply_writes_other by (simp add: did_def)
  qed
  have f3: "free_bufs t3 \<noteq> {}" using t3(2) f2 by (auto simp: did_def)
  let ?s3 = "s\<lparr>ld_bc := t3, ld_log := (ld_log s)\<lparr>l_blocks := []\<rparr>\<rparr>"
  have "\<exists>t4. write_head me ?s3 = (Ret (), ?s3\<lparr>ld_bc := t4\<rparr>) \<and> did me [(dev, start, encode_head [] (logical t3 dev start))] t3 t4"
    using write_head_spec [of me ?s3] did_binv [OF t3(2)] W(3,4) f3 by (simp add: defs)
  then obtain t4 where t4: "write_head me ?s3 = (Ret (), ?s3\<lparr>ld_bc := t4\<rparr>)" "did me [(dev, start, encode_head [] h)] t3 t4"
    by (auto simp: h3)
  have "commit_writes s = (log_writes dev (start + 1) xs @ [(dev, start, h)]) @ (home_writes dev bs xs @ [(dev, start, encode_head [] h)])"
    by (simp add: commit_writes_def Let_def defs xs_def h_def)
  moreover have "did me ((log_writes dev (start + 1) xs @ [(dev, start, h)]) @ (home_writes dev bs xs @ [(dev, start, encode_head [] h)])) b0 t4"
    by (rule did_trans [OF d12 did_trans [OF t3(2) t4(2)]])
  moreover have "commit me s = (Ret (), s\<lparr>ld_bc := t4, ld_log := (ld_log s)\<lparr>l_blocks := []\<rparr>\<rparr>)"
    using t1(1) t2(1) t3(1) t4(1) ne
    by (simp add: commit_def write_log_def install_trans_def upd_log_def kop_defs defs)
  ultimately show ?thesis by (auto simp: b0_def)
qed

section \<open>Crashes\<close>

lemma clean_logical:
  assumes "binv me {} s" and "dev \<noteq> 0" and "(dev, n) \<notin> dirty_blocks s"
  shows "logical s dev n = disk s dev n"
proof (cases "\<exists>i<length (bufs s). bkey (bufs s ! i) = (dev, n) \<and> b_valid (bufs s ! i)")
  case True
  then obtain i where i: "i < length (bufs s)" "bkey (bufs s ! i) = (dev, n)" "b_valid (bufs s ! i)" by blast
  have "\<not> b_dirty (bufs s ! i)" using i(1,2) assms(3) by (auto simp: dirty_blocks_iff)
  then show ?thesis
    using i logical_cached [OF assms(1) i(1,2) assms(2) i(3)] binvD(8) [OF assms(1) i(1)] by (auto simp: bkey_def)
next
  case False
  show ?thesis by (rule logical_uncached) (use False in blast)
qed

text \<open>
  The disk \<open>D\<close> of the log's device holds the contents \<open>new\<close>: directly, with an empty header; or with
  the transaction on the blocks \<open>bs\<close> committed, its data in the log area.
\<close>

definition holds :: "u32 \<Rightarrow> u32 list \<Rightarrow> (u32 \<Rightarrow> block) \<Rightarrow> (u32 \<Rightarrow> block) \<Rightarrow> bool" where
  "holds start bs new D \<longleftrightarrow>
     (decode_head (D start) = [] \<and> (\<forall>n. n \<notin> log_region start \<longrightarrow> D n = new n)) \<or>
     (decode_head (D start) = bs \<and> (\<forall>k<length bs. D (start + 1 + of_nat k) = new (bs ! k)) \<and>
      (\<forall>n. n \<notin> log_region start \<longrightarrow> n \<notin> set bs \<longrightarrow> D n = new n))"

lemma log_writes_take: "take k (log_writes dev a xs) = log_writes dev a (take k xs)"
  by (induction dev a xs arbitrary: k rule: log_writes.induct) (auto simp: take_Cons' )

lemma home_writes_take: "take k (home_writes dev bs xs) = home_writes dev (take k bs) (take k xs)"
  by (simp add: home_writes_def take_map take_zip)

lemma log_writes_length [simp]: "length (log_writes dev a xs) = length xs"
  by (induction dev a xs rule: log_writes.induct) simp_all

lemma home_writes_length [simp]: "length (home_writes dev bs xs) = min (length bs) (length xs)"
  by (simp add: home_writes_def)

lemma start_not_logged:
  assumes "length xs \<le> LOGSIZE"
  shows "(dev, start) \<notin> written (log_writes dev (start + 1) xs)"
proof
  assume "(dev, start) \<in> written (log_writes dev (start + 1) xs)"
  then obtain j where "j < length xs" "start = start + 1 + of_nat j" by (auto simp: written_log)
  then show False using log_block_neq [of "length xs" j start] assms by simp
qed

lemma geom_region:
  assumes "log_geom start bs"
  shows "log_region start \<inter> set bs = {}" "k < length bs \<Longrightarrow> start + 1 + of_nat k \<in> log_region start"
    "k < length bs \<Longrightarrow> start + 1 + of_nat k \<noteq> start" "k < length bs \<Longrightarrow> start + 1 + of_nat k \<notin> set bs"
  using assms log_block_neq [of "length bs" k start]
  by (auto simp: log_geom_def log_region_def log_area_def)

text \<open>While the home blocks are written, the committed transaction stays in the log.\<close>

lemma holds_home:
  assumes g: "log_geom start bs" and c: "decode_head (D dev start) = bs" "\<forall>k<length bs. D dev (start + 1 + of_nat k) = new (bs ! k)"
      "\<forall>n. n \<notin> log_region start \<longrightarrow> n \<notin> set bs \<longrightarrow> D dev n = new n"
  shows "holds start bs new (apply_writes (take j (home_writes dev bs (map new bs) @ [(dev, start, encode_head [] h)])) D dev)"
proof (cases "j \<le> length bs")
  case True
  let ?ws = "home_writes dev (take j bs) (take j (map new bs))"
  have nw: "(dev, n) \<notin> written ?ws" if "n \<notin> set bs" for n
    using that by (auto simp: written_home take_map dest: in_set_takeD)
  have s: "start \<notin> set bs" using g by (simp add: log_geom_def)
  have a: "apply_writes ?ws D dev n = D dev n" if "n \<notin> set bs" for n using nw [OF that] by (rule apply_writes_other)
  have t: "take j (home_writes dev bs (map new bs) @ [(dev, start, encode_head [] h)]) = ?ws"
    using True by (simp add: home_writes_take)
  have "\<forall>k<length bs. apply_writes ?ws D dev (start + 1 + of_nat k) = new (bs ! k)"
    using a geom_region(4) [OF g] c(2) by metis
  then show ?thesis unfolding t holds_def using a [OF s] c(1,3) a by metis
next
  case False
  then have t: "take j (home_writes dev bs (map new bs) @ [(dev, start, encode_head [] h)]) =
      home_writes dev bs (map new bs) @ [(dev, start, encode_head [] h)]" by simp
  let ?E = "apply_writes (home_writes dev bs (map new bs) @ [(dev, start, encode_head [] h)]) D dev"
  have "decode_head (?E start) = []" using decode_encode [of "[]" h] by simp
  moreover have "?E n = new n" if n: "n \<notin> log_region start" for n
  proof (cases "n \<in> set bs")
    case True
    then obtain k where k: "k < length bs" "n = bs ! k" by (auto simp: in_set_conv_nth)
    have "n \<noteq> start" using n by (auto simp: log_region_def)
    then show ?thesis using k home_apply [of bs "map new bs" k dev D] g by (simp add: log_geom_def)
  next
    case F: False
    have "n \<noteq> start" using n by (auto simp: log_region_def)
    moreover have "(dev, n) \<notin> written (home_writes dev bs (map new bs))" using F by (simp add: written_home)
    ultimately show ?thesis using c(3) n F by (simp add: apply_writes_other)
  qed
  ultimately show ?thesis unfolding t holds_def by blast
qed

lemma commit_prefix:
  assumes wf: "log_wf me s"
  shows "holds (l_start (ld_log s)) (l_blocks (ld_log s))
    (if k \<le> length (l_blocks (ld_log s)) then disk (ld_bc s) (l_dev (ld_log s)) else logical (ld_bc s) (l_dev (ld_log s)))
    (apply_writes (take k (commit_writes s)) (disk (ld_bc s)) (l_dev (ld_log s)))"
proof -
  define dev start bs b0 where "dev = l_dev (ld_log s)" and "start = l_start (ld_log s)"
    and "bs = l_blocks (ld_log s)" and "b0 = ld_bc s"
  note defs = dev_def [symmetric] start_def [symmetric] bs_def [symmetric] b0_def [symmetric]
  have W: "binv me {} b0" "dev \<noteq> 0" "log_geom start bs" "dirty_blocks b0 = {(dev, n) |n. n \<in> set bs}"
      "decode_head (disk b0 dev start) = []"
    using wf by (simp_all add: log_wf_def Let_def defs)
  have ln: "length bs \<le> LOGSIZE" "length bs < LOGSIZE" using W(3) by (simp_all add: log_geom_def)
  define xs h where "xs = map (logical b0 dev) bs" and "h = encode_head bs (logical b0 dev start)"
  have cw: "commit_writes s = log_writes dev (start + 1) xs @ (dev, start, h) # home_writes dev bs xs @ [(dev, start, encode_head [] h)]"
    by (simp add: commit_writes_def Let_def defs xs_def h_def)
  have lx: "length xs = length bs" by (simp add: xs_def)
  show ?thesis
  proof (cases "k \<le> length bs")
    case True
    have t: "take k (commit_writes s) = log_writes dev (start + 1) (take k xs)"
      using True lx by (simp add: cw log_writes_take)
    let ?E = "apply_writes (log_writes dev (start + 1) (take k xs)) (disk b0) dev"
    have "?E start = disk b0 dev start"
      using start_not_logged [of "take k xs"] ln lx by (intro apply_writes_other) simp
    moreover have "?E n = disk b0 dev n" if "n \<notin> log_region start" for n
      using that lx ln(2) written_region [of dev n start "take k xs"] by (intro apply_writes_other) (auto simp: min_less_iff_disj)
    ultimately show ?thesis using True W(5) by (simp add: t holds_def defs)
  next
    case False
    then obtain j where j: "k = Suc (length bs + j)" by (metis not_less_eq_eq le_Suc_ex Suc_le_eq add_Suc)
    let ?L = "apply_writes (log_writes dev (start + 1) xs) (disk b0)"
    let ?D = "?L(dev := (?L dev)(start := h))"
    have t: "take k (commit_writes s) = (log_writes dev (start + 1) xs @ [(dev, start, h)]) @
        take j (home_writes dev bs xs @ [(dev, start, encode_head [] h)])"
      using lx by (simp add: cw j)
    have "holds start bs (logical b0 dev) (apply_writes (take j (home_writes dev bs (map (logical b0 dev) bs) @
        [(dev, start, encode_head [] h)])) ?D dev)"
    proof (rule holds_home [OF W(3)])
      show "decode_head (?D dev start) = bs" using decode_encode [OF ln(1)] by (simp add: h_def)
      show "\<forall>k<length bs. ?D dev (start + 1 + of_nat k) = logical b0 dev (bs ! k)"
        using log_apply [of xs _ dev "start + 1" "disk b0"] geom_region(3) [OF W(3)] ln lx by (simp add: xs_def)
      show "\<forall>n. n \<notin> log_region start \<longrightarrow> n \<notin> set bs \<longrightarrow> ?D dev n = logical b0 dev n"
      proof (intro allI impI)
        fix n assume n: "n \<notin> log_region start" "n \<notin> set bs"
        have "?L dev n = disk b0 dev n"
          using n(1) lx ln(2) written_region [of dev n start xs] by (intro apply_writes_other) auto
        moreover have "n \<noteq> start" using n(1) by (auto simp: log_region_def)
        moreover have "logical b0 dev n = disk b0 dev n" using n(2) W(4) by (intro clean_logical [OF W(1,2)]) simp
        ultimately show "?D dev n = logical b0 dev n" by simp
      qed
    qed
    then show ?thesis using False by (simp add: t defs xs_def)
  qed
qed

end
