(* ===== verification/Log_Recovery.thy ===== *)
theory Log_Recovery
  imports Log
begin

text \<open>
  Crashes and concurrent transactions of the log (\<^verbatim>\<open>log.c\<close>): booting and \<^verbatim>\<open>initlog\<close> on the disk a
  crash leaves, the update of a block within a transaction, and the interleaving of several
  file-system calls between \<^verbatim>\<open>begin_op\<close> and \<^verbatim>\<open>end_op\<close>.
\<close>

section \<open>Recovery\<close>

text \<open>The machine after a crash: an empty cache over the disk \<open>E\<close>, the static \<^verbatim>\<open>struct log\<close> zeroed.\<close>

definition boot :: "(u32 \<Rightarrow> u32 \<Rightarrow> block) \<Rightarrow> ldisk" where
  "boot E = \<lparr>ld_bc = binit \<lparr>bufs = [], mru = [], disk = E, disk_writes = [], havedisk1 = True\<rparr>,
     ld_log = \<lparr>l_start = 0, l_size = 0, l_outstanding = 0, l_committing = False, l_dev = 0, l_blocks = []\<rparr>\<rparr>"

lemma boot_facts:
  "binv me {} (ld_bc (boot E))" "2 \<le> card (free_bufs (ld_bc (boot E)))" "dirty_blocks (ld_bc (boot E)) = {}"
  "logical (ld_bc (boot E)) d n = E d n" "disk (ld_bc (boot E)) = E" "disk_writes (ld_bc (boot E)) = []"
proof -
  show "binv me {} (ld_bc (boot E))" unfolding boot_def by simp (rule binit_binv, simp)
  have "free_bufs (ld_bc (boot E)) = {..<NBUF}"
    by (auto simp: free_bufs_def is_free_def boot_def binit_def empty_buf_def)
  then show "2 \<le> card (free_bufs (ld_bc (boot E)))" by (simp add: NBUF_def)
  show "dirty_blocks (ld_bc (boot E)) = {}" by (auto simp: dirty_blocks_def boot_def binit_def empty_buf_def)
  have "logical (ld_bc (boot E)) d n = disk (ld_bc (boot E)) d n"
    by (rule logical_uncached) (simp add: boot_def binit_def empty_buf_def)
  then show "logical (ld_bc (boot E)) d n = E d n" by (simp add: boot_def binit_def)
  show "disk (ld_bc (boot E)) = E" "disk_writes (ld_bc (boot E)) = []" by (simp_all add: boot_def binit_def)
qed

lemma boot_log: "l_blocks (ld_log (boot E)) = []"
  by (simp add: boot_def)

lemma ldisk_swap: "s\<lparr>ld_log := l, ld_bc := b\<rparr> = s\<lparr>ld_bc := b, ld_log := l\<rparr>"
  by simp

lemma recover_exec:
  fixes s :: ldisk
  defines "dev \<equiv> l_dev (ld_log s)" and "start \<equiv> l_start (ld_log s)" and "b0 \<equiv> ld_bc s"
  defines "bs \<equiv> decode_head (logical b0 dev start)"
  assumes inv: "binv me {} b0" and room: "2 \<le> card (free_bufs b0)" and dev: "dev \<noteq> 0" and g: "start < FSSIZE"
    "start \<notin> set bs" "distinct bs" "log_area (start + 1) (length bs) bs"
  shows "\<exists>t. recover_from_log me s = (Ret (), s\<lparr>ld_bc := t, ld_log := (ld_log s)\<lparr>l_blocks := []\<rparr>\<rparr>) \<and>
    did me (home_writes dev bs (map (\<lambda>k. logical b0 dev (start + 1 + of_nat k)) [0..<length bs]) @
      [(dev, start, encode_head [] (logical b0 dev start))]) b0 t"
proof -
  note defs = dev_def [symmetric] start_def [symmetric] b0_def [symmetric] bs_def [symmetric]
  let ?l = "(ld_log s)\<lparr>l_blocks := bs\<rparr>"
  let ?xs = "map (\<lambda>k. logical b0 dev (start + 1 + of_nat k)) [0..<length bs]"
  have ne: "free_bufs b0 \<noteq> {}" using room by auto
  obtain t1 where t1: "read_head me s = (Ret (), s\<lparr>ld_bc := t1, ld_log := ?l\<rparr>)" "did me [] b0 t1"
    using read_head_spec [of me s] inv dev g(1) ne by (auto simp: defs)
  have lg1: "logical t1 dev n = logical b0 dev n" for n using t1(2) dev by (simp add: did_def)
  have r1: "2 \<le> card (free_bufs t1)" using did_card [OF t1(2)] room by simp
  then have ne1: "free_bufs t1 \<noteq> {}" by auto
  have "\<exists>t2. install_loop me dev (start + 1) bs (s\<lparr>ld_bc := t1, ld_log := ?l\<rparr>) =
        (Ret (), s\<lparr>ld_bc := t1, ld_log := ?l\<rparr>\<lparr>ld_bc := t2\<rparr>) \<and>
      did me (home_writes dev bs (map (\<lambda>k. logical (ld_bc (s\<lparr>ld_bc := t1, ld_log := ?l\<rparr>)) dev (start + 1 + of_nat k)) [0..<length bs]))
        (ld_bc (s\<lparr>ld_bc := t1, ld_log := ?l\<rparr>)) t2"
    by (rule install_loop_spec) (use did_binv [OF t1(2)] dev g ne1 r1 in simp_all)
  then obtain t2 where t2: "install_loop me dev (start + 1) bs (s\<lparr>ld_bc := t1, ld_log := ?l\<rparr>) = (Ret (), s\<lparr>ld_bc := t2, ld_log := ?l\<rparr>)"
      "did me (home_writes dev bs ?xs) t1 t2"
    by (auto simp: lg1 ldisk_swap)
  have ne2: "free_bufs t2 \<noteq> {}" using t2(2) ne1 by (auto simp: did_def)
  let ?s2 = "s\<lparr>ld_bc := t2, ld_log := (ld_log s)\<lparr>l_blocks := []\<rparr>\<rparr>"
  have "(dev, start) \<notin> written (home_writes dev bs ?xs)" using g(2) by (simp add: written_home)
  then have lg2: "logical t2 dev start = logical b0 dev start"
    using t2(2) dev lg1 apply_writes_other by (simp add: did_def)
  have "\<exists>t3. write_head me ?s2 = (Ret (), ?s2\<lparr>ld_bc := t3\<rparr>) \<and> did me [(dev, start, encode_head [] (logical t2 dev start))] t2 t3"
    using write_head_spec [of me ?s2] did_binv [OF t2(2)] dev g(1) ne2 by (simp add: defs)
  then obtain t3 where t3: "write_head me ?s2 = (Ret (), ?s2\<lparr>ld_bc := t3\<rparr>)" "did me [(dev, start, encode_head [] (logical b0 dev start))] t2 t3"
    by (auto simp: lg2)
  have "did me ([] @ (home_writes dev bs ?xs @ [(dev, start, encode_head [] (logical b0 dev start))])) b0 t3"
    by (rule did_trans [OF t1(2) did_trans [OF t2(2) t3(2)]])
  moreover have "recover_from_log me s = (Ret (), s\<lparr>ld_bc := t3, ld_log := (ld_log s)\<lparr>l_blocks := []\<rparr>\<rparr>)"
    using t1(1) t2(1) t3(1) by (simp add: recover_from_log_def install_trans_def upd_log_def kop_defs defs)
  ultimately show ?thesis by auto
qed

lemma readsb_spec:
  assumes "binv me {} (ld_bc s)" and "dev \<noteq> 0" and "free_bufs (ld_bc s) \<noteq> {}"
  shows "\<exists>t. readsb me dev s = (Ret (decode_sb (logical (ld_bc s) dev 1)), s\<lparr>ld_bc := t\<rparr>) \<and> did me [] (ld_bc s) t"
proof -
  have "(1 :: u32) < FSSIZE" by (simp add: FSSIZE_def)
  then obtain i s1 t where r: "bread me dev 1 (ld_bc s) = (Ret i, s1)" "b_data (bufs s1 ! i) = logical (ld_bc s) dev 1"
      "brelse me i s1 = (Ret (), t)" "did me [] (ld_bc s) t"
    using single_read [OF assms(1,2) _ assms(3)] by blast
  then show ?thesis
    by (intro exI [of _ t]) (simp add: readsb_def kop_defs inbc_def zoom_def buf_data_def)
qed

lemma initlog_exec:
  assumes dev: "dev \<noteq> 0" and "start = sb_logstart (decode_sb (E dev 1))" and "bs = decode_head (E dev start)"
    and g: "start < FSSIZE" "start \<notin> set bs" "distinct bs" "log_area (start + 1) (length bs) bs"
  shows "\<exists>t. initlog me dev (boot E) = (Ret (), t) \<and>
    ld_log t = (ld_log (boot E))\<lparr>l_start := start, l_size := sint (sb_nlog (decode_sb (E dev 1))), l_dev := dev\<rparr> \<and>
    did me (home_writes dev bs (map (\<lambda>k. E dev (start + 1 + of_nat k)) [0..<length bs]) @
      [(dev, start, encode_head [] (E dev start))]) (ld_bc (boot E)) (ld_bc t)"
proof -
  let ?b = "ld_bc (boot E)"
  have ne: "free_bufs ?b \<noteq> {}" using boot_facts(2) [of E] by auto
  obtain t1 where t1: "readsb me dev (boot E) = (Ret (decode_sb (E dev 1)), (boot E)\<lparr>ld_bc := t1\<rparr>)" "did me [] ?b t1"
    using readsb_spec [OF boot_facts(1) dev ne] by (auto simp: boot_facts)
  define s1 where "s1 = (boot E)\<lparr>ld_bc := t1, ld_log := (ld_log (boot E))\<lparr>l_start := start,
    l_size := sint (sb_nlog (decode_sb (E dev 1))), l_dev := dev\<rparr>\<rparr>"
  have lg: "logical t1 dev n = E dev n" for n using t1(2) dev by (simp add: did_def boot_facts)
  have s1: "l_dev (ld_log s1) = dev" "l_start (ld_log s1) = start" "ld_bc s1 = t1" by (simp_all add: s1_def)
  have r: "2 \<le> card (free_bufs t1)" using did_card [OF t1(2)] boot_facts(2) [of E] by simp
  obtain t2 where t2: "recover_from_log me s1 = (Ret (), s1\<lparr>ld_bc := t2, ld_log := (ld_log s1)\<lparr>l_blocks := []\<rparr>\<rparr>)"
      "did me (home_writes dev bs (map (\<lambda>k. E dev (start + 1 + of_nat k)) [0..<length bs]) @
        [(dev, start, encode_head [] (E dev start))]) t1 t2"
    using recover_exec [of me s1] did_binv [OF t1(2)] r dev g by (auto simp: s1 lg assms(3) [symmetric])
  have "initlog me dev (boot E) = (Ret (), s1\<lparr>ld_bc := t2, ld_log := (ld_log s1)\<lparr>l_blocks := []\<rparr>\<rparr>)"
    using t1(1) t2(1) by (simp add: initlog_def BSIZE_def LOGSIZE_def kop_defs upd_log_def s1_def assms(2))
  then show ?thesis using did_trans [OF t1(2) t2(2)] by (auto simp: s1_def boot_def)
qed

lemma holds_1:
  assumes "log_geom start bs" and "holds start bs new D"
  shows "D 1 = new 1"
  using assms by (auto simp: holds_def log_geom_def)

lemma initlog_holds:
  assumes dev: "dev \<noteq> 0" and g: "log_geom start bs" and h: "holds start bs new (E dev)"
    and sb: "sb_logstart (decode_sb (new 1)) = start"
  shows "\<exists>t. initlog me dev (boot E) = (Ret (), t) \<and> l_blocks (ld_log t) = [] \<and> binv me {} (ld_bc t) \<and>
    dirty_blocks (ld_bc t) = {} \<and> decode_head (disk (ld_bc t) dev start) = [] \<and>
    (\<forall>n. n \<notin> log_region start \<longrightarrow> disk (ld_bc t) dev n = new n) \<and>
    (\<forall>j. holds start bs new (apply_writes (take j (disk_writes (ld_bc t))) E dev))"
proof -
  have sb': "start = sb_logstart (decode_sb (E dev 1))" using sb holds_1 [OF g h] by simp
  have g': "start < FSSIZE" "start \<notin> set bs" "distinct bs" "log_area (start + 1) (length bs) bs"
    using log_geomD [OF g] by simp_all
  consider (clear) "decode_head (E dev start) = []" "\<forall>n. n \<notin> log_region start \<longrightarrow> E dev n = new n"
    | (logged) "decode_head (E dev start) = bs" "\<forall>k<length bs. E dev (start + 1 + of_nat k) = new (bs ! k)"
      "\<forall>n. n \<notin> log_region start \<longrightarrow> n \<notin> set bs \<longrightarrow> E dev n = new n"
    using h by (auto simp: holds_def)
  then have "\<exists>t. initlog me dev (boot E) = (Ret (), t) \<and> l_blocks (ld_log t) = [] \<and>
    (\<exists>ws. did me ws (ld_bc (boot E)) (ld_bc t) \<and> (\<forall>j. holds start bs new (apply_writes (take j ws) E dev)) \<and>
      decode_head (apply_writes ws E dev start) = [] \<and>
      (\<forall>n. n \<notin> log_region start \<longrightarrow> apply_writes ws E dev n = new n))"
  proof cases
    case clear
    let ?ws = "[(dev, start, encode_head [] (E dev start))]"
    obtain t where t: "initlog me dev (boot E) = (Ret (), t)" "l_blocks (ld_log t) = []" "did me ?ws (ld_bc (boot E)) (ld_bc t)"
      using initlog_exec [where E = E and me = me, OF dev sb' clear(1) [symmetric] g'(1)] by (auto simp: home_writes_def log_area_def boot_log)
    have d: "decode_head (apply_writes ?ws E dev start) = []" using decode_encode [of "[]"] by simp
    have n: "\<forall>n. n \<notin> log_region start \<longrightarrow> apply_writes ?ws E dev n = new n"
      using clear(2) by (auto simp: log_region_def)
    have "holds start bs new (apply_writes (take j ?ws) E dev)" for j
    proof (cases j)
      case 0
      then show ?thesis using h by simp
    next
      case (Suc i)
      then show ?thesis unfolding holds_def using d n by simp
    qed
    with t d n show ?thesis by blast
  next
    case logged
    let ?h = "E dev start"
    let ?ws = "home_writes dev bs (map new bs) @ [(dev, start, encode_head [] ?h)]"
    have m: "map (\<lambda>k. E dev (start + 1 + of_nat k)) [0..<length bs] = map new bs"
      using logged(2) by (intro nth_equalityI) simp_all
    obtain t where t: "initlog me dev (boot E) = (Ret (), t)" "l_blocks (ld_log t) = []" "did me ?ws (ld_bc (boot E)) (ld_bc t)"
      using initlog_exec [where E = E and me = me, OF dev sb' logged(1) [symmetric] g'] by (auto simp: m boot_log)
    have hj: "holds start bs new (apply_writes (take j ?ws) E dev)" for j
      by (rule holds_home) (use g logged in simp_all)
    have d: "decode_head (apply_writes ?ws E dev start) = []" using decode_encode [of "[]"] by simp
    moreover have "apply_writes ?ws E dev n = new n" if n: "n \<notin> log_region start" for n
    proof -
      have "n \<noteq> start" using n by (auto simp: log_region_def)
      then show ?thesis
        using home_apply [of bs "map new bs" _ dev E] g'(3) n logged(3)
          apply_writes_other [of dev n "home_writes dev bs (map new bs)" E]
        by (cases "n \<in> set bs") (auto simp: in_set_conv_nth written_home)
    qed
    ultimately show ?thesis using t hj by blast
  qed
  then obtain t ws where t: "initlog me dev (boot E) = (Ret (), t)" "l_blocks (ld_log t) = []" "did me ws (ld_bc (boot E)) (ld_bc t)"
      "\<forall>j. holds start bs new (apply_writes (take j ws) E dev)" "decode_head (apply_writes ws E dev start) = []"
      "\<forall>n. n \<notin> log_region start \<longrightarrow> apply_writes ws E dev n = new n"
    by blast
  have "disk_writes (ld_bc t) = ws" "disk (ld_bc t) = apply_writes ws E" "dirty_blocks (ld_bc t) = {}"
    using t(3) by (simp_all add: did_def boot_facts)
  then show ?thesis using t did_binv [OF t(3)] by simp
qed

text \<open>
  \<open>crashes me dev D E\<close>: from the disk \<open>D\<close>, any number of boots that each crash after some of the disk
  writes of \<^verbatim>\<open>initlog\<close> leave the disk \<open>E\<close>.
\<close>

inductive crashes :: "nat \<Rightarrow> u32 \<Rightarrow> (u32 \<Rightarrow> u32 \<Rightarrow> block) \<Rightarrow> (u32 \<Rightarrow> u32 \<Rightarrow> block) \<Rightarrow> bool" for me dev D where
  none: "crashes me dev D D"
| again: "crashes me dev D E \<Longrightarrow>
    crashes me dev D (apply_writes (take j (disk_writes (ld_bc (snd (initlog me dev (boot E)))))) E)"

lemma crashes_holds:
  assumes "crashes me dev D E" and "dev \<noteq> 0" and "log_geom start bs" and "holds start bs new (D dev)"
    and "sb_logstart (decode_sb (new 1)) = start"
  shows "holds start bs new (E dev)"
  using assms
proof (induction rule: crashes.induct)
  case (again E j)
  obtain t where "initlog me dev (boot E) = (Ret (), t)" "\<forall>j. holds start bs new (apply_writes (take j (disk_writes (ld_bc t))) E dev)"
    using initlog_holds [where E = E, OF again.prems(1,2) again.IH [OF again.prems] again.prems(4)] by blast
  then show ?case by simp
qed

text \<open>
  C1. Crash atomicity of the log.  In a state ready to commit, \<^verbatim>\<open>commit\<close> succeeds and empties the
  log.  Let the machine lose power after any number \<open>k\<close> of the disk writes of that commit, and then
  again any number of times during recovery.  The next boot's \<^verbatim>\<open>initlog\<close> succeeds and leaves every
  block outside the log either as it was before the transaction (when \<open>k\<close> did not reach the write of
  the header) or as the whole transaction wrote it: never a mixture.
\<close>

theorem log_crash_atomic:
  assumes "log_wf me s" and "l_blocks (ld_log s) \<noteq> []"
    and "dev = l_dev (ld_log s)" and "start = l_start (ld_log s)" and "m = length (l_blocks (ld_log s))"
    and "sb_logstart (decode_sb (disk (ld_bc s) dev 1)) = start"
  shows "\<exists>u. commit me s = (Ret (), u) \<and> l_blocks (ld_log u) = [] \<and>
    (\<forall>k E. crashes me dev (apply_writes (take k (drop (length (disk_writes (ld_bc s))) (disk_writes (ld_bc u)))) (disk (ld_bc s))) E \<longrightarrow>
      (\<exists>t. initlog me dev (boot E) = (Ret (), t) \<and>
        (\<forall>n. n \<notin> log_region start \<longrightarrow>
          disk (ld_bc t) dev n = (if k \<le> m then disk (ld_bc s) dev n else logical (ld_bc s) dev n))))"
proof -
  obtain t where t: "commit me s = (Ret (), s\<lparr>ld_bc := t, ld_log := (ld_log s)\<lparr>l_blocks := []\<rparr>\<rparr>)" "did me (commit_writes s) (ld_bc s) t"
    using commit_exec [OF assms(1,2)] by blast
  have W: "binv me {} (ld_bc s)" "dev \<noteq> 0" "log_geom start (l_blocks (ld_log s))"
      "dirty_blocks (ld_bc s) = {(dev, n) |n. n \<in> set (l_blocks (ld_log s))}"
    using assms by (simp_all add: log_wf_def Let_def)
  have dw: "drop (length (disk_writes (ld_bc s))) (disk_writes t) = commit_writes s" using t(2) by (simp add: did_def)
  have l1: "logical (ld_bc s) dev 1 = disk (ld_bc s) dev 1"
    by (rule clean_logical [OF W(1,2)]) (use W(3,4) in \<open>simp add: log_geom_def\<close>)
  have "\<exists>v. initlog me dev (boot E) = (Ret (), v) \<and>
        (\<forall>n. n \<notin> log_region start \<longrightarrow> disk (ld_bc v) dev n = (if k \<le> m then disk (ld_bc s) dev n else logical (ld_bc s) dev n))"
    if c: "crashes me dev (apply_writes (take k (commit_writes s)) (disk (ld_bc s))) E" for k E
  proof -
    let ?new = "if k \<le> m then disk (ld_bc s) dev else logical (ld_bc s) dev"
    have h: "holds start (l_blocks (ld_log s)) ?new (apply_writes (take k (commit_writes s)) (disk (ld_bc s)) dev)"
      unfolding assms(3-5) by (rule commit_prefix [OF assms(1)])
    have sb: "sb_logstart (decode_sb (?new 1)) = start" using assms(6) l1 by simp
    have "holds start (l_blocks (ld_log s)) ?new (E dev)" by (rule crashes_holds [OF c W(2,3) h sb])
    from initlog_holds [where E = E, OF W(2,3) this sb, of me] show ?thesis by (auto simp: assms(5))
  qed
  then show ?thesis using t(1) by (auto simp: dw)
qed

section \<open>Transactions\<close>

text \<open>
  The way the file system updates a block: read it, change the cached data, \<^verbatim>\<open>log_write\<close>, release.
\<close>

definition log_update :: "nat \<Rightarrow> u32 \<Rightarrow> u32 \<Rightarrow> (block \<Rightarrow> block) \<Rightarrow> (ldisk, unit) kop" where
  "log_update me dev n f =
     kbind (inbc (bread me dev n)) (\<lambda>b.
     kseq (inbc (bset b f)) (
     kseq (log_write b) (
     inbc (brelse me b))))"

definition log_room :: "ldisk \<Rightarrow> bool" where
  "log_room s \<longleftrightarrow> length (l_blocks (ld_log s)) < LOGSIZE - 1 \<and> int (length (l_blocks (ld_log s))) < l_size (ld_log s) - 1 \<and>
     1 \<le> l_outstanding (ld_log s)"

lemma upd_dirty:
  assumes "i < length (bufs s)" and "b_dirty (f (bufs s ! i))" and "bkey (f (bufs s ! i)) = bkey (bufs s ! i)"
  shows "dirty_blocks (upd_buf i f s) = insert (bkey (bufs s ! i)) (dirty_blocks s)"
proof -
  have nth: "bufs (upd_buf i f s) ! j = (if j = i then f (bufs s ! i) else bufs s ! j)" for j
    using upd_buf_nth [OF assms(1)] by simp
  have 1: "bkey (bufs (upd_buf i f s) ! j) = bkey (bufs s ! j)" for j using assms(3) by (simp add: nth)
  have 2: "b_dirty (bufs (upd_buf i f s) ! j) \<longleftrightarrow> j = i \<or> b_dirty (bufs s ! j)" for j using assms(2) by (simp add: nth)
  show ?thesis using assms(1) by (auto simp: dirty_blocks_def 1 2)
qed

lemma log_update_exec:
  assumes wf: "log_wf me s" and room: "log_room s" and dev: "dev = l_dev (ld_log s)"
    and n: "n < FSSIZE" "n \<notin> log_region (l_start (ld_log s))" "n \<noteq> 1"
  shows "\<exists>t. log_update me dev n f s = (Ret (), t) \<and> log_wf me t \<and> disk (ld_bc t) = disk (ld_bc s) \<and>
    disk_writes (ld_bc t) = disk_writes (ld_bc s) \<and>
    (\<forall>d m. d \<noteq> 0 \<longrightarrow> logical (ld_bc t) d m = (if (d, m) = (dev, n) then f (logical (ld_bc s) dev n) else logical (ld_bc s) d m)) \<and>
    ld_log t = (ld_log s)\<lparr>l_blocks := (if n \<in> set (l_blocks (ld_log s)) then l_blocks (ld_log s) else l_blocks (ld_log s) @ [n])\<rparr>"
proof -
  define b l where "b = ld_bc s" and "l = ld_log s"
  have W: "binv me {} b" "length (bufs b) = NBUF" "dev \<noteq> 0" "log_geom (l_start l) (l_blocks l)"
     "dirty_blocks b = {(dev, n) |n. n \<in> set (l_blocks l)}" "decode_head (disk b dev (l_start l)) = []"
    using wf by (simp_all add: log_wf_def Let_def b_def l_def dev)
  obtain i where i: "bread me dev n b = (Ret i, take_buf me dev n i b)" "bpick b dev n i"
    using bread_exec [OF W(1,3) n(1)] log_wf_free(2) [OF wf] by (auto simp: b_def)
  define s1 where "s1 = take_buf me dev n i b"
  have li: "i < length (bufs b)" "i < length (bufs s1)" using i(2) by (simp_all add: bpick_def s1_def)
  note nth1 = take_buf_nth [OF li(1), of me dev n, folded s1_def]
  have inv1: "binv me {i} s1" using take_buf_binv [OF W(1,3) i(2)] by (simp add: s1_def)
  let ?f = "\<lambda>b. b\<lparr>b_data := f (b_data b)\<rparr>" and ?g = "\<lambda>b. b\<lparr>b_dirty := True\<rparr>"
  define s2 where "s2 = upd_buf i ?f s1"
  note nth2 = upd_buf_nth [OF li(2), of ?f, folded s2_def]
  have li2: "i < length (bufs s2)" using li by (simp add: s2_def)
  define s3 where "s3 = upd_buf i ?g s2"
  note nth3 = upd_buf_nth [OF li2, of ?g, folded s3_def]
  have inv2: "binv me {i} s2" unfolding s2_def by (rule upd_held_binv [OF inv1]) (simp_all add: nth1)
  have inv3: "binv me {i} s3" unfolding s3_def by (rule upd_held_binv [OF inv2]) (simp_all add: nth1 nth2)
  have li3: "i < length (bufs s3)" using li2 by (simp add: s3_def)
  define u where "u = give_buf i s3"
  have r: "brelse me i s3 = (Ret (), u)" using brelse_exec [OF inv3] by (simp add: u_def)
  have invu: "binv me {} u" using give_buf_binv [OF inv3, of i] by (simp add: u_def nth3)
  have k: "bkey (bufs s1 ! i) = (dev, n)" "bkey (bufs s2 ! i) = (dev, n)" by (simp_all add: nth1 nth2 bkey_def)
  have lg: "logical u d m = (if (d, m) = (dev, n) then f (logical b dev n) else logical b d m)" if "d \<noteq> 0" for d m
  proof -
    have "logical s2 d m = (if bkey (bufs s1 ! i) = (d, m) then b_data (?f (bufs s1 ! i)) else logical s1 d m)"
      unfolding s2_def by (rule upd_held_logical [OF inv1]) (simp_all add: nth1 that)
    moreover have "logical s3 d m = (if bkey (bufs s2 ! i) = (d, m) then b_data (?g (bufs s2 ! i)) else logical s2 d m)"
      unfolding s3_def by (rule upd_held_logical [OF inv2]) (simp_all add: nth1 nth2 that)
    moreover have "logical s1 d m = logical b d m" using take_buf_logical [OF W(1,3) i(2) _ that] by (simp add: s1_def)
    moreover have "logical u d m = logical s3 d m" using give_buf_logical [OF li3] by (simp add: u_def)
    ultimately show ?thesis by (auto simp: k nth2 nth1)
  qed
  have d2: "dirty_blocks s2 = dirty_blocks b"
  proof -
    have "bkey (bufs s2 ! j) = bkey (bufs s1 ! j)" "b_dirty (bufs s2 ! j) = b_dirty (bufs s1 ! j)" for j by (simp_all add: nth2)
    then have "dirty_blocks s2 = dirty_blocks s1" by (simp add: dirty_blocks_def s2_def)
    then show ?thesis using take_buf_dirty [OF i(2)] by (simp add: s1_def)
  qed
  have du: "dirty_blocks u = insert (dev, n) (dirty_blocks b)"
    using give_buf_dirty [OF li3] upd_dirty [OF li2, of ?g] d2 k by (simp add: u_def s3_def)
  have dk: "disk u = disk b" "disk_writes u = disk_writes b" "length (bufs u) = NBUF"
    using W(2) by (simp_all add: u_def s3_def s2_def s1_def)
  define bs where "bs = (if n \<in> set (l_blocks l) then l_blocks l else l_blocks l @ [n])"
  let ?t = "\<lparr>ld_bc = u, ld_log = l\<lparr>l_blocks := bs\<rparr>\<rparr>"
  have rm: "length (l_blocks l) < LOGSIZE - 1" "int (length (l_blocks l)) < l_size l - 1" "1 \<le> l_outstanding l"
    using room by (simp_all add: log_room_def l_def)
  have sl: "s = \<lparr>ld_bc = b, ld_log = l\<rparr>" by (simp add: b_def l_def)
  have ex: "log_update me dev n f s = (Ret (), ?t)"
    using i(1) r rm k(2) li2
    by (simp add: log_update_def kop_defs inbc_def zoom_def bset_def log_write_def Let_def sl bkey_def bs_def
        s1_def [symmetric] s2_def [symmetric] s3_def [symmetric])
  have ds: "{(dev, x) |x. x \<in> set bs} = insert (dev, n) (dirty_blocks b)" using W(5) by (auto simp: bs_def)
  have "log_geom (l_start l) bs"
  proof -
    have "\<forall>k<LOGSIZE - 1. l_start l + 1 + of_nat k \<noteq> n" using n(2) by (auto simp: log_region_def l_def)
    moreover have "n \<noteq> l_start l" using n(2) by (auto simp: log_region_def l_def)
    ultimately show ?thesis
      using W(4) rm(1) n(1,3) by (auto simp: log_geom_def log_area_def bs_def)
  qed
  then have "log_wf me ?t" using invu dk W(3,6) du ds by (simp add: log_wf_def dev l_def [symmetric])
  then show ?thesis using ex lg dk by (intro exI [of _ ?t]) (simp add: b_def [symmetric] l_def [symmetric] bs_def)
qed

text \<open>
  Concurrent file-system calls: \<open>cs\<close> counts, for each call in progress, the blocks it has logged; no
  call logs more than \<^verbatim>\<open>MAXOPBLOCKS\<close> (the promise of \<^verbatim>\<open>param.h\<close>), none of them the superblock or a
  block of the log.
\<close>

definition data_block :: "ldisk \<Rightarrow> u32 \<Rightarrow> bool" where
  "data_block s n \<longleftrightarrow> n < FSSIZE \<and> n \<notin> log_region (l_start (ld_log s)) \<and> n \<noteq> 1"

inductive tx_step :: "nat \<Rightarrow> ldisk \<times> nat list \<Rightarrow> ldisk \<times> nat list \<Rightarrow> bool" for me where
  begin_call: "begin_op s = (Ret (), s') \<Longrightarrow> tx_step me (s, cs) (s', cs @ [0])"
| update: "i < length cs \<Longrightarrow> int (cs ! i) < MAXOPBLOCKS \<Longrightarrow> data_block s n \<Longrightarrow>
    log_update me (l_dev (ld_log s)) n f s = (Ret (), s') \<Longrightarrow> tx_step me (s, cs) (s', cs[i := cs ! i + 1])"
| end_call: "i < length cs \<Longrightarrow> end_op me s = (Ret ws, s') \<Longrightarrow> tx_step me (s, cs) (s', take i cs @ drop (Suc i) cs)"

inductive_cases tx_stepE: "tx_step me (s, cs) q"

text \<open>Each call in progress has the rest of its \<^verbatim>\<open>MAXOPBLOCKS\<close> reserved.\<close>

definition reserved :: "nat list \<Rightarrow> int" where
  "reserved cs = sum_list (map (\<lambda>c. MAXOPBLOCKS - int c) cs)"

lemma reserved_simps [simp]: "reserved [] = 0" "reserved (c # cs) = MAXOPBLOCKS - int c + reserved cs"
  "reserved (cs @ ds) = reserved cs + reserved ds"
  by (simp_all add: reserved_def)

lemma reserved_split: "i < length cs \<Longrightarrow> reserved cs = reserved (take i cs) + (MAXOPBLOCKS - int (cs ! i)) + reserved (drop (Suc i) cs)"
  by (metis add.assoc id_take_nth_drop reserved_simps(2,3))

lemma reserved_le: "reserved cs \<le> int (length cs) * MAXOPBLOCKS"
  by (induction cs) (simp_all add: algebra_simps)

lemma reserved_nonneg: "(\<And>c. c \<in> set cs \<Longrightarrow> int c \<le> MAXOPBLOCKS) \<Longrightarrow> 0 \<le> reserved cs"
  by (induction cs) auto

definition tx_inv :: "nat \<Rightarrow> ldisk \<times> nat list \<Rightarrow> bool" where
  "tx_inv me = (\<lambda>(s, cs). log_wf me s \<and> \<not> l_committing (ld_log s) \<and> l_outstanding (ld_log s) = int (length cs) \<and>
     l_size (ld_log s) = int LOGSIZE \<and> (\<forall>c\<in>set cs. int c \<le> MAXOPBLOCKS) \<and>
     int (length (l_blocks (ld_log s))) + reserved cs \<le> int LOGSIZE)"

lemma log_wf_cong:
  assumes "log_wf me s" and "ld_bc t = ld_bc s" and "l_dev (ld_log t) = l_dev (ld_log s)"
    "l_start (ld_log t) = l_start (ld_log s)" "l_blocks (ld_log t) = l_blocks (ld_log s)"
  shows "log_wf me t"
  using assms by (simp add: log_wf_def Let_def)

lemma log_update_full:
  assumes wf: "log_wf me s" and full: "l_size (ld_log s) - 1 \<le> int (length (l_blocks (ld_log s)))"
    and n: "n < FSSIZE"
  shows "\<exists>t. log_update me (l_dev (ld_log s)) n f s = (Panic ''too big a transaction'', t)"
proof -
  have W: "binv me {} (ld_bc s)" "l_dev (ld_log s) \<noteq> 0" using wf by (simp_all add: log_wf_def Let_def)
  obtain i t where "bread me (l_dev (ld_log s)) n (ld_bc s) = (Ret i, t)"
    using bread_exec [OF W n] log_wf_free(2) [OF wf] by auto
  then show ?thesis using full
    by (simp add: log_update_def kop_defs inbc_def zoom_def bset_def log_write_def Let_def)
qed

lemma commit_wf:
  assumes "log_wf me s"
  shows "\<exists>t. commit me s = (Ret (), t) \<and> log_wf me t \<and> ld_log t = (ld_log s)\<lparr>l_blocks := []\<rparr>"
proof (cases "l_blocks (ld_log s) = []")
  case True
  then have "commit me s = (Ret (), s)" by (simp add: commit_def kop_defs)
  then show ?thesis using assms True by simp
next
  case False
  let ?l = "ld_log s" and ?b = "ld_bc s"
  obtain t where t: "commit me s = (Ret (), s\<lparr>ld_bc := t, ld_log := ?l\<lparr>l_blocks := []\<rparr>\<rparr>)" "did me (commit_writes s) ?b t"
    using commit_exec [OF assms False] by blast
  have W: "length (bufs ?b) = NBUF" "l_dev ?l \<noteq> 0" "log_geom (l_start ?l) (l_blocks ?l)"
      "dirty_blocks ?b = {(l_dev ?l, n) |n. n \<in> set (l_blocks ?l)}"
    using assms by (simp_all add: log_wf_def Let_def)
  have "log_geom (l_start ?l) []" using W(3) by (simp add: log_geom_def log_area_def LOGSIZE_def)
  moreover have "dirty_blocks t = {}"
    using t(2) W(4) by (auto simp: did_def commit_writes_def Let_def written_home)
  moreover have "decode_head (disk t (l_dev ?l) (l_start ?l)) = []"
    using t(2) decode_encode [of "[]"] by (simp add: did_def commit_writes_def Let_def)
  moreover have "length (bufs t) = NBUF" using t(2) W(1) by (simp add: did_def)
  ultimately have "log_wf me (s\<lparr>ld_bc := t, ld_log := ?l\<lparr>l_blocks := []\<rparr>\<rparr>)"
    using did_binv [OF t(2)] W(2) by (simp add: log_wf_def)
  then show ?thesis using t(1) by auto
qed

lemma tx_inv_step:
  assumes "tx_inv me p" and "tx_step me p q"
  shows "tx_inv me q"
proof -
  obtain s cs where p: "p = (s, cs)" by (cases p)
  note st = assms(2) [unfolded p]
  have I: "log_wf me s" "\<not> l_committing (ld_log s)" "l_outstanding (ld_log s) = int (length cs)"
      "l_size (ld_log s) = int LOGSIZE" "\<forall>c\<in>set cs. int c \<le> MAXOPBLOCKS"
      "int (length (l_blocks (ld_log s))) + reserved cs \<le> int LOGSIZE"
    using assms(1) by (simp_all add: p tx_inv_def)
  from st show ?thesis
  proof (cases rule: tx_stepE [consumes 1, case_names begin_call update end_call])
    case (begin_call s')
    have b: "int (length (l_blocks (ld_log s))) + (l_outstanding (ld_log s) + 1) * MAXOPBLOCKS \<le> int LOGSIZE"
        "s' = s\<lparr>ld_log := (ld_log s)\<lparr>l_outstanding := l_outstanding (ld_log s) + 1\<rparr>\<rparr>"
      using begin_call(2) I(2) by (auto simp: begin_op_def upd_log_def kmod_def Let_def split: if_splits)
    have "log_wf me s'" by (rule log_wf_cong [OF I(1)]) (simp_all add: b(2))
    moreover have "int (length (l_blocks (ld_log s))) + (reserved cs + MAXOPBLOCKS) \<le> int LOGSIZE"
      using b(1) I(3) reserved_le [of cs] by (simp add: algebra_simps)
    ultimately show ?thesis using I begin_call(1) b(2) by (simp add: tx_inv_def MAXOPBLOCKS_def)
  next
    case (update i n f s')
    have n: "n < FSSIZE" "n \<notin> log_region (l_start (ld_log s))" "n \<noteq> 1" using update(4) by (simp_all add: data_block_def)
    have room: "int (length (l_blocks (ld_log s))) < l_size (ld_log s) - 1"
      using log_update_full [OF I(1) _ n(1), of f] update(5) by (cases "l_size (ld_log s) - 1 \<le> int (length (l_blocks (ld_log s)))") auto
    have "log_room s" using room I(3,4) update(2) by (simp add: log_room_def)
    from log_update_exec [OF I(1) this refl n, of f] update(5)
    have t: "log_wf me s'" "ld_log s' = (ld_log s)\<lparr>l_blocks := (if n \<in> set (l_blocks (ld_log s)) then l_blocks (ld_log s) else l_blocks (ld_log s) @ [n])\<rparr>"
      by auto
    have "reserved (cs[i := cs ! i + 1]) = reserved cs - 1"
      using update(2) reserved_split [of i cs] by (simp add: upd_conv_take_nth_drop)
    moreover have "\<forall>c\<in>set (cs[i := cs ! i + 1]). int c \<le> MAXOPBLOCKS"
      using I(5) update(2,3) set_update_subset_insert [of cs i "cs ! i + 1"] by auto
    ultimately show ?thesis using I t update(1) by (simp add: tx_inv_def)
  next
    case (end_call i ws s')
    let ?cs = "take i cs @ drop (Suc i) cs"
    let ?s1 = "s\<lparr>ld_log := (ld_log s)\<lparr>l_outstanding := l_outstanding (ld_log s) - 1\<rparr>\<rparr>"
    have ci: "int (cs ! i) \<le> MAXOPBLOCKS" using I(5) end_call(2) by simp
    have r: "reserved ?cs \<le> reserved cs" using reserved_split [OF end_call(2)] ci by simp
    have c: "\<forall>c\<in>set ?cs. int c \<le> MAXOPBLOCKS" using I(5) by (auto dest: in_set_takeD in_set_dropD)
    have len: "int (length ?cs) = l_outstanding (ld_log s) - 1" using I(3) end_call(2) by simp
    show ?thesis
    proof (cases "length cs = 1")
      case True
      let ?s2 = "?s1\<lparr>ld_log := (ld_log ?s1)\<lparr>l_committing := True\<rparr>\<rparr>"
      have "log_wf me ?s2" by (rule log_wf_cong [OF I(1)]) simp_all
      then obtain t where t: "commit me ?s2 = (Ret (), t)" "log_wf me t" "ld_log t = (ld_log ?s2)\<lparr>l_blocks := []\<rparr>"
        using commit_wf by blast
      have "s' = t\<lparr>ld_log := (ld_log t)\<lparr>l_committing := False\<rparr>\<rparr>"
        using end_call(3) t I(2,3) True by (simp add: end_op_def kop_defs upd_log_def)
      moreover have "log_wf me (t\<lparr>ld_log := (ld_log t)\<lparr>l_committing := False\<rparr>\<rparr>)" by (rule log_wf_cong [OF t(2)]) simp_all
      moreover have "q = (s', [])" using True end_call(1,2) by simp
      ultimately show ?thesis using t(3) I True by (simp add: tx_inv_def LOGSIZE_def)
    next
      case False
      then have "s' = ?s1" using end_call(3) I(2,3) by (simp add: end_op_def kop_defs upd_log_def)
      moreover have "log_wf me ?s1" by (rule log_wf_cong [OF I(1)]) simp_all
      ultimately show ?thesis using I r c len end_call(1) by (simp add: tx_inv_def)
    qed
  qed
qed

definition disk_ok :: "u32 \<Rightarrow> (u32 \<Rightarrow> u32 \<Rightarrow> block) \<Rightarrow> bool" where
  "disk_ok dev E \<longleftrightarrow> (let sb = decode_sb (E dev 1); start = sb_logstart sb in
     dev \<noteq> 0 \<and> sb_nlog sb = of_nat LOGSIZE \<and> log_geom start (decode_head (E dev start)))"

definition tx_start :: "nat \<Rightarrow> u32 \<Rightarrow> ldisk \<times> nat list \<Rightarrow> bool" where
  "tx_start me dev = (\<lambda>(s, cs). cs = [] \<and> (\<exists>E. disk_ok dev E \<and> initlog me dev (boot E) = (Ret (), s)))"

lemma tx_inv_start:
  assumes "disk_ok dev E"
  shows "\<exists>s. initlog me dev (boot E) = (Ret (), s) \<and> tx_inv me (s, []) \<and> l_dev (ld_log s) = dev \<and> l_blocks (ld_log s) = [] \<and>
    l_start (ld_log s) = sb_logstart (decode_sb (E dev 1)) \<and> disk (ld_bc s) dev 1 = E dev 1"
proof -
  define start bs where "start = sb_logstart (decode_sb (E dev 1))" and "bs = decode_head (E dev start)"
  have D: "dev \<noteq> 0" "sb_nlog (decode_sb (E dev 1)) = of_nat LOGSIZE" "log_geom start bs"
    using assms by (simp_all add: disk_ok_def Let_def start_def bs_def)
  obtain t where t: "initlog me dev (boot E) = (Ret (), t)"
      "ld_log t = (ld_log (boot E))\<lparr>l_start := start, l_size := sint (of_nat LOGSIZE :: u32), l_dev := dev\<rparr>"
      "did me (home_writes dev bs (map (\<lambda>k. E dev (start + 1 + of_nat k)) [0..<length bs]) @
        [(dev, start, encode_head [] (E dev start))]) (ld_bc (boot E)) (ld_bc t)"
    using initlog_exec [where E = E and me = me, OF D(1) start_def bs_def log_geomD(1,2,3,5) [OF D(3)]] by (auto simp: D(2))
  have "log_geom start []" using D(3) by (simp add: log_geom_def log_area_def LOGSIZE_def)
  moreover have "dirty_blocks (ld_bc t) = {}" "length (bufs (ld_bc t)) = NBUF"
    using t(3) by (simp_all add: did_def boot_facts) (simp add: boot_def binit_def)
  moreover have "decode_head (disk (ld_bc t) dev start) = []"
    using t(3) decode_encode [of "[]"] by (simp add: did_def)
  ultimately have "log_wf me t" using did_binv [OF t(3)] D(1) t(2) by (simp add: log_wf_def boot_def)
  moreover have "sint (of_nat LOGSIZE :: u32) = int LOGSIZE" unfolding LOGSIZE_def by code_simp
  ultimately have "tx_inv me (t, [])" using t(2) by (simp add: tx_inv_def boot_def)
  moreover have "disk (ld_bc t) dev 1 = E dev 1"
  proof -
    have "1 \<noteq> start" "1 \<notin> set bs" using D(3) by (auto simp: log_geom_def log_region_def)
    then show ?thesis using t(3) apply_writes_other [of dev 1 "home_writes dev bs _"]
      by (simp add: did_def boot_facts written_home)
  qed
  ultimately show ?thesis using t by (auto simp: boot_def start_def)
qed

interpretation tx: state_machine "tx_start me dev" "tx_step me" "tx_inv me" for me dev
proof
  fix p assume "tx_start me dev p"
  then obtain s E where p: "p = (s, [])" "disk_ok dev E" "initlog me dev (boot E) = (Ret (), s)"
    by (auto simp: tx_start_def)
  then show "tx_inv me p" using tx_inv_start [OF p(2), of me] by auto
next
  fix p q assume "tx_inv me p" "tx_step me p q"
  then show "tx_inv me q" by (rule tx_inv_step)
qed

lemma log_update_in_call:
  assumes inv: "tx_inv me (s, cs)" and "cs \<noteq> []" and "data_block s n"
  shows "\<exists>t. log_update me (l_dev (ld_log s)) n f s =
    (if length (l_blocks (ld_log s)) < LOGSIZE - 1 then Ret () else Panic ''too big a transaction'', t) \<and>
    (length (l_blocks (ld_log s)) < LOGSIZE - 1 \<longrightarrow>
      logical (ld_bc t) (l_dev (ld_log s)) n = f (logical (ld_bc s) (l_dev (ld_log s)) n) \<and>
      disk (ld_bc t) = disk (ld_bc s) \<and>
      ld_log t = (ld_log s)\<lparr>l_blocks := (if n \<in> set (l_blocks (ld_log s)) then l_blocks (ld_log s) else l_blocks (ld_log s) @ [n])\<rparr>)"
proof -
  have I: "log_wf me s" "l_outstanding (ld_log s) = int (length cs)" "l_size (ld_log s) = int LOGSIZE"
    using inv by (simp_all add: tx_inv_def)
  have n: "n < FSSIZE" "n \<notin> log_region (l_start (ld_log s))" "n \<noteq> 1" using assms(3) by (simp_all add: data_block_def)
  have dev: "l_dev (ld_log s) \<noteq> 0" using I(1) by (simp add: log_wf_def Let_def)
  show ?thesis
  proof (cases "length (l_blocks (ld_log s)) < LOGSIZE - 1")
    case True
    have "1 \<le> length cs" using assms(2) by (cases cs) simp_all
    then have "log_room s" using True I(2,3) by (simp add: log_room_def)
    from log_update_exec [OF I(1) this refl n, of f] True dev show ?thesis by auto
  next
    case False
    then show ?thesis using log_update_full [OF I(1) _ n(1), of f] I(3) by (auto simp: LOGSIZE_def)
  qed
qed


section \<open>Examples\<close>

text \<open>A disk as \<^verbatim>\<open>mkfs\<close> lays it out: 30 log blocks from block 2 on, the header empty.\<close>

definition ex_disk :: "u32 \<Rightarrow> u32 \<Rightarrow> block" where
  "ex_disk dev n = (if n = 1 then put32 16 2 (put32 12 30 (\<lambda>_. 0)) else (\<lambda>_. 0))"

lemma ex_sb: "sb_nlog (decode_sb (ex_disk 1 1)) = 30" "sb_logstart (decode_sb (ex_disk 1 1)) = 2"
  by (simp_all add: decode_sb_def ex_disk_def get32_put32_other)

lemma small_word: "k < 1000 \<Longrightarrow> unat (of_nat k :: u32) = k"
  by (simp add: unat_of_nat take_bit_eq_mod)

lemma log_block_2: "(2 :: u32) + 1 + of_nat k = of_nat (3 + k)"
  by simp

lemma small_word_eq: "j < 1000 \<Longrightarrow> k < 1000 \<Longrightarrow> (of_nat j :: u32) = of_nat k \<longleftrightarrow> j = k"
  using small_word by metis

lemma region_2: "n < 1000 \<Longrightarrow> of_nat n \<in> log_region 2 \<longleftrightarrow> 2 \<le> n \<and> n < 32"
proof -
  assume n: "n < 1000"
  have "of_nat n \<in> log_region 2 \<longleftrightarrow> (of_nat n :: u32) = of_nat 2 \<or> (\<exists>k<29. (of_nat n :: u32) = of_nat (3 + k))"
    unfolding log_region_def log_block_2 by (auto simp: LOGSIZE_def)
  also have "\<dots> \<longleftrightarrow> n = 2 \<or> (\<exists>k<29. n = 3 + k)"
  proof -
    have "(of_nat n :: u32) = of_nat (3 + k) \<longleftrightarrow> n = 3 + k" if "k < 29" for k
      using small_word_eq [OF n, of "3 + k"] that by (simp del: of_nat_add)
    then show ?thesis using small_word_eq [OF n, of 2] by auto
  qed
  also have "\<dots> \<longleftrightarrow> 2 \<le> n \<and> n < 32" by presburger
  finally show ?thesis .
qed

lemma small_FSSIZE: "n < 1000 \<Longrightarrow> (of_nat n :: u32) < FSSIZE"
  using small_word [of n] by (simp add: word_less_nat_alt FSSIZE_def)

lemma ex_disk_ok: "disk_ok 1 ex_disk"
proof -
  have "ex_disk 1 2 = (\<lambda>_. 0)" by (simp add: ex_disk_def)
  moreover have "decode_head (\<lambda>_. 0) = []" by (simp add: decode_head_def get32_def get_words_def)
  moreover have "log_area (2 + 1) (LOGSIZE - 1) []"
    unfolding log_area_def log_block_2 using small_FSSIZE [of "3 + _"] by (simp add: LOGSIZE_def)
  moreover have "1 \<notin> log_region 2" using region_2 [of 1] by simp
  ultimately show ?thesis by (simp add: disk_ok_def ex_sb Let_def log_geom_def LOGSIZE_def FSSIZE_def)
qed

definition ex_block :: "nat \<Rightarrow> u32" where
  "ex_block k = of_nat (100 + k)"

lemma ex_block: "k < 100 \<Longrightarrow> ex_block k < FSSIZE \<and> ex_block k \<notin> log_region 2 \<and> ex_block k \<noteq> 1"
  "j < 100 \<Longrightarrow> k < 100 \<Longrightarrow> ex_block j = ex_block k \<longleftrightarrow> j = k"
  unfolding ex_block_def
  using small_FSSIZE [of "100 + k"] region_2 [of "100 + k"] small_word_eq [of "100 + k" 1] small_word_eq [of "100 + j" "100 + k"]
  by (simp_all del: of_nat_add)

text \<open>Three calls begin and log \<open>k\<close> blocks between them, the first ten, the next ten and the rest.\<close>

definition ex_counts :: "nat \<Rightarrow> nat list" where
  "ex_counts k = [min k 10, min (k - 10) 10, k - 20]"

definition ex_at :: "nat \<Rightarrow> ldisk \<Rightarrow> bool" where
  "ex_at k s \<longleftrightarrow> reach (tx_start 7 1) (tx_step 7) (s, ex_counts k) \<and> l_blocks (ld_log s) = map ex_block [0..<k] \<and>
     l_dev (ld_log s) = 1 \<and> l_start (ld_log s) = 2 \<and> disk (ld_bc s) 1 1 = ex_disk 1 1"

lemma ex_at_0: "\<exists>s. ex_at 0 s"
proof -
  obtain s where s: "initlog 7 1 (boot ex_disk) = (Ret (), s)" "tx_inv 7 (s, [])" "l_dev (ld_log s) = 1" "l_blocks (ld_log s) = []"
      "l_start (ld_log s) = 2" "disk (ld_bc s) 1 1 = ex_disk 1 1"
    using tx_inv_start [OF ex_disk_ok, of 7] by (auto simp: ex_sb)
  have out: "l_outstanding (ld_log s) = 0" "\<not> l_committing (ld_log s)" using s(2) by (simp_all add: tx_inv_def)
  let ?b = "\<lambda>k. s\<lparr>ld_log := (ld_log s)\<lparr>l_outstanding := k\<rparr>\<rparr>"
  have "ld_log s = (ld_log s)\<lparr>l_outstanding := 0\<rparr>" using out(1) by simp
  then have s0: "s = ?b 0" by (metis ldisk.surjective ldisk.update_convs(2) old.unit.exhaust)
  have b: "begin_op (?b k) = (Ret (), ?b (k + 1))" if "k \<le> 2" for k
    using that s(4) out by (simp add: begin_op_def upd_log_def kmod_def Let_def MAXOPBLOCKS_def LOGSIZE_def)
  have "reach (tx_start 7 1) (tx_step 7) (?b 0, [])"
    by (rule reach_start) (use s(1) ex_disk_ok s0 in \<open>auto simp: tx_start_def\<close>)
  then have "reach (tx_start 7 1) (tx_step 7) (?b (0 + 1), [] @ [0])" by (rule reach_step) (rule begin_call, rule b, simp)
  then have "reach (tx_start 7 1) (tx_step 7) (?b (0 + 1 + 1), ([] @ [0]) @ [0])" by (rule reach_step) (rule begin_call, rule b, simp)
  then have "reach (tx_start 7 1) (tx_step 7) (?b (0 + 1 + 1 + 1), (([] @ [0]) @ [0]) @ [0])" by (rule reach_step) (rule begin_call, rule b, simp)
  then have "ex_at 0 (?b 3)" using s by (simp add: ex_at_def ex_counts_def)
  then show ?thesis ..
qed

lemma ex_at_Suc:
  assumes "ex_at k s" and "k < 29"
  shows "\<exists>t. ex_at (Suc k) t"
proof -
  have E: "reach (tx_start 7 1) (tx_step 7) (s, ex_counts k)" "l_blocks (ld_log s) = map ex_block [0..<k]"
      "l_dev (ld_log s) = 1" "l_start (ld_log s) = 2" "disk (ld_bc s) 1 1 = ex_disk 1 1"
    using assms(1) by (simp_all add: ex_at_def)
  have db: "data_block s (ex_block k)" using ex_block(1) [of k] assms(2) E(4) by (simp add: data_block_def)
  have ne: "ex_counts k \<noteq> []" by (simp add: ex_counts_def)
  have new: "ex_block k \<notin> set (map ex_block [0..<k])" 
  proof -
    have "ex_block k \<noteq> ex_block x" if "x < k" for x using ex_block(2) [of k x] that assms(2) by simp
    then show ?thesis unfolding set_map set_upt by (metis atLeastLessThan_iff imageE)
  qed
  obtain t where t: "log_update 7 1 (ex_block k) id s = (Ret (), t)" "ld_log t = (ld_log s)\<lparr>l_blocks := map ex_block [0..<Suc k]\<rparr>"
      "disk (ld_bc t) = disk (ld_bc s)"
    using log_update_in_call [OF tx.reach_inv [OF E(1)] ne db, of id] assms(2) new by (auto simp: E LOGSIZE_def)
  define i where "i = k div 10"
  have "i < 3" using assms(2) by (simp add: i_def)
  then have i: "i = 0 \<and> k < 10 \<or> i = 1 \<and> 10 \<le> k \<and> k < 20 \<or> i = 2 \<and> 20 \<le> k" unfolding i_def by linarith
  have "tx_step 7 (s, ex_counts k) (t, (ex_counts k)[i := ex_counts k ! i + 1])"
  proof (rule update [where n = "ex_block k" and f = id])
    show "i < length (ex_counts k)" using \<open>i < 3\<close> by (simp add: ex_counts_def)
    show "int (ex_counts k ! i) < MAXOPBLOCKS" using i assms(2) by (auto simp: ex_counts_def MAXOPBLOCKS_def)
    show "data_block s (ex_block k)" by (fact db)
    show "log_update 7 (l_dev (ld_log s)) (ex_block k) id s = (Ret (), t)" using t(1) E(3) by simp
  qed
  moreover have "(ex_counts k)[i := ex_counts k ! i + 1] = ex_counts (Suc k)" using i by (auto simp: ex_counts_def)
  ultimately have "reach (tx_start 7 1) (tx_step 7) (t, ex_counts (Suc k))" using reach_step [OF E(1)] by simp
  then have "ex_at (Suc k) t" using t(2,3) E by (simp add: ex_at_def)
  then show ?thesis ..
qed

lemma ex_at_ex: "k \<le> 29 \<Longrightarrow> \<exists>s. ex_at k s"
  by (induction k) (auto intro: ex_at_0 ex_at_Suc)

theorem log_crash_atomic_witness:
  "\<exists>s u t. commit 7 s = (Ret (), u) \<and>
     initlog 7 1 (boot (apply_writes (take 3 (drop (length (disk_writes (ld_bc s))) (disk_writes (ld_bc u)))) (disk (ld_bc s)))) = (Ret (), t) \<and>
     disk (ld_bc t) 1 (ex_block 0) = logical (ld_bc s) 1 (ex_block 0)"
proof -
  obtain s where s: "ex_at 1 s" using ex_at_ex [of 1] by auto
  note inv = tx.reach_inv [OF s [unfolded ex_at_def, THEN conjunct1]]
  have wf: "log_wf 7 s" "l_blocks (ld_log s) \<noteq> []" "1 = l_dev (ld_log s)" "2 = l_start (ld_log s)"
      "1 = length (l_blocks (ld_log s))" "sb_logstart (decode_sb (disk (ld_bc s) 1 1)) = 2"
    using inv s by (simp_all add: tx_inv_def ex_at_def ex_sb)
  obtain u where u: "commit 7 s = (Ret (), u)"
    "\<forall>k E. crashes 7 1 (apply_writes (take k (drop (length (disk_writes (ld_bc s))) (disk_writes (ld_bc u)))) (disk (ld_bc s))) E \<longrightarrow>
      (\<exists>t. initlog 7 1 (boot E) = (Ret (), t) \<and>
        (\<forall>n. n \<notin> log_region 2 \<longrightarrow>
          disk (ld_bc t) 1 n = (if k \<le> 1 then disk (ld_bc s) 1 n else logical (ld_bc s) 1 n)))"
    using log_crash_atomic [OF wf] by blast
  let ?E = "apply_writes (take 3 (drop (length (disk_writes (ld_bc s))) (disk_writes (ld_bc u)))) (disk (ld_bc s))"
  obtain t where t: "initlog 7 1 (boot ?E) = (Ret (), t)"
      "\<forall>n. n \<notin> log_region 2 \<longrightarrow> disk (ld_bc t) 1 n = (if 3 \<le> (1 :: nat) then disk (ld_bc s) 1 n else logical (ld_bc s) 1 n)"
    using u(2) [rule_format, of 3 ?E] crashes.none by blast
  show ?thesis using u(1) t ex_block(1) [of 0] by (intro exI [of _ s] exI [of _ u] exI [of _ t]) simp
qed


text \<open>
  C36. The reservation of \<^verbatim>\<open>begin_op\<close> is one block too generous: three concurrent calls are let in,
  for \<^verbatim>\<open>3 * MAXOPBLOCKS = LOGSIZE\<close> blocks, but the header takes one block of the log area, and the
  call that logs the 30th distinct block, within its own reservation, panics the kernel.
\<close>

theorem log_reservation_overrun:
  "\<exists>s cs i n t. reach (tx_start 7 1) (tx_step 7) (s, cs) \<and> i < length cs \<and> int (cs ! i) < MAXOPBLOCKS \<and> data_block s n \<and>
     log_update 7 (l_dev (ld_log s)) n id s = (Panic ''too big a transaction'', t)"
proof -
  obtain s where s: "ex_at 29 s" using ex_at_ex [of 29] by auto
  have r: "reach (tx_start 7 1) (tx_step 7) (s, ex_counts 29)" and l: "length (l_blocks (ld_log s)) = 29" "l_start (ld_log s) = 2"
    using s by (simp_all add: ex_at_def)
  have db: "data_block s (ex_block 29)" using ex_block(1) [of 29] l(2) by (simp add: data_block_def)
  have "ex_counts 29 \<noteq> []" by (simp add: ex_counts_def)
  from log_update_in_call [OF tx.reach_inv [OF r] this db, of id] l(1)
  obtain t where "log_update 7 (l_dev (ld_log s)) (ex_block 29) id s = (Panic ''too big a transaction'', t)"
    by (auto simp: LOGSIZE_def)
  moreover have "int (ex_counts 29 ! 2) < MAXOPBLOCKS" by (simp add: ex_counts_def MAXOPBLOCKS_def)
  moreover have "2 < length (ex_counts 29)" by (simp add: ex_counts_def)
  ultimately show ?thesis using r db by blast
qed

end
