(* ===== verification/Vm.thy ===== *)
theory Vm
  imports Phys_Alloc
begin

text \<open>
  Page tables (\<^verbatim>\<open>vm.c\<close>).

  Page directories and page tables are pages of the allocator, read and written word by word in
  \<open>mem\<close>.  A user page is also read and written as bytes, four to a word.  \<^verbatim>\<open>data\<close>, the start of
  the kernel's writable data, comes from the linker script and is the parameter \<open>data_start\<close>, as
  \<^verbatim>\<open>end\<close> is \<open>kend\<close>.  The loops of \<^verbatim>\<open>mappages\<close> and \<^verbatim>\<open>countpages\<close> run from the first to the last page
  of a range, both page aligned, and count the pages that are left.
\<close>

section \<open>Address arithmetic\<close>

definition PDX :: "u32 \<Rightarrow> u32" where
  "PDX va = drop_bit 22 va AND 0x3FF"

definition PTX :: "u32 \<Rightarrow> u32" where
  "PTX va = drop_bit 12 va AND 0x3FF"

definition PGADDR :: "u32 \<Rightarrow> u32 \<Rightarrow> u32 \<Rightarrow> u32" where
  "PGADDR d t off = push_bit 22 d OR push_bit 12 t OR off"

definition PTE_P :: u32 where
  [const_defs]: "PTE_P = 1"

definition PTE_W :: u32 where
  [const_defs]: "PTE_W = 2"

definition PTE_U :: u32 where
  [const_defs]: "PTE_U = 4"

definition PTE_ADDR :: "u32 \<Rightarrow> u32" where
  "PTE_ADDR pte = pte AND NOT 0xFFF"

definition PTE_FLAGS :: "u32 \<Rightarrow> u32" where
  "PTE_FLAGS pte = pte AND 0xFFF"

definition EXTMEM :: u32 where
  [const_defs]: "EXTMEM = 0x100000"

definition DEVSPACE :: u32 where
  [const_defs]: "DEVSPACE = 0xFE000000"

definition KERNLINK :: u32 where
  [const_defs]: "KERNLINK = 0x80100000"

definition NPDENTRIES :: nat where
  [const_defs]: "NPDENTRIES = 1024"

text \<open>Bytes of a word of memory, least significant first.\<close>

definition get_byte :: "(u32 \<Rightarrow> u32) \<Rightarrow> u32 \<Rightarrow> u8" where
  "get_byte m a = ucast (drop_bit (8 * unat (a AND 3)) (m (a AND NOT 3)))"

definition put_byte :: "u32 \<Rightarrow> u8 \<Rightarrow> (u32 \<Rightarrow> u32) \<Rightarrow> (u32 \<Rightarrow> u32)" where
  "put_byte a b m = (let w = m (a AND NOT 3); k = 8 * unat (a AND 3) in
     m(a AND NOT 3 := (w AND NOT (push_bit k 0xFF)) OR push_bit k (ucast b)))"

definition upd_mem :: "((u32 \<Rightarrow> u32) \<Rightarrow> (u32 \<Rightarrow> u32)) \<Rightarrow> (kmem, unit) kop" where
  "upd_mem f = kmod (\<lambda>s. s\<lparr>mem := f (mem s)\<rparr>)"

text \<open>\<^verbatim>\<open>memmove\<close> of a whole page.\<close>

definition copy_page :: "u32 \<Rightarrow> u32 \<Rightarrow> (u32 \<Rightarrow> u32) \<Rightarrow> (u32 \<Rightarrow> u32)" where
  "copy_page dst src m = (\<lambda>a. if a - dst < PGSIZE then m (src + (a - dst)) else m a)"

fun put_bytes :: "u32 \<Rightarrow> u8 list \<Rightarrow> (u32 \<Rightarrow> u32) \<Rightarrow> (u32 \<Rightarrow> u32)" where
  "put_bytes a [] m = m"
| "put_bytes a (b # bs) m = put_bytes (a + 1) bs (put_byte a b m)"

section \<open>Operations\<close>

definition walkpgdir :: "u32 \<Rightarrow> u32 \<Rightarrow> bool \<Rightarrow> (kmem, u32) kop" where
  "walkpgdir pgdir va al =
     kbind (kget (\<lambda>s. mem s (pgdir + 4 * PDX va))) (\<lambda>pde.
     if pde AND PTE_P \<noteq> 0 then kret (P2V (PTE_ADDR pde) + 4 * PTX va)
     else if \<not> al then kret 0
     else kbind kalloc (\<lambda>pgtab.
       if pgtab = 0 then kret 0
       else kseq (upd_mem (fill_page pgtab 0)) (
            kseq (upd_mem (\<lambda>m. m(pgdir + 4 * PDX va := V2P pgtab OR PTE_P OR PTE_W OR PTE_U)))
              (kret (pgtab + 4 * PTX va)))))"

definition map_one :: "u32 \<Rightarrow> u32 \<Rightarrow> u32 \<Rightarrow> u32 \<Rightarrow> (kmem, int) kop" where
  "map_one pgdir a pa perm =
     kbind (walkpgdir pgdir a True) (\<lambda>pte.
     if pte = 0 then kret (- 1)
     else kbind (kget (\<lambda>s. mem s pte)) (\<lambda>v.
       if v AND PTE_P \<noteq> 0 then panic ''remap''
       else kseq (upd_mem (\<lambda>m. m(pte := pa OR perm OR PTE_P))) (kret 0)))"

fun mappages_loop :: "u32 \<Rightarrow> u32 \<Rightarrow> nat \<Rightarrow> u32 \<Rightarrow> u32 \<Rightarrow> (kmem, int) kop" where
  "mappages_loop pgdir a 0 pa perm = map_one pgdir a pa perm"
| "mappages_loop pgdir a (Suc k) pa perm =
     kbind (map_one pgdir a pa perm) (\<lambda>r.
     if r < 0 then kret r else mappages_loop pgdir (a + PGSIZE) k (pa + PGSIZE) perm)"

definition mappages :: "u32 \<Rightarrow> u32 \<Rightarrow> u32 \<Rightarrow> u32 \<Rightarrow> u32 \<Rightarrow> (kmem, int) kop" where
  "mappages pgdir va sz pa perm =
     (let a = PGROUNDDOWN va; last = PGROUNDDOWN (va + sz - 1)
      in mappages_loop pgdir a (unat (drop_bit 12 (last - a))) pa perm)"

text \<open>
  The macro \<^verbatim>\<open>FLAG_SET\<close> of \<^verbatim>\<open>countpages\<close> is defined nowhere in the sources; it is the parameter
  \<open>flag_set\<close>.
\<close>

fun countpages_loop :: "(u32 \<Rightarrow> u32 \<Rightarrow> bool) \<Rightarrow> u32 \<Rightarrow> u32 \<Rightarrow> nat \<Rightarrow> u32 \<Rightarrow> u32 \<Rightarrow> int \<Rightarrow> (kmem, int) kop" where
  "countpages_loop flag_set pgdir a k perm no_perm pages =
     kbind (walkpgdir pgdir a False) (\<lambda>pte.
     if pte = 0 then kret (- 1)
     else kbind (kget (\<lambda>s. mem s pte)) (\<lambda>v.
       let pages' = (if flag_set v PTE_P \<and> flag_set v perm \<and> \<not> flag_set v no_perm then pages + 1 else pages) in
       (case k of 0 \<Rightarrow> kret pages'
        | Suc k' \<Rightarrow> countpages_loop flag_set pgdir (a + PGSIZE) k' perm no_perm pages')))"

definition countpages :: "(u32 \<Rightarrow> u32 \<Rightarrow> bool) \<Rightarrow> u32 \<Rightarrow> u32 \<Rightarrow> u32 \<Rightarrow> u32 \<Rightarrow> u32 \<Rightarrow> (kmem, int) kop" where
  "countpages flag_set pgdir va sz perm no_perm =
     (let a = PGROUNDDOWN va; last = PGROUNDDOWN (va + sz - 1)
      in countpages_loop flag_set pgdir a (unat (drop_bit 12 (last - a))) perm no_perm 0)"

record kmap =
  virt :: u32
  phys_start :: u32
  phys_end :: u32
  kperm :: u32

definition kmap_table :: "u32 \<Rightarrow> kmap list" where
  "kmap_table data_start =
     [\<lparr>virt = KERNBASE, phys_start = 0, phys_end = EXTMEM, kperm = PTE_W\<rparr>,
      \<lparr>virt = KERNLINK, phys_start = V2P KERNLINK, phys_end = V2P data_start, kperm = 0\<rparr>,
      \<lparr>virt = data_start, phys_start = V2P data_start, phys_end = PHYSTOP, kperm = PTE_W\<rparr>,
      \<lparr>virt = DEVSPACE, phys_start = DEVSPACE, phys_end = 0, kperm = PTE_W\<rparr>]"

text \<open>
  The loop of \<^verbatim>\<open>deallocuvm\<close>.  \<^verbatim>\<open>a\<close> moves up by a page, or to the end of the 4 MB that a missing
  page table would map.  The first argument bounds the number of rounds by the number of pages from
  \<^verbatim>\<open>a\<close> to \<^verbatim>\<open>oldsz\<close>; more would change nothing as long as \<^verbatim>\<open>oldsz\<close> is not in the last 4 MB of the
  address space, where the addition would wrap around (lemma \<open>deallocuvm_loop_fuel\<close>).  Every caller
  stays below \<^verbatim>\<open>KERNBASE\<close>.
\<close>

definition dealloc_one :: "u32 \<Rightarrow> u32 \<Rightarrow> u32 \<Rightarrow> (kmem, u32) kop" where
  "dealloc_one kend pgdir a =
     kbind (walkpgdir pgdir a False) (\<lambda>pte.
     if pte = 0 then kret (PGADDR (PDX a + 1) 0 0 - PGSIZE)
     else kbind (kget (\<lambda>s. mem s pte)) (\<lambda>v.
       if v AND PTE_P \<noteq> 0 then
         (if PTE_ADDR v = 0 then panic ''kfree''
          else kseq (kfree kend (P2V (PTE_ADDR v))) (
               kseq (upd_mem (\<lambda>m. m(pte := 0))) (kret a)))
       else kret a))"

fun deallocuvm_loop :: "nat \<Rightarrow> u32 \<Rightarrow> u32 \<Rightarrow> u32 \<Rightarrow> u32 \<Rightarrow> (kmem, unit) kop" where
  "deallocuvm_loop 0 kend pgdir a oldsz = kret ()"
| "deallocuvm_loop (Suc n) kend pgdir a oldsz =
     (if a < oldsz
      then kbind (dealloc_one kend pgdir a) (\<lambda>a'. deallocuvm_loop n kend pgdir (a' + PGSIZE) oldsz)
      else kret ())"

definition num_pages :: "u32 \<Rightarrow> u32 \<Rightarrow> nat" where
  "num_pages a lim = (unat lim - unat a + 4095) div 4096"

definition deallocuvm :: "u32 \<Rightarrow> u32 \<Rightarrow> u32 \<Rightarrow> u32 \<Rightarrow> (kmem, u32) kop" where
  "deallocuvm kend pgdir oldsz newsz =
     (if oldsz \<le> newsz then kret oldsz
      else kseq (deallocuvm_loop (num_pages (PGROUNDUP newsz) oldsz) kend pgdir (PGROUNDUP newsz) oldsz) (kret newsz))"

text \<open>The addresses \<^verbatim>\<open>a\<close>, \<^verbatim>\<open>a + PGSIZE\<close>, ... below a limit: the values of the counter in the other loops.\<close>

definition page_range :: "u32 \<Rightarrow> u32 \<Rightarrow> u32 list" where
  "page_range a lim = map (\<lambda>k. a + of_nat k * PGSIZE) [0..<num_pages a lim]"

fun freevm_loop :: "u32 \<Rightarrow> u32 \<Rightarrow> nat list \<Rightarrow> (kmem, unit) kop" where
  "freevm_loop kend pgdir [] = kret ()"
| "freevm_loop kend pgdir (i # is) =
     kbind (kget (\<lambda>s. mem s (pgdir + 4 * of_nat i))) (\<lambda>pde.
     kseq (if pde AND PTE_P \<noteq> 0 then kfree kend (P2V (PTE_ADDR pde)) else kret ())
       (freevm_loop kend pgdir is))"

definition freevm :: "u32 \<Rightarrow> u32 \<Rightarrow> (kmem, unit) kop" where
  "freevm kend pgdir =
     (if pgdir = 0 then panic ''freevm: no pgdir''
      else kbind (deallocuvm kend pgdir KERNBASE 0) (\<lambda>_.
           kseq (freevm_loop kend pgdir [0..<NPDENTRIES])
             (kfree kend pgdir)))"

fun setupkvm_loop :: "u32 \<Rightarrow> u32 \<Rightarrow> kmap list \<Rightarrow> (kmem, u32) kop" where
  "setupkvm_loop kend pgdir [] = kret pgdir"
| "setupkvm_loop kend pgdir (k # ks) =
     kbind (mappages pgdir (virt k) (phys_end k - phys_start k) (phys_start k) (kperm k)) (\<lambda>r.
     if r < 0 then kseq (freevm kend pgdir) (kret 0)
     else setupkvm_loop kend pgdir ks)"

definition setupkvm :: "u32 \<Rightarrow> u32 \<Rightarrow> (kmem, u32) kop" where
  "setupkvm kend data_start =
     kbind kalloc (\<lambda>pgdir.
     if pgdir = 0 then kret 0
     else kseq (upd_mem (fill_page pgdir 0)) (
       if DEVSPACE < P2V PHYSTOP then panic ''PHYSTOP too high''
       else setupkvm_loop kend pgdir (kmap_table data_start)))"

definition inituvm :: "u32 \<Rightarrow> u8 list \<Rightarrow> (kmem, unit) kop" where
  "inituvm pgdir init =
     (if 4096 \<le> length init then panic ''inituvm: more than a page''
      else kbind kalloc (\<lambda>pg.
        kseq (upd_mem (fill_page pg 0)) (
        kbind (mappages pgdir 0 PGSIZE (V2P pg) (PTE_W OR PTE_U)) (\<lambda>_.
        upd_mem (put_bytes pg init)))))"

fun allocuvm_loop :: "u32 \<Rightarrow> u32 \<Rightarrow> u32 \<Rightarrow> u32 \<Rightarrow> u32 list \<Rightarrow> (kmem, u32) kop" where
  "allocuvm_loop kend pgdir oldsz newsz [] = kret newsz"
| "allocuvm_loop kend pgdir oldsz newsz (a # as) =
     kbind kalloc (\<lambda>pg.
     if pg = 0 then kbind (deallocuvm kend pgdir newsz oldsz) (\<lambda>_. kret 0)
     else
       kseq (upd_mem (fill_page pg 0)) (
       kbind (mappages pgdir a PGSIZE (V2P pg) (PTE_W OR PTE_U)) (\<lambda>r.
       if r < 0 then
         kbind (deallocuvm kend pgdir newsz oldsz) (\<lambda>_.
         kseq (kfree kend pg) (kret 0))
       else allocuvm_loop kend pgdir oldsz newsz as)))"

definition allocuvm :: "u32 \<Rightarrow> u32 \<Rightarrow> u32 \<Rightarrow> u32 \<Rightarrow> (kmem, u32) kop" where
  "allocuvm kend pgdir oldsz newsz =
     (if KERNBASE \<le> newsz then kret 0
      else if newsz < oldsz then kret oldsz
      else allocuvm_loop kend pgdir oldsz newsz (page_range (PGROUNDUP oldsz) newsz))"

definition clearpteu :: "u32 \<Rightarrow> u32 \<Rightarrow> (kmem, unit) kop" where
  "clearpteu pgdir uva =
     kbind (walkpgdir pgdir uva False) (\<lambda>pte.
     if pte = 0 then panic ''clearpteu''
     else upd_mem (\<lambda>m. m(pte := m pte AND NOT PTE_U)))"

fun copyuvm_loop :: "u32 \<Rightarrow> u32 \<Rightarrow> u32 \<Rightarrow> u32 list \<Rightarrow> (kmem, u32) kop" where
  "copyuvm_loop kend pgdir d [] = kret d"
| "copyuvm_loop kend pgdir d (i # is) =
     kbind (walkpgdir pgdir i False) (\<lambda>pte.
     if pte = 0 then panic ''copyuvm: pte should exist''
     else kbind (kget (\<lambda>s. mem s pte)) (\<lambda>v.
       if v AND PTE_P = 0 then panic ''copyuvm: page not present''
       else kbind kalloc (\<lambda>pg.
         if pg = 0 then kseq (freevm kend d) (kret 0)
         else
           kseq (upd_mem (copy_page pg (P2V (PTE_ADDR v)))) (
           kbind (mappages d i PGSIZE (V2P pg) (PTE_FLAGS v)) (\<lambda>r.
           if r < 0 then kseq (kfree kend pg) (kseq (freevm kend d) (kret 0))
           else copyuvm_loop kend pgdir d is)))))"

definition copyuvm :: "u32 \<Rightarrow> u32 \<Rightarrow> u32 \<Rightarrow> u32 \<Rightarrow> (kmem, u32) kop" where
  "copyuvm kend data_start pgdir sz =
     kbind (setupkvm kend data_start) (\<lambda>d.
     if d = 0 then kret 0 else copyuvm_loop kend pgdir d (page_range 0 sz))"

text \<open>
  \<^verbatim>\<open>uva2ka\<close> does not test the result of \<^verbatim>\<open>walkpgdir\<close>: without a page table it reads through a null
  pointer.
\<close>

definition uva2ka :: "u32 \<Rightarrow> u32 \<Rightarrow> (kmem, u32) kop" where
  "uva2ka pgdir uva =
     kbind (walkpgdir pgdir uva False) (\<lambda>pte.
     kbind (kget (\<lambda>s. mem s pte)) (\<lambda>v.
     kret (if v AND PTE_P = 0 then 0 else if v AND PTE_U = 0 then 0 else P2V (PTE_ADDR v))))"

definition copy_chunk :: "u32 \<Rightarrow> nat \<Rightarrow> nat" where
  "copy_chunk va len = min (unat (PGSIZE - (va - PGROUNDDOWN va))) len"

lemma unat_PGROUNDDOWN: "unat (PGROUNDDOWN a) = unat a div 4096 * 4096"
  using unat_and_not_4095 [of a] by (simp add: PGROUNDDOWN_def const_defs)

lemma page_offset_unat: "unat (va - PGROUNDDOWN va) = unat va mod 4096"
proof -
  have "PGROUNDDOWN va \<le> va" by (simp add: word_le_nat_alt unat_PGROUNDDOWN)
  then show ?thesis by (simp add: unat_sub unat_PGROUNDDOWN minus_div_mult_eq_mod)
qed

lemma copy_chunk_eq: "copy_chunk va len = min (4096 - unat va mod 4096) len"
proof -
  have "va - PGROUNDDOWN va \<le> PGSIZE" by (simp add: word_le_nat_alt page_offset_unat less_imp_le)
  then show ?thesis by (simp add: copy_chunk_def unat_sub page_offset_unat)
qed

lemma copy_chunk_pos: "0 < len \<Longrightarrow> 0 < copy_chunk va len"
  by (simp add: copy_chunk_eq)

function copyout_loop :: "u32 \<Rightarrow> u32 \<Rightarrow> u8 list \<Rightarrow> (kmem, int) kop" where
  "copyout_loop pgdir va buf =
     (if buf = [] then kret 0
      else kbind (uva2ka pgdir (PGROUNDDOWN va)) (\<lambda>pa0.
        if pa0 = 0 then kret (- 1)
        else let n = copy_chunk va (length buf) in
          kseq (upd_mem (put_bytes (pa0 + (va - PGROUNDDOWN va)) (take n buf)))
            (copyout_loop pgdir (PGROUNDDOWN va + PGSIZE) (drop n buf))))"
  by pat_completeness auto
termination by (relation "measure (\<lambda>(pgdir, va, buf). length buf)") (simp_all add: copy_chunk_pos)

declare copyout_loop.simps [simp del]

definition copyout :: "u32 \<Rightarrow> u32 \<Rightarrow> u8 list \<Rightarrow> (kmem, int) kop" where
  "copyout pgdir va p = copyout_loop pgdir va p"

fun countkvm_loop :: "(u32 \<Rightarrow> u32 \<Rightarrow> bool) \<Rightarrow> u32 \<Rightarrow> kmap list \<Rightarrow> int \<Rightarrow> (kmem, int) kop" where
  "countkvm_loop flag_set pgdir [] pages = kret pages"
| "countkvm_loop flag_set pgdir (k # ks) pages =
     kbind (countpages flag_set pgdir (virt k) (phys_end k - phys_start k) PTE_P PTE_U) (\<lambda>n.
     countkvm_loop flag_set pgdir ks (pages + n))"

definition countkvm :: "(u32 \<Rightarrow> u32 \<Rightarrow> bool) \<Rightarrow> u32 \<Rightarrow> u32 \<Rightarrow> (kmem, int) kop" where
  "countkvm flag_set data_start pgdir = countkvm_loop flag_set pgdir (kmap_table data_start) 0"

fun countuvm_loop :: "(u32 \<Rightarrow> u32 \<Rightarrow> bool) \<Rightarrow> u32 \<Rightarrow> u32 list \<Rightarrow> int \<Rightarrow> (kmem, int) kop" where
  "countuvm_loop flag_set pgdir [] pages = kret pages"
| "countuvm_loop flag_set pgdir (i # is) pages =
     kbind (countpages flag_set pgdir i PGSIZE PTE_U 0) (\<lambda>n.
     countuvm_loop flag_set pgdir is (pages + n))"

definition countuvm :: "(u32 \<Rightarrow> u32 \<Rightarrow> bool) \<Rightarrow> u32 \<Rightarrow> u32 \<Rightarrow> (kmem, int) kop" where
  "countuvm flag_set pgdir sz = countuvm_loop flag_set pgdir (page_range 0 sz) 0"

section \<open>Indices and page offsets\<close>

lemma unat_index: "unat (drop_bit n (va :: u32) AND 0x3FF) = unat va div 2 ^ n mod 1024"
proof -
  have "(0x3FF :: u32) = mask 10" by (simp add: mask_eq_exp_minus_1)
  then have "drop_bit n va AND 0x3FF = take_bit 10 (drop_bit n va)" by (simp add: take_bit_eq_mask)
  then have "unat (drop_bit n va AND 0x3FF) = take_bit 10 (unat (drop_bit n va))" by (simp only: unsigned_take_bit_eq)
  moreover have "unat (drop_bit n va) = unat va div 2 ^ n" using unat_drop_bit_eq [of n va] drop_bit_eq_div [of n "unat va"] by (rule trans)
  ultimately show ?thesis by (simp only: take_bit_eq_mod) simp
qed

lemma unat_PDX: "unat (PDX va) = unat va div 4194304"
  using unat_index [of 22 va] unsigned_less [of va, where ?'a = nat] by (simp add: PDX_def)

lemma unat_PTX: "unat (PTX va) = unat va div 4096 mod 1024"
  using unat_index [of 12 va] by (simp add: PTX_def)

lemma unat_PTE_ADDR: "unat (PTE_ADDR a) = unat a div 4096 * 4096"
  using unat_and_not_4095 [of a] by (simp add: PTE_ADDR_def)

definition same_page :: "u32 \<Rightarrow> u32 \<Rightarrow> bool" where
  "same_page a b \<longleftrightarrow> unat a div 4096 = unat b div 4096"

lemma same_page_refl [simp]: "same_page a a"
  by (simp add: same_page_def)

lemma same_page_indices: "same_page a b \<longleftrightarrow> PDX a = PDX b \<and> PTX a = PTX b"
proof -
  have d: "unat x div 4194304 = unat x div 4096 div 1024" for x :: u32 by (simp add: div_mult2_eq)
  show ?thesis
    unfolding same_page_def word_unat_eq_iff unat_PDX unat_PTX d using div_mult_mod_eq [of "unat a div 4096" 1024]
      div_mult_mod_eq [of "unat b div 4096" 1024] by metis
qed

lemma same_page_aligned: "unat a mod 4096 = 0 \<Longrightarrow> unat b mod 4096 = 0 \<Longrightarrow> same_page a b \<longleftrightarrow> a = b"
  unfolding same_page_def word_unat_eq_iff by (metis div_mult_mod_eq add_0_right)

definition in_page :: "u32 \<Rightarrow> u32 \<Rightarrow> bool" where
  "in_page v a \<longleftrightarrow> a - v < PGSIZE"

lemma page_disj: "page_ok kend v \<Longrightarrow> page_ok kend w \<Longrightarrow> v \<noteq> w \<Longrightarrow> in_page v a \<Longrightarrow> \<not> in_page w a"
proof
  assume p: "page_ok kend v" "page_ok kend w" "v \<noteq> w" "in_page v a" "in_page w a"
  note v = page_ok_unat [OF p(1)] and w = page_ok_unat [OF p(2)]
  have "unat v \<le> unat a" "unat a < unat v + 4096" "unat w \<le> unat a" "unat a < unat w + 4096"
    using p(4,5) v w page_offset [of v a] page_offset [of w a] by (simp_all add: in_page_def)
  moreover obtain i j where "unat v = 4096 * i" "unat w = 4096 * j" using v w by (auto simp: mod_eq_0_iff_dvd elim!: dvdE)
  ultimately have "i = j" by auto
  then show False using p(3) \<open>unat v = 4096 * i\<close> \<open>unat w = 4096 * j\<close> by (simp add: word_unat_eq_iff)
qed

lemma page_word:
  assumes "page_ok kend v" and "unat k < 1024"
  shows "unat (v + 4 * k) = unat v + 4 * unat k" "in_page v (v + 4 * k)"
proof -
  have "unat (4 * k) = 4 * unat k" using assms(2) by (simp add: unat_word_ariths)
  moreover from this show "unat (v + 4 * k) = unat v + 4 * unat k"
    using assms(2) page_ok_unat [OF assms(1)] by (simp add: unat_word_ariths)
  ultimately show "in_page v (v + 4 * k)" using assms(2) by (simp add: in_page_def word_less_nat_alt)
qed

lemma index_less: "unat (PDX va) < 1024" "unat (PTX va) < 1024"
  using unsigned_less [of va, where ?'a = nat] by (simp_all add: unat_PDX unat_PTX)

lemma page_word_inj:
  assumes "page_ok kend v" and "unat k < 1024" and "unat l < 1024"
  shows "v + 4 * k = v + 4 * l \<longleftrightarrow> k = l"
  using page_word(1) [OF assms(1,2)] page_word(1) [OF assms(1,3)] by (simp add: word_unat_eq_iff)

lemma page_ok_V2P:
  assumes "page_ok kend v" and "unat fl < 4096"
  shows "P2V (PTE_ADDR (V2P v OR fl)) = v" "PTE_FLAGS (V2P v OR fl) = fl"
proof -
  note u = page_ok_unat [OF assms(1)]
  have le: "KERNBASE \<le> v" using u by (simp add: word_le_nat_alt const_defs)
  have m: "unat (V2P v) mod 4096 = 0"
  proof -
    obtain i where "unat v = 4096 * i" using u by (auto simp: mod_eq_0_iff_dvd elim!: dvdE)
    then show ?thesis using le by (simp add: V2P_def unat_sub const_defs)
  qed
  define w where "w = drop_bit 12 (V2P v)"
  have eq: "V2P v = push_bit 12 w"
  proof -
    have "unat (push_bit 12 (drop_bit 12 (V2P v))) = unat (V2P v) div 4096 * 4096"
      using unsigned_less [of "V2P v", where ?'a = nat]
      by (simp add: push_bit_eq_mult drop_bit_eq_div unat_word_ariths unat_div)
    then show ?thesis using m by (simp add: w_def word_unat_eq_iff mod_eq_0_iff_dvd)
  qed
  then have b1: "bit (V2P v) n \<Longrightarrow> 12 \<le> n" for n by (simp add: bit_push_bit_iff)
  have fl: "take_bit 12 fl = fl" using assms(2) by (simp add: word_unat_eq_iff take_bit_eq_mod unat_mod)
  have "bit (take_bit 12 fl) n \<Longrightarrow> n < 12" for n by (simp add: bit_take_bit_iff)
  then have b2: "bit fl n \<Longrightarrow> n < 12" for n unfolding fl .
  have mk: "(0xFFF :: u32) = mask 12" by (simp add: mask_eq_exp_minus_1)
  have "PTE_ADDR (V2P v OR fl) = V2P v"
    unfolding PTE_ADDR_def mk by (rule bit_word_eqI) (auto simp: bit_simps dest: b1 b2)
  then show "P2V (PTE_ADDR (V2P v OR fl)) = v" by (simp add: P2V_def V2P_def)
  show "PTE_FLAGS (V2P v OR fl) = fl"
    unfolding PTE_FLAGS_def mk by (rule bit_word_eqI) (auto simp: bit_simps dest: b1 b2)
qed

section \<open>Translation\<close>

definition pde_of :: "(u32 \<Rightarrow> u32) \<Rightarrow> u32 \<Rightarrow> u32 \<Rightarrow> u32" where
  "pde_of m d va = m (d + 4 * PDX va)"

definition has_table :: "(u32 \<Rightarrow> u32) \<Rightarrow> u32 \<Rightarrow> u32 \<Rightarrow> bool" where
  "has_table m d va \<longleftrightarrow> pde_of m d va AND PTE_P \<noteq> 0"

definition table_of :: "(u32 \<Rightarrow> u32) \<Rightarrow> u32 \<Rightarrow> u32 \<Rightarrow> u32" where
  "table_of m d va = P2V (PTE_ADDR (pde_of m d va))"

definition pte_at :: "(u32 \<Rightarrow> u32) \<Rightarrow> u32 \<Rightarrow> u32 \<Rightarrow> u32" where
  "pte_at m d va = table_of m d va + 4 * PTX va"

text \<open>The page table entry the hardware finds for an address; 0 without a page table.\<close>

definition lookup :: "(u32 \<Rightarrow> u32) \<Rightarrow> u32 \<Rightarrow> u32 \<Rightarrow> u32" where
  "lookup m d va = (if has_table m d va then m (pte_at m d va) else 0)"

definition mapped :: "(u32 \<Rightarrow> u32) \<Rightarrow> u32 \<Rightarrow> u32 \<Rightarrow> bool" where
  "mapped m d va \<longleftrightarrow> lookup m d va AND PTE_P \<noteq> 0"

definition frame_of :: "(u32 \<Rightarrow> u32) \<Rightarrow> u32 \<Rightarrow> u32 \<Rightarrow> u32" where
  "frame_of m d va = P2V (PTE_ADDR (lookup m d va))"

definition tables :: "(u32 \<Rightarrow> u32) \<Rightarrow> u32 \<Rightarrow> u32 set" where
  "tables m d = {table_of m d va |va. has_table m d va}"

definition user_pages :: "(u32 \<Rightarrow> u32) \<Rightarrow> u32 \<Rightarrow> u32 set" where
  "user_pages m d = {frame_of m d va |va. va < KERNBASE \<and> mapped m d va}"

definition footprint :: "(u32 \<Rightarrow> u32) \<Rightarrow> u32 \<Rightarrow> u32 set" where
  "footprint m d = insert d (tables m d \<union> user_pages m d)"

text \<open>
  A well-formed address space: directory, tables and user pages are all different pages of the pool,
  and no two user addresses share a page.
\<close>

definition vm_wf :: "u32 \<Rightarrow> (u32 \<Rightarrow> u32) \<Rightarrow> u32 \<Rightarrow> bool" where
  "vm_wf kend m d \<longleftrightarrow>
     (\<forall>v\<in>footprint m d. page_ok kend v) \<and> d \<notin> tables m d \<and> d \<notin> user_pages m d \<and> tables m d \<inter> user_pages m d = {} \<and>
     (\<forall>va vb. has_table m d va \<longrightarrow> has_table m d vb \<longrightarrow> table_of m d va = table_of m d vb \<longrightarrow> PDX va = PDX vb) \<and>
     (\<forall>va vb. va < KERNBASE \<longrightarrow> vb < KERNBASE \<longrightarrow> mapped m d va \<longrightarrow> mapped m d vb \<longrightarrow>
        frame_of m d va = frame_of m d vb \<longrightarrow> same_page va vb)"

text \<open>Two memories that differ at most in the pages \<open>P\<close>.\<close>

definition same_outside :: "u32 set \<Rightarrow> (u32 \<Rightarrow> u32) \<Rightarrow> (u32 \<Rightarrow> u32) \<Rightarrow> bool" where
  "same_outside P m m' \<longleftrightarrow> (\<forall>x. (\<forall>v\<in>P. \<not> in_page v x) \<longrightarrow> m' x = m x)"

lemma same_outside_trans:
  "same_outside P m m' \<Longrightarrow> same_outside Q m' m'' \<Longrightarrow> P \<subseteq> R \<Longrightarrow> Q \<subseteq> R \<Longrightarrow> same_outside R m m''"
  unfolding same_outside_def by (simp add: subset_iff)

lemma has_table_cong: "PDX va = PDX vb \<Longrightarrow> has_table m d va = has_table m d vb"
  "PDX va = PDX vb \<Longrightarrow> table_of m d va = table_of m d vb"
  by (simp_all add: has_table_def table_of_def pde_of_def)

lemma lookup_cong: "same_page va vb \<Longrightarrow> lookup m d va = lookup m d vb"
  unfolding same_page_indices lookup_def pte_at_def using has_table_cong [of va vb m d] by auto

lemma mapped_table: "mapped m d va \<Longrightarrow> has_table m d va"
  by (auto simp: mapped_def lookup_def split: if_splits)

text \<open>What an address space looks like depends on its own pages only.\<close>

lemma footprint_frame:
  assumes so: "same_outside P m m'" and ok: "\<forall>v\<in>footprint m d. page_ok kend v" "\<forall>v\<in>P. page_ok kend v"
    and dj: "insert d (tables m d) \<inter> P = {}"
  shows "pde_of m' d va = pde_of m d va" "has_table m' d va = has_table m d va" "table_of m' d va = table_of m d va"
    "pte_at m' d va = pte_at m d va" "lookup m' d va = lookup m d va" "mapped m' d va = mapped m d va"
    "frame_of m' d va = frame_of m d va" "tables m' d = tables m d" "user_pages m' d = user_pages m d"
    "footprint m' d = footprint m d"
proof -
  have out: "m' x = m x" if "in_page v x" "v \<in> insert d (tables m d)" for v x
  proof -
    have "page_ok kend v" "v \<notin> P" using that(2) ok(1) dj by (auto simp: footprint_def)
    then have "\<not> in_page w x" if "w \<in> P" for w using page_disj [of kend v w x] ok(2) \<open>in_page v x\<close> that by metis
    then show ?thesis using so by (simp add: same_outside_def)
  qed
  have dok: "page_ok kend d" using ok(1) by (simp add: footprint_def)
  have pde: "pde_of m' d va = pde_of m d va" for va
    using out [OF page_word(2) [OF dok index_less(1)]] by (simp add: pde_of_def)
  then have t: "has_table m' d va = has_table m d va" "table_of m' d va = table_of m d va" for va
    by (simp_all add: has_table_def table_of_def)
  then have pte: "pte_at m' d va = pte_at m d va" for va by (simp add: pte_at_def)
  have l: "lookup m' d va = lookup m d va" for va
  proof (cases "has_table m d va")
    case True
    then have v: "table_of m d va \<in> tables m d" by (auto simp: tables_def)
    then have "page_ok kend (table_of m d va)" using ok(1) by (simp add: footprint_def)
    from out [OF page_word(2) [OF this index_less(2)]] v show ?thesis by (simp add: lookup_def t pte) (simp add: pte_at_def)
  qed (simp add: lookup_def t)
  then have mp: "mapped m' d va = mapped m d va" "frame_of m' d va = frame_of m d va" for va
    by (simp_all add: mapped_def frame_of_def)
  show "pde_of m' d va = pde_of m d va" "has_table m' d va = has_table m d va" "table_of m' d va = table_of m d va"
    "pte_at m' d va = pte_at m d va" "lookup m' d va = lookup m d va" "mapped m' d va = mapped m d va"
    "frame_of m' d va = frame_of m d va" "tables m' d = tables m d" "user_pages m' d = user_pages m d"
    "footprint m' d = footprint m d"
    by (simp_all add: pde t pte l mp tables_def user_pages_def footprint_def)
qed

lemma vm_wf_frame:
  assumes "same_outside P m m'" and "vm_wf kend m d" "\<forall>v\<in>P. page_ok kend v" and "insert d (tables m d) \<inter> P = {}"
  shows "vm_wf kend m' d"
proof -
  have ok: "\<forall>v\<in>footprint m d. page_ok kend v" using assms(2) by (simp add: vm_wf_def)
  note f = footprint_frame [OF assms(1) ok assms(3,4)]
  show ?thesis unfolding vm_wf_def f using assms(2) unfolding vm_wf_def .
qed

section \<open>Page tables and the free list\<close>

lemma kfree_pages_ok: "kfree_pages kend s F \<Longrightarrow> v \<in> F \<Longrightarrow> page_ok kend v"
  by (auto simp: kfree_pages_def kmem_inv_def)

lemma page_self: "in_page v v"
  by (simp add: in_page_def PGSIZE_def)

lemma page_out:
  assumes "same_outside P m m'" and "\<forall>v\<in>P. page_ok kend v" and "page_ok kend w" "w \<notin> P" "in_page w x"
  shows "m' x = m x"
proof -
  have "\<not> in_page v x" if "v \<in> P" for v using page_disj [of kend w v x] assms that by metis
  then show ?thesis using assms(1) by (simp add: same_outside_def)
qed

lemma kfree_pages_mem:
  assumes k: "kfree_pages kend s F" and so: "same_outside P (mem s) m'" and P: "\<forall>v\<in>P. page_ok kend v" "P \<inter> F = {}"
  shows "kfree_pages kend (s\<lparr>mem := m'\<rparr>) F"
proof -
  obtain xs where xs: "kmem_inv kend s xs" "F = set xs" using k by (auto simp: kfree_pages_def)
  have "m' x = mem s x" if "x \<in> set xs" for x
  proof (rule page_out [OF so P(1)])
    show "page_ok kend x" using kfree_pages_ok [OF k] xs(2) that by simp
    show "x \<notin> P" using P(2) xs(2) that by blast
  qed (rule page_self)
  then have "free_chain m' (freelist s) xs" using xs(1) free_chain_cong [of xs "mem s" m'] by (simp add: kmem_inv_def)
  then show ?thesis using xs by (auto simp: kfree_pages_def kmem_inv_def)
qed

lemma kalloc_mem: "kalloc s = (Ret v, t) \<Longrightarrow> mem t = mem s"
  by (auto simp: kalloc_def Let_def split: if_splits)

lemma kalloc_pages:
  assumes "kfree_pages kend s F"
  shows "(F = {} \<and> kalloc s = (Ret 0, s)) \<or>
    (\<exists>v t. kalloc s = (Ret v, t) \<and> v \<in> F \<and> v \<noteq> 0 \<and> page_ok kend v \<and> mem t = mem s \<and> kfree_pages kend t (F - {v}))"
proof (cases "F = {}")
  case True
  then show ?thesis using kp.al_empty assms by blast
next
  case False
  then obtain v t where v: "kalloc s = (Ret v, t)" "v \<in> F" "kfree_pages kend t (F - {v})"
    using kp.al_some [OF assms] by blast
  then show ?thesis using kp.free_ok [OF assms v(2)] kalloc_mem [OF v(1)] by blast
qed

lemma fill_page_outside: "same_outside {v} m (fill_page v c m)"
  by (simp add: same_outside_def fill_page_def in_page_def Let_def)

lemma fill_page_zero: "in_page v x \<Longrightarrow> fill_page v 0 m x = 0"
  by (simp add: fill_page_def in_page_def Let_def)

lemma store_outside: "in_page v x \<Longrightarrow> same_outside {v} m (m(x := w))"
  by (auto simp: same_outside_def)

definition vm_inv :: "u32 \<Rightarrow> kmem \<Rightarrow> u32 set \<Rightarrow> u32 \<Rightarrow> bool" where
  "vm_inv kend s F d \<longleftrightarrow> kfree_pages kend s F \<and> vm_wf kend (mem s) d \<and> footprint (mem s) d \<inter> F = {}"

lemma vm_wfD:
  assumes "vm_wf kend m d"
  shows "\<And>v. v \<in> footprint m d \<Longrightarrow> page_ok kend v" "page_ok kend d" "d \<notin> tables m d" "d \<notin> user_pages m d"
    "tables m d \<inter> user_pages m d = {}"
    "\<And>va vb. has_table m d va \<Longrightarrow> has_table m d vb \<Longrightarrow> table_of m d va = table_of m d vb \<Longrightarrow> PDX va = PDX vb"
    "\<And>va vb. va < KERNBASE \<Longrightarrow> vb < KERNBASE \<Longrightarrow> mapped m d va \<Longrightarrow> mapped m d vb \<Longrightarrow>
        frame_of m d va = frame_of m d vb \<Longrightarrow> same_page va vb"
    "\<And>va. has_table m d va \<Longrightarrow> page_ok kend (table_of m d va)" "\<And>va. has_table m d va \<Longrightarrow> table_of m d va \<noteq> d"
proof -
  note w = assms [unfolded vm_wf_def]
  have p: "page_ok kend v" if "v \<in> footprint m d" for v using w that by blast
  then show "\<And>v. v \<in> footprint m d \<Longrightarrow> page_ok kend v" .
  show "page_ok kend d" by (rule p) (simp add: footprint_def)
  show nd: "d \<notin> tables m d" using w by blast
  show "d \<notin> user_pages m d" using w by blast
  show "tables m d \<inter> user_pages m d = {}" using w by blast
  show "PDX va = PDX vb" if "has_table m d va" "has_table m d vb" "table_of m d va = table_of m d vb" for va vb
    using w [THEN conjunct2, THEN conjunct2, THEN conjunct2, THEN conjunct2, THEN conjunct1, rule_format, OF that] .
  show "same_page va vb" if "va < KERNBASE" "vb < KERNBASE" "mapped m d va" "mapped m d vb" "frame_of m d va = frame_of m d vb" for va vb
    using w [THEN conjunct2, THEN conjunct2, THEN conjunct2, THEN conjunct2, THEN conjunct2, rule_format, OF that] .
  have t: "table_of m d va \<in> tables m d" if "has_table m d va" for va using that by (auto simp: tables_def)
  show "page_ok kend (table_of m d va)" if "has_table m d va" for va using t [OF that] by (intro p) (simp add: footprint_def)
  show "table_of m d va \<noteq> d" if "has_table m d va" for va using t [OF that] nd by metis
qed

lemma vm_wfI:
  assumes "\<And>v. v \<in> footprint m d \<Longrightarrow> page_ok kend v" "d \<notin> tables m d" "d \<notin> user_pages m d" "tables m d \<inter> user_pages m d = {}"
    "\<And>va vb. has_table m d va \<Longrightarrow> has_table m d vb \<Longrightarrow> table_of m d va = table_of m d vb \<Longrightarrow> PDX va = PDX vb"
    "\<And>va vb. va < KERNBASE \<Longrightarrow> vb < KERNBASE \<Longrightarrow> mapped m d va \<Longrightarrow> mapped m d vb \<Longrightarrow>
        frame_of m d va = frame_of m d vb \<Longrightarrow> same_page va vb"
  shows "vm_wf kend m d"
  unfolding vm_wf_def by (intro conjI ballI allI impI assms)

text \<open>Storing an entry changes the translation of one page.\<close>

lemma store_pte:
  fixes w :: u32
  assumes wf: "vm_wf kend m d" and ht: "has_table m d va"
  defines "m' \<equiv> m(pte_at m d va := w)"
  shows "has_table m' d vb = has_table m d vb" "table_of m' d vb = table_of m d vb"
    "lookup m' d vb = (if same_page va vb then w else lookup m d vb)" "tables m' d = tables m d"
    "same_outside {table_of m d va} m m'"
proof -
  note W = vm_wfD [OF wf]
  have ok: "page_ok kend (table_of m d va)" "table_of m d va \<noteq> d" using W(8,9) [OF ht] .
  have ip: "in_page (table_of m d va) (pte_at m d va)"
    unfolding pte_at_def by (rule page_word(2) [OF ok(1) index_less(2)])
  show so: "same_outside {table_of m d va} m m'" unfolding m'_def by (rule store_outside [OF ip])
  have pde: "pde_of m' d vb = pde_of m d vb" for vb
  proof -
    have "m' (d + 4 * PDX vb) = m (d + 4 * PDX vb)"
      by (rule page_out [OF so _ W(2) _ page_word(2) [OF W(2) index_less(1)]]) (use ok in auto)
    then show ?thesis by (simp add: pde_of_def)
  qed
  have t: "has_table m' d vb = has_table m d vb" "table_of m' d vb = table_of m d vb" for vb
    by (simp_all add: has_table_def table_of_def pde)
  then show "has_table m' d vb = has_table m d vb" "table_of m' d vb = table_of m d vb" by blast+
  show "tables m' d = tables m d" by (simp add: tables_def t)
  show "lookup m' d vb = (if same_page va vb then w else lookup m d vb)"
  proof (cases "has_table m d vb")
    case False
    then have "PDX va \<noteq> PDX vb" using ht has_table_cong [of va vb m d] by auto
    then show ?thesis using False by (simp add: lookup_def t same_page_indices)
  next
    case True
    have eq: "pte_at m' d vb = pte_at m d vb" by (simp add: pte_at_def t)
    have "pte_at m d vb = pte_at m d va \<longleftrightarrow> same_page va vb"
    proof
      assume a: "pte_at m d vb = pte_at m d va"
      have okb: "page_ok kend (table_of m d vb)" using W(8) [OF True] .
      have "in_page (table_of m d vb) (pte_at m d vb)"
        unfolding pte_at_def by (rule page_word(2) [OF okb index_less(2)])
      then have te: "table_of m d vb = table_of m d va" using a ip page_disj [OF okb ok(1)] by auto
      then have "PTX vb = PTX va" using a page_word_inj [OF okb index_less(2) index_less(2)] by (simp add: pte_at_def)
      moreover have "PDX vb = PDX va" using W(6) [OF True ht te] .
      ultimately show "same_page va vb" by (simp add: same_page_indices)
    next
      assume "same_page va vb"
      then show "pte_at m d vb = pte_at m d va"
        using has_table_cong(2) [of vb va m d] by (simp add: pte_at_def same_page_indices)
    qed
    then show ?thesis using True eq by (simp add: lookup_def t) (simp add: m'_def)
  qed
qed

lemma lookup_translation:
  assumes "\<And>vb. lookup m' d vb = lookup m d vb"
  shows "mapped m' d vb = mapped m d vb" "frame_of m' d vb = frame_of m d vb" "user_pages m' d = user_pages m d"
  using assms by (simp_all add: mapped_def frame_of_def user_pages_def)

text \<open>Adding an empty page table changes no translation.\<close>

lemma add_table:
  assumes wf: "vm_wf kend m d" and nt: "\<not> has_table m d va" and g: "page_ok kend g" "g \<notin> footprint m d"
  defines "m' \<equiv> (fill_page g 0 m)(d + 4 * PDX va := V2P g OR PTE_P OR PTE_W OR PTE_U)"
  shows "has_table m' d va" "table_of m' d va = g" "vm_wf kend m' d" "\<And>vb. lookup m' d vb = lookup m d vb"
    "footprint m' d = insert g (footprint m d)" "same_outside {d, g} m m'" "tables m' d = insert g (tables m d)"
proof -
  note W = vm_wfD [OF wf]
  have gd: "g \<noteq> d" "g \<notin> tables m d" "g \<notin> user_pages m d" using g(2) by (auto simp: footprint_def)
  let ?m1 = "fill_page g 0 m"
  have dj: "insert d (tables m d) \<inter> {g} = {}" using gd by auto
  have okf: "\<forall>v\<in>footprint m d. page_ok kend v" "\<forall>v\<in>{g}. page_ok kend v" using W(1) g(1) by auto
  note f = footprint_frame [OF fill_page_outside [where c = 0] okf dj]
  have ipd: "in_page d (d + 4 * PDX vb)" for vb by (rule page_word(2) [OF W(2) index_less(1)])
  have new: "P2V (PTE_ADDR (V2P g OR PTE_P OR PTE_W OR PTE_U)) = g"
    using page_ok_V2P(1) [OF g(1), of 7] by (simp add: const_defs or.assoc)
  have pres: "(V2P g OR PTE_P OR PTE_W OR PTE_U) AND PTE_P \<noteq> 0"
  proof -
    have "bit ((V2P g OR PTE_P OR PTE_W OR PTE_U) AND PTE_P) 0" by (simp add: const_defs bit_simps)
    then show ?thesis by (metis bit_0_eq bot_apply bot_bool_def)
  qed
  have pde: "pde_of m' d vb = (if PDX vb = PDX va then V2P g OR PTE_P OR PTE_W OR PTE_U else pde_of m d vb)" for vb
    using f(1) [of vb] page_word_inj [OF W(2) index_less(1) [of vb] index_less(1) [of va]] by (simp add: m'_def pde_of_def)
  have ht: "has_table m' d vb \<longleftrightarrow> PDX vb = PDX va \<or> has_table m d vb" for vb using pres by (simp add: has_table_def pde)
  have tb: "table_of m' d vb = (if PDX vb = PDX va then g else table_of m d vb)" for vb by (simp add: table_of_def pde new)
  show "has_table m' d va" "table_of m' d va = g" using ht tb by simp_all
  show so: "same_outside {d, g} m m'"
    unfolding m'_def by (rule same_outside_trans [OF fill_page_outside store_outside [OF ipd]]) auto
  have ntb: "\<not> has_table m d vb" if "PDX vb = PDX va" for vb using nt has_table_cong [of vb va m d] that by blast
  show lk: "lookup m' d vb = lookup m d vb" for vb
  proof (cases "PDX vb = PDX va")
    case True
    have ip: "in_page g (g + 4 * PTX vb)" by (rule page_word(2) [OF g(1) index_less(2)])
    then have "g + 4 * PTX vb \<noteq> d + 4 * PDX va" using page_disj [OF g(1) W(2) gd(1)] ipd by metis
    then have "m' (g + 4 * PTX vb) = 0" using fill_page_zero [OF ip] by (simp add: m'_def)
    then show ?thesis using True ntb [OF True] by (simp add: lookup_def ht tb pte_at_def)
  next
    case False
    show ?thesis
    proof (cases "has_table m d vb")
      case True
      have okb: "page_ok kend (table_of m d vb)" "table_of m d vb \<noteq> d" using W(8,9) [OF True] .
      have "table_of m d vb \<in> tables m d" using True by (auto simp: tables_def)
      then have ng: "table_of m d vb \<noteq> g" using gd(2) by blast
      have "m' (pte_at m d vb) = m (pte_at m d vb)"
        by (rule page_out [OF so _ okb(1)]) (use W(2) g(1) okb(2) ng page_word(2) [OF okb(1) index_less(2)] in \<open>auto simp: pte_at_def\<close>)
      then show ?thesis using True False by (simp add: lookup_def ht tb pte_at_def)
    next
      case F: False
      then show ?thesis using False by (simp add: lookup_def ht)
    qed
  qed
  note lt = lookup_translation [of m' d m, OF lk]
  show ts: "tables m' d = insert g (tables m d)"
  proof -
    have "tables m' d = {if PDX vb = PDX va then g else table_of m d vb |vb. PDX vb = PDX va \<or> has_table m d vb}"
      by (simp add: tables_def ht tb)
    also have "\<dots> = insert g {table_of m d vb |vb. has_table m d vb}"
      using ntb by (auto; metis)
    finally show ?thesis by (simp add: tables_def)
  qed
  show fp: "footprint m' d = insert g (footprint m d)" using ts lt(3) by (auto simp: footprint_def)
  show "vm_wf kend m' d"
  proof (rule vm_wfI)
    show "page_ok kend v" if "v \<in> footprint m' d" for v using that W(1) g(1) fp by auto
    show "d \<notin> tables m' d" "d \<notin> user_pages m' d" "tables m' d \<inter> user_pages m' d = {}"
      using W(3-5) gd ts lt(3) by auto
    show "PDX v = PDX vb" if "has_table m' d v" "has_table m' d vb" "table_of m' d v = table_of m' d vb" for v vb
    proof -
      have nb: "table_of m d x \<noteq> g" if "has_table m d x" for x using gd(2) that by (auto simp: tables_def)
      show ?thesis using that W(6) [of v vb] nb [of v] nb [of vb] by (auto simp: ht tb split: if_splits)
    qed
    show "same_page v vb" if "v < KERNBASE" "vb < KERNBASE" "mapped m' d v" "mapped m' d vb" "frame_of m' d v = frame_of m' d vb" for v vb
      using that W(7) [of v vb] lt(1,2) by simp
  qed
qed

lemma user_nat: "va < KERNBASE \<longleftrightarrow> unat va < 0x80000000"
  by (simp add: word_less_nat_alt const_defs)

lemma same_page_user: "same_page va vb \<Longrightarrow> va < KERNBASE \<longleftrightarrow> vb < KERNBASE"
proof -
  assume "same_page va vb"
  moreover have "unat x < 0x80000000 \<longleftrightarrow> unat x div 4096 < 0x80000" for x :: u32 by auto
  ultimately show ?thesis unfolding user_nat same_page_def by simp
qed

lemma same_page_sym: "same_page a b = same_page b a"
  by (auto simp: same_page_def)

lemma store_pte_wf:
  fixes w :: u32
  assumes wf: "vm_wf kend m d" and ht: "has_table m d va"
    and fresh: "va < KERNBASE \<Longrightarrow> w AND PTE_P \<noteq> 0 \<Longrightarrow> page_ok kend (P2V (PTE_ADDR w)) \<and> P2V (PTE_ADDR w) \<notin> footprint m d"
  defines "m' \<equiv> m(pte_at m d va := w)"
  shows "vm_wf kend m' d"
    "user_pages m' d = (user_pages m d - (if va < KERNBASE \<and> mapped m d va then {frame_of m d va} else {})) \<union>
       (if va < KERNBASE \<and> w AND PTE_P \<noteq> 0 then {P2V (PTE_ADDR w)} else {})"
proof -
  note W = vm_wfD [OF wf]
  note S = store_pte [OF wf ht, of w, folded m'_def]
  have mp: "mapped m' d vb \<longleftrightarrow> (if same_page va vb then w AND PTE_P \<noteq> 0 else mapped m d vb)" for vb
    by (simp add: mapped_def S(3))
  have fr: "frame_of m' d vb = (if same_page va vb then P2V (PTE_ADDR w) else frame_of m d vb)" for vb
    by (simp add: frame_of_def S(3))
  have mc: "same_page va vb \<Longrightarrow> mapped m d vb = mapped m d va" "same_page va vb \<Longrightarrow> frame_of m d vb = frame_of m d va" for vb
    using lookup_cong [of va vb m d] by (simp_all add: mapped_def frame_of_def)
  let ?new = "if va < KERNBASE \<and> w AND PTE_P \<noteq> 0 then {P2V (PTE_ADDR w)} else {}"
  show up: "user_pages m' d = (user_pages m d - (if va < KERNBASE \<and> mapped m d va then {frame_of m d va} else {})) \<union> ?new" (is "_ = ?r")
  proof (rule set_eqI, rule iffI)
    fix v assume "v \<in> user_pages m' d"
    then obtain vb where vb: "vb < KERNBASE" "mapped m' d vb" "v = frame_of m' d vb" by (auto simp: user_pages_def)
    show "v \<in> ?r"
    proof (cases "same_page va vb")
      case True
      then show ?thesis using vb same_page_user [OF True] by (auto simp: mp fr)
    next
      case False
      then have m: "mapped m d vb" "v = frame_of m d vb" using vb by (simp_all add: mp fr)
      then have "v \<in> user_pages m d" using vb(1) by (auto simp: user_pages_def)
      moreover have "v \<noteq> frame_of m d va" if "va < KERNBASE" "mapped m d va"
        using W(7) [OF that(1) vb(1) that(2) m(1)] m(2) False by metis
      ultimately show ?thesis by auto
    qed
  next
    fix v assume v: "v \<in> ?r"
    show "v \<in> user_pages m' d"
    proof (cases "v \<in> ?new")
      case True
      then have "va < KERNBASE" "mapped m' d va" "v = frame_of m' d va" by (auto simp: mp fr split: if_splits)
      then show ?thesis by (auto simp: user_pages_def)
    next
      case False
      then have "v \<in> user_pages m d" and ne: "va < KERNBASE \<Longrightarrow> mapped m d va \<Longrightarrow> v \<noteq> frame_of m d va"
        using v by (auto split: if_splits)
      then obtain vb where vb: "vb < KERNBASE" "mapped m d vb" "v = frame_of m d vb" by (auto simp: user_pages_def)
      then have "\<not> same_page va vb" using ne same_page_user [of va vb] mc [of vb] by metis
      then show ?thesis using vb by (auto simp: user_pages_def mp fr)
    qed
  qed
  have new: "v \<notin> footprint m d" "page_ok kend v" if "v \<in> ?new" for v using fresh that by (auto split: if_splits)
  have sub: "user_pages m' d \<subseteq> user_pages m d \<union> ?new" unfolding up by blast
  show "vm_wf kend m' d"
  proof (rule vm_wfI)
    show "page_ok kend v" if "v \<in> footprint m' d" for v
      using that sub new(2) [of v] W(1) [of v] S(4) by (auto simp: footprint_def)
    show "d \<notin> tables m' d" using W(3) S(4) by simp
    show "d \<notin> user_pages m' d" using W(4) sub new(1) [of d] by (auto simp: footprint_def)
    show "tables m' d \<inter> user_pages m' d = {}" using W(5) sub new(1) S(4) by (fastforce simp: footprint_def)
    show "PDX v = PDX vb" if "has_table m' d v" "has_table m' d vb" "table_of m' d v = table_of m' d vb" for v vb
      using that W(6) [of v vb] by (simp add: S)
    show "same_page v vb" if h: "v < KERNBASE" "vb < KERNBASE" "mapped m' d v" "mapped m' d vb" "frame_of m' d v = frame_of m' d vb" for v vb
    proof -
      have old: "frame_of m d x \<in> footprint m d" if "x < KERNBASE" "mapped m d x" for x
        using that by (auto simp: footprint_def user_pages_def)
      have nw: "P2V (PTE_ADDR w) \<notin> footprint m d" if "same_page va x" "x < KERNBASE" "w AND PTE_P \<noteq> 0" for x
        using fresh that same_page_user [of va x] by blast
      show ?thesis
      proof (cases "same_page va v"; cases "same_page va vb")
        assume "same_page va v" "same_page va vb"
        then show ?thesis by (simp add: same_page_def)
      next
        assume a: "same_page va v" "\<not> same_page va vb"
        then show ?thesis using h old [of vb] nw [of v] by (simp add: mp fr)
      next
        assume a: "\<not> same_page va v" "same_page va vb"
        then show ?thesis using h old [of v] nw [of vb] by (simp add: mp fr)
      next
        assume a: "\<not> same_page va v" "\<not> same_page va vb"
        then show ?thesis using h W(7) [of v vb] by (simp add: mp fr)
      qed
    qed
  qed
qed

lemma walk_lookup:
  "walkpgdir d va False s = (Ret (if has_table (mem s) d va then pte_at (mem s) d va else 0), s)"
  by (simp add: walkpgdir_def kop_defs has_table_def pte_at_def table_of_def pde_of_def)

lemma table_word_nonzero: "vm_wf kend m d \<Longrightarrow> has_table m d va \<Longrightarrow> pte_at m d va \<noteq> 0"
proof -
  assume "vm_wf kend m d" "has_table m d va"
  then have ok: "page_ok kend (table_of m d va)" by (rule vm_wfD(8))
  have "unat (pte_at m d va) = unat (table_of m d va) + 4 * unat (PTX va)"
    unfolding pte_at_def by (rule page_word(1) [OF ok index_less(2)])
  then show ?thesis using page_ok_unat [OF ok] by (auto simp: word_unat_eq_iff)
qed

text \<open>\<^verbatim>\<open>walkpgdir\<close> with allocation fails only without a free page, and otherwise changes no translation.\<close>

lemma walk_alloc:
  assumes inv: "vm_inv kend s F d"
  shows "if has_table (mem s) d va \<or> F \<noteq> {}
    then \<exists>t F'. walkpgdir d va True s = (Ret (pte_at (mem t) d va), t) \<and> pte_at (mem t) d va \<noteq> 0 \<and>
      has_table (mem t) d va \<and> F' \<subseteq> F \<and> vm_inv kend t F' d \<and> (\<forall>vb. lookup (mem t) d vb = lookup (mem s) d vb) \<and>
      footprint (mem t) d = footprint (mem s) d \<union> (F - F') \<and> tables (mem t) d = tables (mem s) d \<union> (F - F') \<and>
      same_outside (insert d (F - F')) (mem s) (mem t)
    else walkpgdir d va True s = (Ret 0, s)"
proof -
  have I: "kfree_pages kend s F" "vm_wf kend (mem s) d" "footprint (mem s) d \<inter> F = {}"
    using inv by (simp_all add: vm_inv_def)
  show ?thesis
  proof (cases "has_table (mem s) d va")
    case True
    have "walkpgdir d va True s = (Ret (pte_at (mem s) d va), s)"
      using True by (simp add: walkpgdir_def kop_defs has_table_def pte_at_def table_of_def pde_of_def)
    moreover have "same_outside (insert d (F - F)) (mem s) (mem s)" by (simp add: same_outside_def)
    ultimately show ?thesis using True inv table_word_nonzero [OF I(2) True] by (simp, intro exI [of _ s] exI [of _ F]) simp
  next
    case nt: False
    then have z: "mem s (d + 4 * PDX va) AND PTE_P = 0" by (simp add: has_table_def pde_of_def)
    show ?thesis
    proof (cases "F = {}")
      case True
      then have "kalloc s = (Ret 0, s)" using kalloc_pages [OF I(1)] by auto
      then show ?thesis using nt z True by (simp add: walkpgdir_def kop_defs)
    next
      case False
      then obtain g u where g: "kalloc s = (Ret g, u)" "g \<in> F" "g \<noteq> 0" "page_ok kend g" "mem u = mem s" "kfree_pages kend u (F - {g})"
        using kalloc_pages [OF I(1)] by auto
      have gf: "g \<notin> footprint (mem s) d" using I(3) g(2) by blast
      define m' where "m' = (fill_page g 0 (mem s))(d + 4 * PDX va := V2P g OR PTE_P OR PTE_W OR PTE_U)"
      note A = add_table [OF I(2) nt g(4) gf, folded m'_def]
      let ?t = "u\<lparr>mem := m'\<rparr>"
      have dok: "page_ok kend d" "d \<notin> F" using vm_wfD(2) [OF I(2)] I(3) by (auto simp: footprint_def)
      have w: "walkpgdir d va True s = (Ret (pte_at m' d va), ?t)"
        using g(1,3,5) z A(2) by (simp add: walkpgdir_def kop_defs upd_mem_def pte_at_def m'_def)
      have nz: "pte_at m' d va \<noteq> 0" by (rule table_word_nonzero [OF A(3,1)])
      have "kfree_pages kend ?t (F - {g})"
        by (rule kfree_pages_mem [OF g(6), of "{d, g}"]) (use A(6) g(4,5) dok in auto)
      then have "vm_inv kend ?t (F - {g}) d" using A(3,5) I(3) by (auto simp: vm_inv_def)
      moreover have e: "F - (F - {g}) = {g}" using g(2) by blast
      ultimately show ?thesis
        using nt False w nz A by (simp, intro exI [of _ ?t] exI [of _ "F - {g}"]) (auto simp: e insert_commute)
    qed
  qed
qed

lemma pte_flags:
  assumes "page_ok kend pg" and "unat perm < 4096"
  shows "P2V (PTE_ADDR (V2P pg OR perm OR PTE_P)) = pg" "(V2P pg OR perm OR PTE_P) AND PTE_P \<noteq> 0"
    "PTE_FLAGS (V2P pg OR perm OR PTE_P) = perm OR PTE_P"
proof -
  have "take_bit 12 perm = perm" using assms(2) by (simp add: word_unat_eq_iff take_bit_eq_mod unat_mod)
  then have t: "take_bit 12 (perm OR 1) = perm OR 1" by (simp add: take_bit_or)
  have "unat (take_bit 12 (perm OR 1)) < 2 ^ 12"
    by (simp only: unsigned_take_bit_eq) (rule take_bit_nat_less_exp)
  then have "unat (perm OR 1) < 4096" unfolding t by simp
  then show "P2V (PTE_ADDR (V2P pg OR perm OR PTE_P)) = pg" "PTE_FLAGS (V2P pg OR perm OR PTE_P) = perm OR PTE_P"
    using page_ok_V2P [OF assms(1), of "perm OR 1"] by (simp_all add: or.assoc PTE_P_def)
  have "bit ((V2P pg OR perm OR PTE_P) AND PTE_P) 0" by (simp add: const_defs bit_simps)
  then show "(V2P pg OR perm OR PTE_P) AND PTE_P \<noteq> 0" by (metis bit_0_eq bot_apply bot_bool_def)
qed

text \<open>One page of a process mapped to a page of the pool that no one else uses.\<close>

lemma map_one_user:
  assumes inv: "vm_inv kend s F d" and va: "va < KERNBASE" "\<not> mapped (mem s) d va"
    and pg: "page_ok kend pg" "pg \<notin> F" "pg \<notin> footprint (mem s) d" and perm: "unat perm < 4096"
  shows "if has_table (mem s) d va \<or> F \<noteq> {}
    then \<exists>t F'. map_one d va (V2P pg) perm s = (Ret 0, t) \<and> F' \<subseteq> F \<and> vm_inv kend t F' d \<and>
      (\<forall>vb. lookup (mem t) d vb = (if same_page va vb then V2P pg OR perm OR PTE_P else lookup (mem s) d vb)) \<and>
      footprint (mem t) d = insert pg (footprint (mem s) d \<union> (F - F')) \<and> tables (mem t) d = tables (mem s) d \<union> (F - F') \<and>
      same_outside (insert d (tables (mem s) d \<union> (F - F'))) (mem s) (mem t)
    else map_one d va (V2P pg) perm s = (Ret (- 1), s)"
proof (cases "has_table (mem s) d va \<or> F \<noteq> {}")
  case False
  then have "walkpgdir d va True s = (Ret 0, s)" using walk_alloc [OF inv, of va] by simp
  then show ?thesis using False by (simp add: map_one_def kop_defs)
next
  case True
  then obtain u F' where u: "walkpgdir d va True s = (Ret (pte_at (mem u) d va), u)" "pte_at (mem u) d va \<noteq> 0"
      "has_table (mem u) d va" "F' \<subseteq> F" "vm_inv kend u F' d" "\<forall>vb. lookup (mem u) d vb = lookup (mem s) d vb"
      "footprint (mem u) d = footprint (mem s) d \<union> (F - F')" "tables (mem u) d = tables (mem s) d \<union> (F - F')"
      "same_outside (insert d (F - F')) (mem s) (mem u)"
    using walk_alloc [OF inv, of va] by auto
  have U: "kfree_pages kend u F'" "vm_wf kend (mem u) d" "footprint (mem u) d \<inter> F' = {}"
    using u(5) by (simp_all add: vm_inv_def)
  have nm: "\<not> mapped (mem u) d va" using va(2) u(6) by (simp add: mapped_def)
  then have old: "mem u (pte_at (mem u) d va) AND PTE_P = 0" using u(3) by (simp add: mapped_def lookup_def)
  let ?w = "V2P pg OR perm OR PTE_P"
  note fl = pte_flags [OF pg(1) perm]
  have pgu: "pg \<notin> footprint (mem u) d" using pg(2,3) u(7) by blast
  have fresh: "va < KERNBASE \<Longrightarrow> ?w AND PTE_P \<noteq> 0 \<Longrightarrow> page_ok kend (P2V (PTE_ADDR ?w)) \<and> P2V (PTE_ADDR ?w) \<notin> footprint (mem u) d"
    using pg(1) pgu fl(1) by simp
  note S = store_pte [OF U(2) u(3), of ?w] and SW = store_pte_wf [OF U(2) u(3) fresh]
  let ?m = "(mem u)(pte_at (mem u) d va := ?w)"
  let ?t = "u\<lparr>mem := ?m\<rparr>"
  have ex: "map_one d va (V2P pg) perm s = (Ret 0, ?t)"
    using u(1,2) old by (simp add: map_one_def kop_defs upd_mem_def)
  have tin: "table_of (mem u) d va \<in> tables (mem u) d" using u(3) by (auto simp: tables_def)
  have fp: "footprint ?m d = insert pg (footprint (mem u) d)"
    using SW(2) S(4) nm va(1) fl by (auto simp: footprint_def)
  have "kfree_pages kend ?t F'"
    by (rule kfree_pages_mem [OF U(1) S(5)])
      (use tin U(3) vm_wfD(1) [OF U(2)] in \<open>auto simp: footprint_def\<close>)
  then have vi: "vm_inv kend ?t F' d" using SW(1) fp U(3) pg(2) u(4) by (auto simp: vm_inv_def)
  have so: "same_outside (insert d (tables (mem s) d \<union> (F - F'))) (mem s) ?m"
    by (rule same_outside_trans [OF u(9) S(5)]) (use tin u(8) in auto)
  have lk: "\<forall>vb. lookup ?m d vb = (if same_page va vb then ?w else lookup (mem s) d vb)" using S(3) u(6) by simp
  have tb: "tables ?m d = tables (mem s) d \<union> (F - F')" using S(4) u(8) by simp
  show ?thesis using True ex u(4) vi lk fp u(7) so tb by (simp, intro exI [of _ ?t] exI [of _ F']) simp
qed

lemma mappages_page:
  assumes "unat a mod 4096 = 0"
  shows "mappages d a PGSIZE pa perm = map_one d a pa perm"
proof -
  obtain i where i: "unat a = 4096 * i" using assms by (auto simp: mod_eq_0_iff_dvd elim!: dvdE)
  then have "unat a + 4095 < 2 ^ 32" using unsigned_less [of a, where ?'a = nat] by simp
  then have "unat (a + 4095) = unat a + 4095" by (simp add: unat_word_ariths)
  moreover have "a + PGSIZE - 1 = a + 4095" by (simp add: const_defs)
  ultimately have "unat (a + PGSIZE - 1) = 4096 * i + 4095" using i by (simp only:)
  then have "unat (PGROUNDDOWN (a + PGSIZE - 1)) = unat a" unfolding unat_PGROUNDDOWN using i by simp
  then have "PGROUNDDOWN (a + PGSIZE - 1) = a" by (simp only: word_unat_eq_iff)
  moreover have "PGROUNDDOWN a = a" using i by (simp add: word_unat_eq_iff unat_PGROUNDDOWN)
  ultimately show ?thesis by (simp only: mappages_def Let_def) simp
qed

end
