(* ===== verification/Vm_Space.thy ===== *)
theory Vm_Space
  imports Vm
begin

text \<open>
  Growing, shrinking and freeing the user part of an address space: what \<^verbatim>\<open>allocuvm\<close>,
  \<^verbatim>\<open>deallocuvm\<close> and \<^verbatim>\<open>freevm\<close> do to the translation, to the free list and to memory.
\<close>

section \<open>Freeing user memory\<close>

definition in_range :: "nat \<Rightarrow> nat \<Rightarrow> u32 \<Rightarrow> bool" where
  "in_range lo hi va \<longleftrightarrow> lo \<le> unat va div 4096 * 4096 \<and> unat va div 4096 * 4096 < hi"

lemma vm_invD:
  assumes "vm_inv kend s F d"
  shows "kfree_pages kend s F" "vm_wf kend (mem s) d" "footprint (mem s) d \<inter> F = {}"
  using assms by (simp_all add: vm_inv_def)

lemma frame_addr_nonzero:
  assumes "page_ok kend (P2V (PTE_ADDR v))" and "KERNBASE < kend"
  shows "PTE_ADDR v \<noteq> 0"
proof
  assume "PTE_ADDR v = 0"
  then have "P2V (PTE_ADDR v) = KERNBASE" by (simp add: P2V_def)
  moreover have "kend \<le> P2V (PTE_ADDR v)" using assms(1) by (simp add: page_ok_def)
  ultimately show False using assms(2) by simp
qed

lemma kfree_exec:
  assumes k: "kfree_pages kend s F" and v: "page_ok kend v" "v \<notin> F"
  shows "\<exists>t. kfree kend v s = (Ret (), t) \<and> kfree_pages kend t (insert v F) \<and> same_outside {v} (mem s) (mem t)"
proof -
  let ?t = "s\<lparr>mem := (fill_page v 1 (mem s))(v := freelist s), freelist := v\<rparr>"
  have e: "kfree kend v s = (Ret (), ?t)" by (rule kfree_ok [OF v(1)])
  moreover have "kfree_pages kend ?t (insert v F)" using kp.fr_ok [OF k v] e by auto
  moreover have "same_outside {v} (mem s) ((fill_page v 1 (mem s))(v := freelist s))"
    by (rule same_outside_trans [OF fill_page_outside store_outside [OF page_self]]) auto
  ultimately show ?thesis by (intro exI [of _ ?t]) simp
qed

lemma dealloc_one_spec:
  assumes inv: "vm_inv kend s F d" and kend: "KERNBASE < kend" and a: "a < KERNBASE"
  shows "\<exists>r t. dealloc_one kend d a s = (Ret r, t) \<and>
    r = (if has_table (mem s) d a then a else PGADDR (PDX a + 1) 0 0 - PGSIZE) \<and>
    (let G = (if mapped (mem s) d a then {frame_of (mem s) d a} else {}) in
     vm_inv kend t (F \<union> G) d \<and> (\<forall>vb. lookup (mem t) d vb = (if same_page a vb \<and> mapped (mem s) d vb then 0 else lookup (mem s) d vb)) \<and>
     footprint (mem t) d = footprint (mem s) d - G \<and> tables (mem t) d = tables (mem s) d \<and>
     (\<forall>vb. has_table (mem t) d vb = has_table (mem s) d vb) \<and>
     same_outside (tables (mem s) d \<union> G) (mem s) (mem t))"
proof (cases "mapped (mem s) d a")
  case False
  have "same_page a vb \<Longrightarrow> \<not> mapped (mem s) d vb" for vb using False lookup_cong [of a vb "mem s" d] by (simp add: mapped_def)
  moreover have "same_outside (tables (mem s) d) (mem s) (mem s)" by (simp add: same_outside_def)
  moreover have "dealloc_one kend d a s = (Ret (if has_table (mem s) d a then a else PGADDR (PDX a + 1) 0 0 - PGSIZE), s)"
  proof (cases "has_table (mem s) d a")
    case True
    then have "mem s (pte_at (mem s) d a) AND PTE_P = 0" using False by (simp add: mapped_def lookup_def)
    then show ?thesis using True table_word_nonzero [OF vm_invD(2) [OF inv] True]
      by (simp add: dealloc_one_def kbind_def walk_lookup kget_def kret_def)
  next
    case F: False
    then show ?thesis by (simp add: dealloc_one_def kbind_def walk_lookup kret_def)
  qed
  ultimately show ?thesis using False inv by (auto simp: Let_def)
next
  case True
  note I = vm_invD [OF inv]
  note W = vm_wfD [OF I(2)]
  have ht: "has_table (mem s) d a" using mapped_table [OF True] .
  let ?fr = "frame_of (mem s) d a" and ?v = "lookup (mem s) d a"
  have v: "mem s (pte_at (mem s) d a) = ?v" "?v AND PTE_P \<noteq> 0" using ht True by (simp_all add: lookup_def mapped_def)
  have fu: "?fr \<in> user_pages (mem s) d" using True a by (auto simp: user_pages_def)
  then have fp: "?fr \<in> footprint (mem s) d" by (simp add: footprint_def)
  have fok: "page_ok kend ?fr" "?fr \<notin> F" using W(1) [OF fp] I(3) fp by auto
  have nz: "PTE_ADDR ?v \<noteq> 0" using frame_addr_nonzero [OF _ kend, of ?v] fok(1) by (simp add: frame_of_def)
  obtain u where u: "kfree kend ?fr s = (Ret (), u)" "kfree_pages kend u (insert ?fr F)" "same_outside {?fr} (mem s) (mem u)"
    using kfree_exec [OF I(1) fok] by blast
  have dj: "insert d (tables (mem s) d) \<inter> {?fr} = {}" using fu W(4,5) by auto
  have okf: "\<forall>v\<in>footprint (mem s) d. page_ok kend v" "\<forall>v\<in>{?fr}. page_ok kend v" using W(1) fok(1) by auto
  note f = footprint_frame [OF u(3) okf dj]
  have wu: "vm_wf kend (mem u) d" by (rule vm_wf_frame [OF u(3) I(2) okf(2) dj])
  have hu: "has_table (mem u) d a" using ht f(2) by simp
  let ?m = "(mem u)(pte_at (mem u) d a := 0)"
  let ?t = "u\<lparr>mem := ?m\<rparr>"
  note S = store_pte [OF wu hu, of 0]
  have fresh: "a < KERNBASE \<Longrightarrow> (0 :: u32) AND PTE_P \<noteq> 0 \<Longrightarrow> page_ok kend (P2V (PTE_ADDR 0)) \<and> P2V (PTE_ADDR 0) \<notin> footprint (mem u) d"
    by simp
  note SW = store_pte_wf [OF wu hu fresh]
  have ex: "dealloc_one kend d a s = (Ret a, ?t)"
    using ht v u(1) nz table_word_nonzero [OF I(2) ht] f(4) [of a]
    by (simp add: dealloc_one_def kop_defs walk_lookup upd_mem_def frame_of_def)
  have tin: "table_of (mem u) d a \<in> tables (mem s) d" using hu f(2,3,8) by (auto simp: tables_def)
  have mu: "mapped (mem u) d a" "frame_of (mem u) d a = ?fr" using True f(6,7) by simp_all
  have fpt: "footprint ?m d = footprint (mem s) d - {?fr}"
  proof -
    have "user_pages ?m d = user_pages (mem s) d - {?fr}" using SW(2) a mu f(9) by simp
    then show ?thesis using S(4) f(8) dj by (auto simp: footprint_def)
  qed
  have "kfree_pages kend ?t (insert ?fr F)"
  proof (rule kfree_pages_mem [OF u(2) S(5)])
    show "\<forall>v\<in>{table_of (mem u) d a}. page_ok kend v" using W(1) tin by (simp add: footprint_def)
    show "{table_of (mem u) d a} \<inter> insert ?fr F = {}" using tin dj I(3) by (auto simp: footprint_def)
  qed
  then have vi: "vm_inv kend ?t (F \<union> {?fr}) d" using SW(1) fpt I(3) by (auto simp: vm_inv_def)
  have so: "same_outside (tables (mem s) d \<union> {?fr}) (mem s) ?m"
    by (rule same_outside_trans [OF u(3) S(5)]) (use tin in auto)
  have mc: "same_page a vb \<Longrightarrow> mapped (mem s) d vb" for vb using True lookup_cong [of a vb "mem s" d] by (simp add: mapped_def)
  have lk: "lookup ?m d vb = (if same_page a vb \<and> mapped (mem s) d vb then 0 else lookup (mem s) d vb)" for vb
    using S(3) [of vb] f(5) [of vb] mc [of vb] by simp
  show ?thesis
    unfolding Let_def using ex vi lk fpt so S(1,4) f(2,8) ht True by (intro exI [of _ a] exI [of _ ?t]) simp
qed

lemma unat_PGADDR:
  assumes "a < KERNBASE"
  shows "unat (PGADDR (PDX a + 1) 0 0) = (unat a div 4194304 + 1) * 4194304"
proof -
  have d: "unat a div 4194304 < 512" using assms by (simp add: user_nat)
  define x where "x = PDX a + 1"
  have x: "unat x = unat a div 4194304 + 1" using d by (simp add: x_def unat_word_ariths unat_PDX)
  have "PGADDR x 0 0 = x * 4194304" by (simp add: PGADDR_def push_bit_eq_mult)
  then have "unat (PGADDR x 0 0) = unat x * 4194304" using x d by (simp add: unat_word_ariths)
  then show ?thesis using x by (simp add: x_def)
qed

text \<open>The next address the loop looks at, and what it skips.\<close>

lemma dealloc_next:
  fixes ht :: bool
  assumes a: "a < KERNBASE" "unat a mod 4096 = 0"
  defines "b \<equiv> (if ht then a else PGADDR (PDX a + 1) 0 0 - PGSIZE) + PGSIZE"
  shows "unat a < unat b" "unat b mod 4096 = 0" "unat b \<le> 0x80000000"
    "ht \<Longrightarrow> unat b = unat a + 4096"
    "\<not> ht \<Longrightarrow> in_range (unat a) (unat b) va \<Longrightarrow> PDX va = PDX a"
proof -
  have an: "unat a < 0x80000000" using a(1) by (simp add: user_nat)
  obtain i where i: "unat a = 4096 * i" using a(2) by (auto simp: mod_eq_0_iff_dvd elim!: dvdE)
  have t: "unat (a + PGSIZE) = unat a + 4096" using an by (simp add: unat_word_ariths)
  have f: "\<not> ht \<Longrightarrow> unat b = (unat a div 4194304 + 1) * 4194304" using unat_PGADDR [OF a(1)] by (simp add: b_def)
  have d: "unat a div 4194304 * 4194304 \<le> unat a" "unat a < (unat a div 4194304 + 1) * 4194304"
    using dividend_less_div_times [of 4194304 "unat a"] by (simp_all add: algebra_simps)
  show "unat a < unat b" using t f d by (cases ht) (auto simp: b_def)
  show "unat b mod 4096 = 0" using t f i by (cases ht) (auto simp: b_def)
  show "unat b \<le> 0x80000000"
  proof (cases ht)
    case True
    then show ?thesis using t an i by (simp add: b_def)
  next
    case False
    have "unat a div 4194304 < 512" using an by simp
    then have "(unat a div 4194304 + 1) * 4194304 \<le> 512 * 4194304" by (intro mult_le_mono) auto
    then show ?thesis using f [OF False] by simp
  qed
  show "ht \<Longrightarrow> unat b = unat a + 4096" using t by (simp add: b_def)
  show "PDX va = PDX a" if h: "\<not> ht" "in_range (unat a) (unat b) va"
  proof -
    have "unat va div 4194304 = unat va div 4096 * 4096 div 4194304"
    proof -
      have "unat va div 4194304 = unat va div 4096 div 1024" by (simp add: div_mult2_eq)
      moreover have "unat va div 4096 * 4096 div 4194304 = unat va div 4096 div 1024"
        using div_mult_mult2 [of 4096 "unat va div 4096" 1024] by simp
      ultimately show ?thesis by simp
    qed
    moreover have "unat a div 4194304 \<le> unat va div 4096 * 4096 div 4194304"
      using h(2) by (intro div_le_mono) (simp add: in_range_def)
    moreover have "unat va div 4096 * 4096 div 4194304 < unat a div 4194304 + 1"
      using h f by (intro less_mult_imp_div_less) (simp add: in_range_def)
    ultimately show ?thesis by (simp add: word_unat_eq_iff unat_PDX)
  qed
qed

lemma aligned_page: "unat a mod 4096 = 0 \<Longrightarrow> same_page a va \<longleftrightarrow> unat va div 4096 * 4096 = unat a"
  by (auto simp: same_page_def mod_eq_0_iff_dvd elim!: dvdE)

lemma in_range_user: "in_range lo hi va \<Longrightarrow> hi \<le> 0x80000000 \<Longrightarrow> va < KERNBASE"
proof -
  assume a: "in_range lo hi va" "hi \<le> 0x80000000"
  then have "unat va div 4096 * 4096 < 0x80000 * 4096" by (simp add: in_range_def)
  then have "unat va div 4096 < 0x80000" by simp
  then show ?thesis by (auto simp: user_nat)
qed

definition freed :: "(u32 \<Rightarrow> u32) \<Rightarrow> u32 \<Rightarrow> nat \<Rightarrow> nat \<Rightarrow> u32 set" where
  "freed m d lo hi = {frame_of m d va |va. in_range lo hi va \<and> mapped m d va}"

definition deallocated :: "u32 \<Rightarrow> u32 \<Rightarrow> nat \<Rightarrow> nat \<Rightarrow> kmem \<Rightarrow> u32 set \<Rightarrow> kmem \<Rightarrow> bool" where
  "deallocated kend d lo hi s F t \<longleftrightarrow> (let G = freed (mem s) d lo hi in
     vm_inv kend t (F \<union> G) d \<and>
     (\<forall>vb. lookup (mem t) d vb = (if in_range lo hi vb \<and> mapped (mem s) d vb then 0 else lookup (mem s) d vb)) \<and>
     footprint (mem t) d = footprint (mem s) d - G \<and> tables (mem t) d = tables (mem s) d \<and>
     (\<forall>vb. has_table (mem t) d vb = has_table (mem s) d vb) \<and>
     same_outside (tables (mem s) d \<union> G) (mem s) (mem t))"

lemma deallocated_nothing:
  assumes "vm_inv kend s F d" and "hi \<le> lo"
  shows "deallocated kend d lo hi s F s"
proof -
  have "\<not> in_range lo hi va" for va using assms(2) by (auto simp: in_range_def)
  then show ?thesis using assms(1) by (simp add: deallocated_def freed_def same_outside_def)
qed

lemma num_pages_step:
  assumes "unat a + 4096 \<le> unat b" "num_pages a hi \<le> Suc n"
  shows "num_pages b hi \<le> n"
proof -
  have "(unat hi - unat b + 4095) div 4096 \<le> (unat hi - unat a + 4095 - 4096) div 4096"
    using assms(1) by (cases "unat hi \<le> unat b") (auto intro: div_le_mono)
  also have "\<dots> \<le> num_pages a hi - 1" by (simp add: num_pages_def)
  finally show ?thesis using assms(2) by (simp add: num_pages_def)
qed

lemma deallocuvm_loop_spec:
  assumes "vm_inv kend s F d" and "KERNBASE < kend" and "unat a mod 4096 = 0" and "unat hi \<le> 0x80000000" and "num_pages a hi \<le> n"
  shows "\<exists>t. deallocuvm_loop n kend d a hi s = (Ret (), t) \<and> deallocated kend d (unat a) (unat hi) s F t"
  using assms
proof (induction n arbitrary: a s F)
  case 0
  have "unat hi \<le> unat a" using "0.prems"(5) by (simp add: num_pages_def)
  then show ?case using deallocated_nothing [OF "0.prems"(1)] by (simp add: kret_def)
next
  case (Suc n)
  show ?case
  proof (cases "a < hi")
    case False
    then have "unat hi \<le> unat a" by (simp add: not_less word_le_nat_alt)
    then show ?thesis using False deallocated_nothing [OF Suc.prems(1)] by (simp add: kret_def)
  next
    case True
    then have ahi: "unat a < unat hi" by (simp add: word_less_nat_alt)
    then have au: "a < KERNBASE" using Suc.prems(4) by (simp add: user_nat)
    let ?m = "mem s" and ?G = "if mapped (mem s) d a then {frame_of (mem s) d a} else {}"
    define b where "b = (if has_table ?m d a then a else PGADDR (PDX a + 1) 0 0 - PGSIZE) + PGSIZE"
    note N = dealloc_next [OF au Suc.prems(3), of "has_table ?m d a", folded b_def]
    obtain t where t: "dealloc_one kend d a s = (Ret (b - PGSIZE), t)" "vm_inv kend t (F \<union> ?G) d"
        "\<And>vb. lookup (mem t) d vb = (if same_page a vb \<and> mapped ?m d vb then 0 else lookup ?m d vb)"
        "footprint (mem t) d = footprint ?m d - ?G" "tables (mem t) d = tables ?m d" "\<And>vb. has_table (mem t) d vb = has_table ?m d vb"
        "same_outside (tables ?m d \<union> ?G) ?m (mem t)"
      using dealloc_one_spec [OF Suc.prems(1,2) au] by (auto simp: Let_def b_def)
    have ab: "unat a + 4096 \<le> unat b"
    proof -
      obtain i j where "unat a = 4096 * i" "unat b = 4096 * j" using Suc.prems(3) N(2) by (auto simp: mod_eq_0_iff_dvd elim!: dvdE)
      then show ?thesis using N(1) by simp
    qed
    have "num_pages b hi \<le> n" by (rule num_pages_step [OF ab Suc.prems(5)])
    then obtain u where u: "deallocuvm_loop n kend d b hi t = (Ret (), u)" "deallocated kend d (unat b) (unat hi) t (F \<union> ?G) u"
      using Suc.IH [OF t(2) Suc.prems(2) N(2) Suc.prems(4)] by blast
    have ex: "deallocuvm_loop (Suc n) kend d a hi s = (Ret (), u)" using True t(1) u(1) by (simp add: kbind_def)
    have mt: "mapped (mem t) d vb \<longleftrightarrow> mapped ?m d vb \<and> \<not> same_page a vb" for vb using t(3) [of vb] by (auto simp: mapped_def)
    have ft: "\<not> same_page a vb \<Longrightarrow> frame_of (mem t) d vb = frame_of ?m d vb" for vb using t(3) [of vb] by (simp add: frame_of_def)
    have rg: "in_range (unat a) (unat hi) vb \<longleftrightarrow> same_page a vb \<or> in_range (unat b) (unat hi) vb" if "mapped ?m d vb" for vb
    proof (cases "has_table ?m d a")
      case True
      then have "unat b = unat a + 4096" using N(4) by simp
      moreover obtain i where "unat a = 4096 * i" using Suc.prems(3) by (auto simp: mod_eq_0_iff_dvd elim!: dvdE)
      ultimately show ?thesis using ahi aligned_page [OF Suc.prems(3), of vb] by (auto simp: in_range_def)
    next
      case False
      have "PDX vb \<noteq> PDX a" using mapped_table [OF that] has_table_cong(1) [of vb a ?m d] False by metis
      then have "\<not> in_range (unat a) (unat b) vb" "\<not> same_page a vb" using N(5) [OF False] by (auto simp: same_page_indices)
      then show ?thesis using N(1) by (auto simp: in_range_def)
    qed
    have ns: "in_range (unat b) (unat hi) vb \<Longrightarrow> \<not> same_page a vb" for vb
      using aligned_page [OF Suc.prems(3), of vb] ab by (auto simp: in_range_def)
    have G: "freed ?m d (unat a) (unat hi) = ?G \<union> freed (mem t) d (unat b) (unat hi)" (is "?l = ?r")
    proof
      show "?l \<subseteq> ?r"
      proof
        fix v assume "v \<in> ?l"
        then obtain va where va: "in_range (unat a) (unat hi) va" "mapped ?m d va" "v = frame_of ?m d va" by (auto simp: freed_def)
        show "v \<in> ?r"
        proof (cases "same_page a va")
          case True
          then show ?thesis using va lookup_cong [OF True, of ?m d] by (simp add: mapped_def frame_of_def)
        next
          case False
          then have "mapped (mem t) d va" "frame_of (mem t) d va = v" "in_range (unat b) (unat hi) va"
            using va mt ft rg by auto
          then show ?thesis by (auto simp: freed_def)
        qed
      qed
      show "?r \<subseteq> ?l"
      proof
        fix v assume "v \<in> ?r"
        then consider "mapped ?m d a" "v = frame_of ?m d a" | va where "in_range (unat b) (unat hi) va" "mapped (mem t) d va" "v = frame_of (mem t) d va"
          by (auto simp: freed_def split: if_splits)
        then show "v \<in> ?l"
        proof cases
          case 1
          then show ?thesis using rg [OF 1(1)] by (auto simp: freed_def)
        next
          case 2
          then have "mapped ?m d va" "frame_of ?m d va = v" "in_range (unat a) (unat hi) va" using mt ft ns rg by auto
          then show ?thesis by (auto simp: freed_def)
        qed
      qed
    qed
    note D = u(2) [unfolded deallocated_def Let_def]
    have lk: "lookup (mem u) d vb = (if in_range (unat a) (unat hi) vb \<and> mapped ?m d vb then 0 else lookup ?m d vb)" for vb
      using D [THEN conjunct2, THEN conjunct1, rule_format, of vb] t(3) [of vb] mt [of vb] rg [of vb] by (auto split: if_splits)
    have so: "same_outside (tables ?m d \<union> freed ?m d (unat a) (unat hi)) ?m (mem u)"
      by (rule same_outside_trans [OF t(7)]) (use D t(5) G in auto)
    have "deallocated kend d (unat a) (unat hi) s F u"
      unfolding deallocated_def Let_def using D lk so t(4-6) G by (auto simp: Un_assoc)
    then show ?thesis using ex by blast
  qed
qed

text \<open>More rounds than there are pages change nothing.\<close>

lemma deallocuvm_loop_fuel:
  assumes "vm_inv kend s F d" and "KERNBASE < kend" and "unat a mod 4096 = 0" and "unat hi \<le> 0x80000000"
    and "num_pages a hi \<le> n" and "num_pages a hi \<le> k"
  shows "deallocuvm_loop n kend d a hi s = deallocuvm_loop k kend d a hi s"
  using assms
proof (induction n arbitrary: a s F k)
  case 0
  then have "\<not> a < hi" by (auto simp: num_pages_def word_less_nat_alt)
  then show ?case by (cases k) simp_all
next
  case (Suc n)
  show ?case
  proof (cases "a < hi")
    case False
    then show ?thesis by (cases k) simp_all
  next
    case True
    then have "num_pages a hi \<noteq> 0" by (simp add: num_pages_def word_less_nat_alt div_eq_0_iff)
    then obtain j where k: "k = Suc j" using Suc.prems(6) by (cases k) auto
    have "unat a < unat hi" using True by (simp add: word_less_nat_alt)
    then have au: "a < KERNBASE" using Suc.prems(4) by (simp add: user_nat)
    let ?r = "if has_table (mem s) d a then a else PGADDR (PDX a + 1) 0 0 - PGSIZE"
    note N = dealloc_next [OF au Suc.prems(3), of "has_table (mem s) d a"]
    obtain t G where t: "dealloc_one kend d a s = (Ret ?r, t)" "vm_inv kend t G d"
      using dealloc_one_spec [OF Suc.prems(1,2) au] by (auto simp: Let_def)
    have ab: "unat a + 4096 \<le> unat (?r + PGSIZE)"
    proof -
      obtain i j where "unat a = 4096 * i" "unat (?r + PGSIZE) = 4096 * j"
        using Suc.prems(3) N(2) unfolding mod_eq_0_iff_dvd by (metis dvdE)
      then show ?thesis using N(1) by simp
    qed
    have "deallocuvm_loop n kend d (?r + PGSIZE) hi t = deallocuvm_loop j kend d (?r + PGSIZE) hi t"
      by (rule Suc.IH [OF t(2) Suc.prems(2) N(2) Suc.prems(4)])
        (use num_pages_step [OF ab] Suc.prems(5,6) k in simp_all)
    then show ?thesis using True t(1) k by (simp add: kbind_def)
  qed
qed

lemma PGROUNDUP_user:
  assumes "unat x \<le> 0x80000000"
  shows "unat (PGROUNDUP x) mod 4096 = 0" "unat x \<le> unat (PGROUNDUP x)" "unat (PGROUNDUP x) \<le> 0x80000000"
    "unat (PGROUNDUP x) = (unat x + 4095) div 4096 * 4096"
proof -
  show u: "unat (PGROUNDUP x) = (unat x + 4095) div 4096 * 4096" using assms by (intro unat_PGROUNDUP) simp
  show "unat (PGROUNDUP x) mod 4096 = 0" "unat x \<le> unat (PGROUNDUP x)" unfolding u by simp_all
  have "(unat x + 4095) div 4096 \<le> (0x80000000 + 4095) div 4096" using assms by (intro div_le_mono) simp
  then show "unat (PGROUNDUP x) \<le> 0x80000000" unfolding u by simp
qed

lemma deallocuvm_exec:
  assumes "vm_inv kend s F d" and "KERNBASE < kend" and "unat oldsz \<le> 0x80000000"
  shows "\<exists>t. deallocuvm kend d oldsz newsz s = (Ret (if oldsz \<le> newsz then oldsz else newsz), t) \<and>
    deallocated kend d (unat (PGROUNDUP newsz)) (if oldsz \<le> newsz then 0 else unat oldsz) s F t"
proof (cases "oldsz \<le> newsz")
  case True
  then show ?thesis using deallocated_nothing [OF assms(1)] by (simp add: deallocuvm_def kret_def)
next
  case False
  then have "unat newsz \<le> 0x80000000" using assms(3) by (simp add: word_le_nat_alt)
  note P = PGROUNDUP_user [OF this]
  obtain t where "deallocuvm_loop (num_pages (PGROUNDUP newsz) oldsz) kend d (PGROUNDUP newsz) oldsz s = (Ret (), t)"
      "deallocated kend d (unat (PGROUNDUP newsz)) (unat oldsz) s F t"
    using deallocuvm_loop_spec [OF assms(1,2) P(1) assms(3) order_refl] by blast
  then show ?thesis using False by (simp add: deallocuvm_def kop_defs)
qed

section \<open>Growing user memory\<close>

text \<open>
  \<open>grown s F X D t F'\<close>: from \<open>s\<close> to \<open>t\<close> exactly the user pages \<open>D\<close> were added, writable, filled with
  zeros, on pages taken from the free pages \<open>F\<close>; \<open>F'\<close> are still free, and \<open>X\<close> are taken but not yet
  part of the address space.
\<close>

definition grown :: "u32 \<Rightarrow> u32 \<Rightarrow> kmem \<Rightarrow> u32 set \<Rightarrow> u32 set \<Rightarrow> (u32 \<Rightarrow> bool) \<Rightarrow> kmem \<Rightarrow> u32 set \<Rightarrow> bool" where
  "grown kend d s F X D t F' \<longleftrightarrow> vm_inv kend t F' d \<and> F' \<subseteq> F \<and> X \<subseteq> F - F' \<and>
     (\<forall>vb. \<not> D vb \<longrightarrow> lookup (mem t) d vb = lookup (mem s) d vb) \<and>
     (\<forall>vb. D vb \<longrightarrow> mapped (mem t) d vb \<and> PTE_FLAGS (lookup (mem t) d vb) = PTE_W OR PTE_U OR PTE_P \<and>
        frame_of (mem t) d vb \<in> F \<and> (\<forall>x. in_page (frame_of (mem t) d vb) x \<longrightarrow> mem t x = 0)) \<and>
     footprint (mem t) d = footprint (mem s) d \<union> (F - F' - X) \<and> tables (mem t) d \<subseteq> tables (mem s) d \<union> (F - F' - X) \<and>
     same_outside (insert d (tables (mem s) d \<union> (F - F'))) (mem s) (mem t)"

lemma grownD:
  assumes "grown kend d s F X D t F'"
  shows "vm_inv kend t F' d" "F' \<subseteq> F" "X \<subseteq> F - F'" "\<And>vb. \<not> D vb \<Longrightarrow> lookup (mem t) d vb = lookup (mem s) d vb"
    "\<And>vb. D vb \<Longrightarrow> mapped (mem t) d vb" "\<And>vb. D vb \<Longrightarrow> PTE_FLAGS (lookup (mem t) d vb) = PTE_W OR PTE_U OR PTE_P"
    "\<And>vb. D vb \<Longrightarrow> frame_of (mem t) d vb \<in> F"
    "\<And>vb x. D vb \<Longrightarrow> in_page (frame_of (mem t) d vb) x \<Longrightarrow> mem t x = 0"
    "footprint (mem t) d = footprint (mem s) d \<union> (F - F' - X)" "tables (mem t) d \<subseteq> tables (mem s) d \<union> (F - F' - X)"
    "same_outside (insert d (tables (mem s) d \<union> (F - F'))) (mem s) (mem t)"
  using assms unfolding grown_def by blast+

lemma grown_nothing: "vm_inv kend s F d \<Longrightarrow> grown kend d s F {} (\<lambda>_. False) s F"
  by (simp add: grown_def same_outside_def)

lemma user_frame_page:
  assumes "vm_wf kend m d" and "va < KERNBASE" "mapped m d va"
  shows "frame_of m d va \<in> user_pages m d" "page_ok kend (frame_of m d va)" "frame_of m d va \<notin> insert d (tables m d)"
    "frame_of m d va \<in> footprint m d"
proof -
  show f: "frame_of m d va \<in> user_pages m d" using assms(2,3) by (auto simp: user_pages_def)
  then show p: "frame_of m d va \<in> footprint m d" by (simp add: footprint_def)
  then show "page_ok kend (frame_of m d va)" using vm_wfD(1) [OF assms(1)] by simp
  show "frame_of m d va \<notin> insert d (tables m d)" using f vm_wfD(4,5) [OF assms(1)] by auto
qed

text \<open>A page taken from the free list and filled is not part of any address space yet.\<close>

lemma fresh_page:
  assumes inv: "vm_inv kend u G d" and pg: "pg \<in> G" and al: "kfree_pages kend v (G - {pg})" "mem v = mem u"
    and so: "same_outside {pg} (mem u) m'"
  defines "w \<equiv> v\<lparr>mem := m'\<rparr>"
  shows "vm_inv kend w (G - {pg}) d" "\<And>vb. lookup m' d vb = lookup (mem u) d vb" "footprint m' d = footprint (mem u) d"
    "tables m' d = tables (mem u) d" "\<And>vb. has_table m' d vb = has_table (mem u) d vb" "page_ok kend pg" "pg \<notin> footprint (mem u) d"
    "mem w = m'"
proof -
  note I = vm_invD [OF inv]
  show ok: "page_ok kend pg" by (rule kfree_pages_ok [OF I(1) pg])
  show nf: "pg \<notin> footprint (mem u) d" using I(3) pg by blast
  have okf: "\<forall>v\<in>footprint (mem u) d. page_ok kend v" "\<forall>v\<in>{pg}. page_ok kend v" using vm_wfD(1) [OF I(2)] ok by auto
  have dj: "insert d (tables (mem u) d) \<inter> {pg} = {}" using nf by (auto simp: footprint_def)
  note f = footprint_frame [OF so okf dj]
  show "\<And>vb. lookup m' d vb = lookup (mem u) d vb" "footprint m' d = footprint (mem u) d" "tables m' d = tables (mem u) d"
    "\<And>vb. has_table m' d vb = has_table (mem u) d vb"
    by (simp_all add: f)
  have "kfree_pages kend w (G - {pg})"
    unfolding w_def by (rule kfree_pages_mem [OF al(1), of "{pg}"]) (use so al(2) ok in auto)
  moreover have "vm_wf kend m' d" by (rule vm_wf_frame [OF so I(2) okf(2) dj])
  ultimately show "vm_inv kend w (G - {pg}) d" using f(10) I(3) by (auto simp: vm_inv_def w_def)
  show "mem w = m'" by (simp add: w_def)
qed

lemma grown_take:
  assumes g: "grown kend d s F {} D u G" and pg: "pg \<in> G" and al: "kfree_pages kend v (G - {pg})" "mem v = mem u"
    and Du: "\<And>vb. D vb \<Longrightarrow> vb < KERNBASE"
  shows "grown kend d s F {pg} D (v\<lparr>mem := fill_page pg 0 (mem u)\<rparr>) (G - {pg})"
proof -
  note g' = grownD [OF g]
  have so: "same_outside {pg} (mem u) (fill_page pg 0 (mem u))" by (rule fill_page_outside)
  note P = fresh_page [OF g'(1) pg al so]
  note wf = vm_invD(2) [OF g'(1)]
  let ?w = "v\<lparr>mem := fill_page pg 0 (mem u)\<rparr>"
  have l: "lookup (mem ?w) d vb = lookup (mem u) d vb" for vb using P(2) by simp
  have m: "mapped (mem ?w) d vb = mapped (mem u) d vb" "frame_of (mem ?w) d vb = frame_of (mem u) d vb" for vb
    by (simp_all only: mapped_def frame_of_def l)
  have z: "mem ?w x = 0" if "D vb" "in_page (frame_of (mem u) d vb) x" for vb x
  proof -
    note uf = user_frame_page [OF wf Du [OF that(1)] g'(5) [OF that(1)]]
    have "fill_page pg 0 (mem u) x = mem u x"
      by (rule page_out [OF so _ uf(2) _ that(2)]) (use P(6,7) uf(4) in auto)
    then show ?thesis using g'(8) [OF that] by simp
  qed
  have "F - (G - {pg}) = insert pg (F - G)" using pg g'(2) by blast
  moreover have "same_outside (insert d (tables (mem s) d \<union> insert pg (F - G))) (mem s) (fill_page pg 0 (mem u))"
    by (rule same_outside_trans [OF g'(11) so]) auto
  moreover have "insert pg (F - G) - {pg} = F - G" using pg by blast
  ultimately show ?thesis
    unfolding grown_def using P(1,3,4) g' l m z pg by (auto simp del: kmem.select_convs)
qed

lemma grown_map:
  assumes g: "grown kend d s F {pg} D w G" and pg: "page_ok kend pg" "pg \<notin> footprint (mem w) d"
    and z: "\<And>x. in_page pg x \<Longrightarrow> mem w x = 0"
    and Du: "\<And>vb. D vb \<Longrightarrow> vb < KERNBASE" and a: "a < KERNBASE" "\<not> mapped (mem w) d a"
  shows "map_one d a (V2P pg) (PTE_W OR PTE_U) w = (Ret (- 1), w) \<or>
    (\<exists>t G'. map_one d a (V2P pg) (PTE_W OR PTE_U) w = (Ret 0, t) \<and> grown kend d s F {} (\<lambda>vb. D vb \<or> same_page a vb) t G')"
proof -
  note g' = grownD [OF g]
  have pgn: "pg \<notin> G" "pg \<in> F" using g'(3) by auto
  have perm: "unat (PTE_W OR PTE_U) < 4096" by (simp add: const_defs)
  note M = map_one_user [OF g'(1) a pg(1) pgn(1) pg(2) perm]
  show ?thesis
  proof (cases "has_table (mem w) d a \<or> G \<noteq> {}")
    case False
    then show ?thesis using M by simp
  next
    case True
    then obtain t G' where t: "map_one d a (V2P pg) (PTE_W OR PTE_U) w = (Ret 0, t)" "G' \<subseteq> G" "vm_inv kend t G' d"
        "\<And>vb. lookup (mem t) d vb = (if same_page a vb then V2P pg OR (PTE_W OR PTE_U) OR PTE_P else lookup (mem w) d vb)"
        "footprint (mem t) d = insert pg (footprint (mem w) d \<union> (G - G'))" "tables (mem t) d = tables (mem w) d \<union> (G - G')"
        "same_outside (insert d (tables (mem w) d \<union> (G - G'))) (mem w) (mem t)"
      using M by auto
    note fl = pte_flags [OF pg(1) perm]
    note wf = vm_invD(2) [OF g'(1)]
    have okP: "\<forall>v\<in>insert d (tables (mem w) d \<union> (G - G')). page_ok kend v"
      using vm_wfD(1) [OF wf] kfree_pages_ok [OF vm_invD(1) [OF g'(1)]] by (auto simp: footprint_def)
    have keep: "mem t x = mem w x" if "page_ok kend v" "v \<notin> insert d (tables (mem w) d)" "v \<notin> G" "in_page v x" for v x
      by (rule page_out [OF t(7) okP that(1) _ that(4)]) (use that in auto)
    have new: "mapped (mem t) d vb" "PTE_FLAGS (lookup (mem t) d vb) = PTE_W OR PTE_U OR PTE_P" "frame_of (mem t) d vb = pg"
      if "same_page a vb" for vb
      using that fl t(4) [of vb] by (simp_all add: mapped_def frame_of_def or.assoc)
    have old: "mapped (mem t) d vb" "PTE_FLAGS (lookup (mem t) d vb) = PTE_W OR PTE_U OR PTE_P" "frame_of (mem t) d vb \<in> F"
        "\<And>x. in_page (frame_of (mem t) d vb) x \<Longrightarrow> mem t x = 0" if "D vb" "\<not> same_page a vb" for vb
    proof -
      have l: "lookup (mem t) d vb = lookup (mem w) d vb" using t(4) [of vb] that(2) by simp
      then have fr: "frame_of (mem t) d vb = frame_of (mem w) d vb" by (simp add: frame_of_def)
      show "mapped (mem t) d vb" "PTE_FLAGS (lookup (mem t) d vb) = PTE_W OR PTE_U OR PTE_P" "frame_of (mem t) d vb \<in> F"
        using l fr g'(5-7) [OF that(1)] by (simp_all add: mapped_def)
      note uf = user_frame_page [OF wf Du [OF that(1)] g'(5) [OF that(1)]]
      have "frame_of (mem w) d vb \<notin> G" using uf(4) vm_invD(3) [OF g'(1)] by blast
      then show "mem t x = 0" if "in_page (frame_of (mem t) d vb) x" for x
        using keep [OF uf(2,3)] g'(8) [OF \<open>D vb\<close>] that fr by simp
    qed
    have zp: "mem t x = 0" if "in_page pg x" for x
      using keep [OF pg(1) _ pgn(1) that] pg(2) z [OF that] by (simp add: footprint_def)
    have FG: "F - G' = (F - G - {pg}) \<union> insert pg (G - G')" using t(2) g'(2) pgn by blast
    have fp: "footprint (mem t) d = footprint (mem s) d \<union> (F - G' - {})" using t(5) g'(9) FG by auto
    have tb: "tables (mem t) d \<subseteq> tables (mem s) d \<union> (F - G' - {})" using t(6) g'(10) FG by auto
    have so: "same_outside (insert d (tables (mem s) d \<union> (F - G'))) (mem s) (mem t)"
      by (rule same_outside_trans [OF g'(11) t(7)]) (use g'(10) FG t(2) pgn in auto)
    have lk: "lookup (mem t) d vb = lookup (mem s) d vb" if "\<not> (D vb \<or> same_page a vb)" for vb
      using t(4) [of vb] g'(4) [of vb] that by simp
    have nw: "mapped (mem t) d vb \<and> PTE_FLAGS (lookup (mem t) d vb) = PTE_W OR PTE_U OR PTE_P \<and>
        frame_of (mem t) d vb \<in> F \<and> (\<forall>x. in_page (frame_of (mem t) d vb) x \<longrightarrow> mem t x = 0)" if "D vb \<or> same_page a vb" for vb
      using that old [of vb] new [of vb] zp pgn(2) by (cases "same_page a vb") auto
    have "grown kend d s F {} (\<lambda>vb. D vb \<or> same_page a vb) t G'"
      unfolding grown_def using t(2,3) g'(2) lk nw fp tb so by blast
    then show ?thesis using t(1) by blast
  qed
qed

text \<open>After a failure the user pages are as before; only page tables may have been added.\<close>

definition restored :: "u32 \<Rightarrow> u32 \<Rightarrow> kmem \<Rightarrow> u32 set \<Rightarrow> kmem \<Rightarrow> u32 set \<Rightarrow> bool" where
  "restored kend d s F t F' \<longleftrightarrow> vm_inv kend t F' d \<and> F' \<subseteq> F \<and> user_pages (mem t) d = user_pages (mem s) d \<and>
     (\<forall>vb. mapped (mem t) d vb = mapped (mem s) d vb) \<and>
     (\<forall>vb. mapped (mem s) d vb \<longrightarrow> lookup (mem t) d vb = lookup (mem s) d vb) \<and>
     footprint (mem t) d = footprint (mem s) d \<union> (F - F') \<and>
     same_outside (insert d (tables (mem s) d \<union> F)) (mem s) (mem t)"

lemma grown_undo:
  assumes g: "grown kend d s F X D u G" and s: "vm_inv kend s F d"
    and D: "\<And>vb. D vb \<Longrightarrow> in_range lo hi vb" and un: "\<And>vb. in_range lo hi vb \<Longrightarrow> \<not> mapped (mem s) d vb"
    and de: "deallocated kend d lo hi u G t" and X: "\<And>v. v \<in> X \<Longrightarrow> page_ok kend v"
    and hi: "hi \<le> 0x80000000"
  shows "(X = {} \<longrightarrow> restored kend d s F t (G \<union> freed (mem u) d lo hi)) \<and>
    (\<forall>pg. X = {pg} \<longrightarrow> (\<exists>t'. kfree kend pg t = (Ret (), t') \<and> restored kend d s F t' (insert pg (G \<union> freed (mem u) d lo hi))))"
proof -
  note g' = grownD [OF g]
  let ?R = "freed (mem u) d lo hi"
  have dd: "vm_inv kend t (G \<union> ?R) d" "footprint (mem t) d = footprint (mem u) d - ?R" "tables (mem t) d = tables (mem u) d"
      "same_outside (tables (mem u) d \<union> ?R) (mem u) (mem t)"
    and dl: "\<And>vb. lookup (mem t) d vb = (if in_range lo hi vb \<and> mapped (mem u) d vb then 0 else lookup (mem u) d vb)"
    using de unfolding deallocated_def Let_def by blast+
  have out: "lookup (mem u) d vb = lookup (mem s) d vb" if "\<not> in_range lo hi vb" for vb using g'(4) D that by blast
  have mt: "mapped (mem t) d vb = mapped (mem s) d vb" for vb
    using dl [of vb] out [of vb] un [of vb] by (cases "in_range lo hi vb") (auto simp: mapped_def)
  have lt: "lookup (mem t) d vb = lookup (mem s) d vb" if "mapped (mem s) d vb" for vb
    using dl [of vb] out [of vb] un [of vb] that by (cases "in_range lo hi vb") auto
  have RF: "?R \<subseteq> F"
  proof
    fix v assume "v \<in> ?R"
    then obtain va where va: "in_range lo hi va" "mapped (mem u) d va" "v = frame_of (mem u) d va" by (auto simp: freed_def)
    have "D va" using g'(4) [of va] un [OF va(1)] va(2) by (cases "D va") (auto simp: mapped_def)
    then show "v \<in> F" using g'(7) va(3) by simp
  qed
  have up: "user_pages (mem t) d = user_pages (mem s) d"
    unfolding user_pages_def using mt lt by (auto simp: frame_of_def) (metis lt)+
  have disj: "footprint (mem s) d \<inter> F = {}" by (rule vm_invD(3) [OF s])
  have fp: "footprint (mem t) d = footprint (mem s) d \<union> (F - (G \<union> ?R) - X)"
    using dd(2) g'(9) RF disj by blast
  have so: "same_outside (insert d (tables (mem s) d \<union> F)) (mem s) (mem t)"
    by (rule same_outside_trans [OF g'(11) dd(4)]) (use g'(10) RF in auto)
  have 1: "restored kend d s F t (G \<union> ?R)" if "X = {}"
    unfolding restored_def using dd(1) g'(2) RF up mt lt fp so that by auto
  have 2: "\<exists>t'. kfree kend pg t = (Ret (), t') \<and> restored kend d s F t' (insert pg (G \<union> ?R))" if Xp: "X = {pg}" for pg
  proof -
    have pf: "pg \<in> F" "pg \<notin> G" "page_ok kend pg" using g'(3) X Xp by auto
    have npu: "pg \<notin> footprint (mem u) d" using g'(9) pf Xp disj by auto
    have pR: "pg \<notin> ?R"
    proof
      assume "pg \<in> ?R"
      then obtain va where va: "in_range lo hi va" "mapped (mem u) d va" "pg = frame_of (mem u) d va" by (auto simp: freed_def)
      have "pg \<in> footprint (mem u) d"
        using user_frame_page(4) [OF vm_invD(2) [OF g'(1)] in_range_user [OF va(1) hi] va(2)] va(3) by simp
      then show False using npu by simp
    qed
    have nf: "pg \<notin> footprint (mem t) d" using npu dd(2) by simp
    obtain t' where t': "kfree kend pg t = (Ret (), t')" "kfree_pages kend t' (insert pg (G \<union> ?R))" "same_outside {pg} (mem t) (mem t')"
      using kfree_exec [OF vm_invD(1) [OF dd(1)] pf(3)] pf(2) pR by blast
    have okf: "\<forall>v\<in>footprint (mem t) d. page_ok kend v" "\<forall>v\<in>{pg}. page_ok kend v"
      using vm_wfD(1) [OF vm_invD(2) [OF dd(1)]] pf(3) by auto
    have dj: "insert d (tables (mem t) d) \<inter> {pg} = {}" using nf by (auto simp: footprint_def)
    note f = footprint_frame [OF t'(3) okf dj]
    have wf: "vm_wf kend (mem t') d" by (rule vm_wf_frame [OF t'(3) vm_invD(2) [OF dd(1)] okf(2) dj])
    have "vm_inv kend t' (insert pg (G \<union> ?R)) d" using wf t'(2) f(10) vm_invD(3) [OF dd(1)] nf by (simp add: vm_inv_def)
    moreover have "footprint (mem t') d = footprint (mem s) d \<union> (F - insert pg (G \<union> ?R))" using f(10) fp Xp by auto
    moreover have "same_outside (insert d (tables (mem s) d \<union> F)) (mem s) (mem t')"
      by (rule same_outside_trans [OF so t'(3)]) (use pf in auto)
    ultimately have "restored kend d s F t' (insert pg (G \<union> ?R))"
      unfolding restored_def using g'(2) RF pf(1) up mt lt f by auto
    then show ?thesis using t'(1) by blast
  qed
  show ?thesis using 1 2 by blast
qed

lemma page_range_unat:
  assumes "unat lim \<le> 0x80000000" and "k < num_pages a lim"
  shows "unat (a + of_nat k * PGSIZE) = unat a + 4096 * k"
proof -
  have b: "4096 * k < unat lim - unat a + 4096"
  proof -
    have "Suc k \<le> (unat lim - unat a + 4095) div 4096" using assms(2) by (simp add: num_pages_def)
    then have "Suc k * 4096 \<le> unat lim - unat a + 4095" by (simp add: less_eq_div_iff_mult_less_eq)
    then show ?thesis by simp
  qed
  have "unat a + 4096 * k < 2 ^ 32"
  proof (cases "unat a \<le> unat lim")
    case True
    then show ?thesis using b assms(1) by simp
  next
    case False
    then have "num_pages a lim = 0" by (simp add: num_pages_def)
    then show ?thesis using assms(2) by simp
  qed
  then have "unat (of_nat (unat a + 4096 * k) :: u32) = unat a + 4096 * k" by (simp only: unat_of_nat take_bit_eq_mod) simp
  moreover have "a + of_nat k * PGSIZE = of_nat (unat a + 4096 * k)" by (simp add: PGSIZE_def mult.commute)
  ultimately show ?thesis by (simp only:)
qed

lemma page_range_props:
  assumes lim: "unat lim \<le> 0x80000000" and al: "unat a mod 4096 = 0"
  shows "distinct (page_range a lim)"
    "b \<in> set (page_range a lim) \<longleftrightarrow> unat b mod 4096 = 0 \<and> unat a \<le> unat b \<and> unat b < unat lim"
    "in_range (unat a) (unat lim) vb \<longleftrightarrow> (\<exists>b\<in>set (page_range a lim). same_page b vb)"
proof -
  let ?n = "num_pages a lim"
  note u = page_range_unat [OF lim]
  have "inj_on (\<lambda>k. a + of_nat k * PGSIZE) {0..<?n}"
  proof (rule inj_onI)
    fix j k assume jk: "j \<in> {0..<?n}" "k \<in> {0..<?n}" "a + of_nat j * PGSIZE = a + of_nat k * PGSIZE"
    have "j < ?n" "k < ?n" using jk by simp_all
    then have "unat a + 4096 * j = unat a + 4096 * k" using u [of j a] u [of k a] jk(3) by (simp only:)
    then show "j = k" by simp
  qed
  then show "distinct (page_range a lim)" by (simp add: page_range_def distinct_map)
  obtain i where i: "unat a = 4096 * i" using al by (auto simp: mod_eq_0_iff_dvd elim!: dvdE)
  have mem: "b \<in> set (page_range a lim) \<longleftrightarrow> unat b mod 4096 = 0 \<and> unat a \<le> unat b \<and> unat b < unat lim" for b
  proof
    assume "b \<in> set (page_range a lim)"
    then obtain k where k: "k < ?n" "b = a + of_nat k * PGSIZE" by (auto simp: page_range_def)
    then have ub: "unat b = unat a + 4096 * k" using u [of k a] by simp
    have "Suc k \<le> (unat lim - unat a + 4095) div 4096" using k(1) by (simp add: num_pages_def)
    then have "Suc k * 4096 \<le> unat lim - unat a + 4095" by (simp add: less_eq_div_iff_mult_less_eq)
    then show "unat b mod 4096 = 0 \<and> unat a \<le> unat b \<and> unat b < unat lim" using ub i by simp
  next
    assume h: "unat b mod 4096 = 0 \<and> unat a \<le> unat b \<and> unat b < unat lim"
    then obtain j where j: "unat b = 4096 * j" by (auto simp: mod_eq_0_iff_dvd elim!: dvdE)
    define k where "k = j - i"
    have k: "unat b = unat a + 4096 * k" using h i j by (simp add: k_def diff_mult_distrib2)
    have "unat a + 4096 * k < unat lim" using h k by simp
    then have "Suc k * 4096 \<le> unat lim - unat a + 4095" unfolding mult_Suc by arith
    then have kn: "k < ?n" by (simp add: num_pages_def less_eq_div_iff_mult_less_eq flip: Suc_le_eq)
    then have "b = a + of_nat k * PGSIZE" using u [OF kn] k by (simp add: word_unat_eq_iff)
    then show "b \<in> set (page_range a lim)" using kn by (auto simp: page_range_def)
  qed
  then show "b \<in> set (page_range a lim) \<longleftrightarrow> unat b mod 4096 = 0 \<and> unat a \<le> unat b \<and> unat b < unat lim" .
  show "in_range (unat a) (unat lim) vb \<longleftrightarrow> (\<exists>b\<in>set (page_range a lim). same_page b vb)"
  proof
    assume r: "in_range (unat a) (unat lim) vb"
    have "unat (PGROUNDDOWN vb) mod 4096 = 0" "same_page (PGROUNDDOWN vb) vb" by (simp_all add: unat_PGROUNDDOWN same_page_def)
    moreover have "unat a \<le> unat (PGROUNDDOWN vb) \<and> unat (PGROUNDDOWN vb) < unat lim" using r by (simp add: in_range_def unat_PGROUNDDOWN)
    ultimately show "\<exists>b\<in>set (page_range a lim). same_page b vb" using mem [of "PGROUNDDOWN vb"] by (intro bexI [of _ "PGROUNDDOWN vb"]) simp_all
  next
    assume "\<exists>b\<in>set (page_range a lim). same_page b vb"
    then obtain b where b: "b \<in> set (page_range a lim)" "same_page b vb" by blast
    then have "unat b mod 4096 = 0" "unat a \<le> unat b" "unat b < unat lim" using mem [of b] by simp_all
    then show "in_range (unat a) (unat lim) vb" using b(2) aligned_page [of b vb] by (simp add: in_range_def)
  qed
qed

lemma allocuvm_loop_spec:
  assumes s: "vm_inv kend s F d" and kend: "KERNBASE < kend" and new: "newsz < KERNBASE"
    and un: "\<And>vb. in_range (unat (PGROUNDUP oldsz)) (unat newsz) vb \<Longrightarrow> \<not> mapped (mem s) d vb"
    and g: "grown kend d s F {} D u G" and D: "\<And>vb. D vb \<Longrightarrow> in_range (unat (PGROUNDUP oldsz)) (unat newsz) vb"
    and as: "\<And>a. a \<in> set as \<Longrightarrow> unat a mod 4096 = 0 \<and> in_range (unat (PGROUNDUP oldsz)) (unat newsz) a \<and> \<not> D a" "distinct as"
    and lt: "oldsz \<le> newsz"
  shows "\<exists>r t G'. allocuvm_loop kend d oldsz newsz as u = (Ret r, t) \<and>
    (r = newsz \<and> grown kend d s F {} (\<lambda>vb. D vb \<or> (\<exists>a\<in>set as. same_page a vb)) t G' \<or> r = 0 \<and> restored kend d s F t G')"
  using g D as
proof (induction as arbitrary: D u G)
  case Nil
  then show ?case by (auto simp: kret_def)
next
  case (Cons a as)
  let ?lo = "unat (PGROUNDUP oldsz)" and ?hi = "unat newsz"
  have hi: "?hi \<le> 0x80000000" using new by (simp add: user_nat)
  note g' = grownD [OF Cons.prems(1)]
  have Du: "vb < KERNBASE" if "D vb" for vb using in_range_user [OF Cons.prems(2) [OF that] hi] .
  have a: "unat a mod 4096 = 0" "in_range ?lo ?hi a" "\<not> D a" "a < KERNBASE"
    using Cons.prems(3) [of a] in_range_user [OF _ hi, of ?lo a] by simp_all
  have nle: "\<not> newsz \<le> oldsz"
  proof
    assume "newsz \<le> oldsz"
    then have "newsz = oldsz" using lt by simp
    then have "?hi \<le> ?lo" using PGROUNDUP_user(2) [of oldsz] hi by simp
    then show False using a(2) by (simp add: in_range_def)
  qed
  have undo: "\<exists>t. deallocuvm kend d newsz oldsz v = (Ret oldsz, t) \<and> deallocated kend d ?lo ?hi v H t" if "vm_inv kend v H d" for v H
    using deallocuvm_exec [OF that kend hi, of oldsz] nle by simp
  consider (none) "G = {}" "kalloc u = (Ret 0, u)"
    | (some) pg v where "kalloc u = (Ret pg, v)" "pg \<in> G" "pg \<noteq> 0" "page_ok kend pg" "mem v = mem u" "kfree_pages kend v (G - {pg})"
    using kalloc_pages [OF vm_invD(1) [OF g'(1)]] by blast
  then show ?case
  proof cases
    case none
    obtain t where t: "deallocuvm kend d newsz oldsz u = (Ret oldsz, t)" "deallocated kend d ?lo ?hi u G t"
      using undo [OF g'(1)] by blast
    have "restored kend d s F t (G \<union> freed (mem u) d ?lo ?hi)"
      using grown_undo [OF Cons.prems(1) s Cons.prems(2) un t(2) _ hi] by simp
    moreover have "allocuvm_loop kend d oldsz newsz (a # as) u = (Ret 0, t)" using none(2) t(1) by (simp add: kop_defs)
    ultimately show ?thesis by blast
  next
    case some
    let ?w = "v\<lparr>mem := fill_page pg 0 (mem u)\<rparr>"
    have gw: "grown kend d s F {pg} D ?w (G - {pg})" by (rule grown_take [OF Cons.prems(1) some(2,6,5) Du])
    note P = fresh_page [OF g'(1) some(2,6,5) fill_page_outside [where c = 0]]
    have um: "\<not> mapped (mem ?w) d a"
      using g'(4) [OF a(3)] un [OF a(2)] P(2) [of a] by (simp add: mapped_def)
    have z: "mem ?w x = 0" if "in_page pg x" for x using fill_page_zero [OF that] by simp
    have pf: "pg \<notin> footprint (mem ?w) d" using P(3,7) by simp
    have mp: "mappages d a PGSIZE (V2P pg) (PTE_W OR PTE_U) = map_one d a (V2P pg) (PTE_W OR PTE_U)" by (rule mappages_page [OF a(1)])
    have step: "allocuvm_loop kend d oldsz newsz (a # as) u =
        kbind (map_one d a (V2P pg) (PTE_W OR PTE_U)) (\<lambda>r. if r < 0 then kbind (deallocuvm kend d newsz oldsz) (\<lambda>_. kseq (kfree kend pg) (kret 0))
          else allocuvm_loop kend d oldsz newsz as) ?w"
      using some(1,3,5) mp by (simp add: kop_defs upd_mem_def)
    consider (fail) "map_one d a (V2P pg) (PTE_W OR PTE_U) ?w = (Ret (- 1), ?w)"
      | (ok) t G' where "map_one d a (V2P pg) (PTE_W OR PTE_U) ?w = (Ret 0, t)" "grown kend d s F {} (\<lambda>vb. D vb \<or> same_page a vb) t G'"
      using grown_map [OF gw some(4) pf z Du a(4) um] by blast
    then show ?thesis
    proof cases
      case fail
      obtain t where t: "deallocuvm kend d newsz oldsz ?w = (Ret oldsz, t)" "deallocated kend d ?lo ?hi ?w (G - {pg}) t"
        using undo [OF grownD(1) [OF gw]] by blast
      obtain t' H where t': "kfree kend pg t = (Ret (), t')" "restored kend d s F t' H"
        using grown_undo [OF gw s Cons.prems(2) un t(2) _ hi] some(4) by blast
      have "allocuvm_loop kend d oldsz newsz (a # as) u = (Ret 0, t')"
        unfolding step using fail t(1) t'(1) by (simp add: kop_defs)
      then show ?thesis using t'(2) by blast
    next
      case ok
      have "\<exists>r t' G''. allocuvm_loop kend d oldsz newsz as t = (Ret r, t') \<and>
        (r = newsz \<and> grown kend d s F {} (\<lambda>vb. (D vb \<or> same_page a vb) \<or> (\<exists>a\<in>set as. same_page a vb)) t' G'' \<or> r = 0 \<and> restored kend d s F t' G'')"
      proof (rule Cons.IH [OF ok(2)])
        show "in_range ?lo ?hi vb" if "D vb \<or> same_page a vb" for vb
          using that Cons.prems(2) a(2) by (auto simp: in_range_def same_page_def)
        show "unat b mod 4096 = 0 \<and> in_range ?lo ?hi b \<and> \<not> (D b \<or> same_page a b)" if "b \<in> set as" for b
        proof -
          have "b \<noteq> a" using that Cons.prems(4) by auto
          then have "\<not> same_page a b" using same_page_aligned [of a b] a(1) Cons.prems(3) [of b] that by auto
          then show ?thesis using Cons.prems(3) [of b] that by simp
        qed
        show "distinct as" using Cons.prems(4) by simp
      qed
      moreover have "allocuvm_loop kend d oldsz newsz (a # as) u = allocuvm_loop kend d oldsz newsz as t"
        unfolding step using ok(1) by (simp add: kop_defs)
      moreover have "(\<lambda>vb. (D vb \<or> same_page a vb) \<or> (\<exists>a\<in>set as. same_page a vb)) = (\<lambda>vb. D vb \<or> (\<exists>b\<in>set (a # as). same_page b vb))"
        by auto
      ultimately show ?thesis by (simp only:)
    qed
  qed
qed

lemma allocuvm_exec:
  assumes "vm_inv kend s F d" and "KERNBASE < kend" and "newsz < KERNBASE" and "oldsz \<le> newsz"
    and un: "\<And>vb. in_range (unat (PGROUNDUP oldsz)) (unat newsz) vb \<Longrightarrow> \<not> mapped (mem s) d vb"
  shows "\<exists>r t G'. allocuvm kend d oldsz newsz s = (Ret r, t) \<and>
    (r = newsz \<and> grown kend d s F {} (in_range (unat (PGROUNDUP oldsz)) (unat newsz)) t G' \<or> r = 0 \<and> restored kend d s F t G')"
proof -
  have hi: "unat newsz \<le> 0x80000000" "unat oldsz \<le> 0x80000000" using assms(3,4) by (simp_all add: user_nat word_le_nat_alt)
  have al: "unat (PGROUNDUP oldsz) mod 4096 = 0" by (rule PGROUNDUP_user(1) [OF hi(2)])
  note P = page_range_props [OF hi(1) al]
  have a: "unat a mod 4096 = 0 \<and> in_range (unat (PGROUNDUP oldsz)) (unat newsz) a \<and> \<not> False" if "a \<in> set (page_range (PGROUNDUP oldsz) newsz)" for a
    using that P(2) [of a] P(3) [of a] same_page_refl [of a] by blast
  have "\<exists>r t G'. allocuvm_loop kend d oldsz newsz (page_range (PGROUNDUP oldsz) newsz) s = (Ret r, t) \<and>
    (r = newsz \<and> grown kend d s F {} (\<lambda>vb. False \<or> (\<exists>a\<in>set (page_range (PGROUNDUP oldsz) newsz). same_page a vb)) t G' \<or> r = 0 \<and> restored kend d s F t G')"
    by (rule allocuvm_loop_spec [OF assms(1-3) un grown_nothing [OF assms(1)] _ a P(1) assms(4)]) simp_all
  moreover have "(\<lambda>vb. False \<or> (\<exists>a\<in>set (page_range (PGROUNDUP oldsz) newsz). same_page a vb)) = in_range (unat (PGROUNDUP oldsz)) (unat newsz)"
    by (rule ext) (simp add: P(3))
  moreover have "allocuvm kend d oldsz newsz s = allocuvm_loop kend d oldsz newsz (page_range (PGROUNDUP oldsz) newsz) s"
    using assms(3,4) by (auto simp: allocuvm_def dest: leD)
  ultimately show ?thesis by (simp only:)
qed

section \<open>Freeing an address space\<close>

lemma PDX_index: "i < 1024 \<Longrightarrow> PDX (of_nat i * 4194304) = of_nat i"
proof -
  assume i: "i < 1024"
  then have "unat (of_nat i * 4194304 :: u32) = i * 4194304" by (simp add: unat_word_ariths unat_of_nat take_bit_eq_mod)
  then show ?thesis using i by (simp add: word_unat_eq_iff unat_PDX unat_of_nat take_bit_eq_mod)
qed

lemma PDX_of_nat: "PDX va = of_nat (unat (PDX va))"
  by simp

definition dir_entry :: "(u32 \<Rightarrow> u32) \<Rightarrow> u32 \<Rightarrow> nat \<Rightarrow> u32" where
  "dir_entry m d i = m (d + 4 * of_nat i)"

definition entry_tables :: "(u32 \<Rightarrow> u32) \<Rightarrow> u32 \<Rightarrow> nat list \<Rightarrow> u32 set" where
  "entry_tables m d is = {P2V (PTE_ADDR (dir_entry m d i)) |i. i \<in> set is \<and> dir_entry m d i AND PTE_P \<noteq> 0}"

lemma dir_entry_pde: "i < 1024 \<Longrightarrow> dir_entry m d i = pde_of m d (of_nat i * 4194304)"
  by (simp add: dir_entry_def pde_of_def PDX_index)

lemma tables_entries: "tables m d = entry_tables m d [0..<1024]"
proof (rule set_eqI, rule iffI)
  fix v assume "v \<in> tables m d"
  then obtain va where va: "has_table m d va" "v = table_of m d va" by (auto simp: tables_def)
  let ?i = "unat (PDX va)"
  have "dir_entry m d ?i = pde_of m d va" by (simp add: dir_entry_def pde_of_def)
  then show "v \<in> entry_tables m d [0..<1024]"
    using va index_less(1) [of va] by (auto simp: entry_tables_def has_table_def table_of_def intro!: exI [of _ ?i])
next
  fix v assume "v \<in> entry_tables m d [0..<1024]"
  then obtain i where i: "i < 1024" "dir_entry m d i AND PTE_P \<noteq> 0" "v = P2V (PTE_ADDR (dir_entry m d i))"
    by (auto simp: entry_tables_def)
  then show "v \<in> tables m d"
    by (auto simp: tables_def has_table_def table_of_def dir_entry_pde intro!: exI [of _ "of_nat i * 4194304"])
qed

lemma freevm_loop_spec:
  assumes wf: "vm_wf kend m d" and k: "kfree_pages kend s H"
    and eq: "\<And>i. i < 1024 \<Longrightarrow> dir_entry (mem s) d i = dir_entry m d i"
    and idx: "\<And>i. i \<in> set is \<Longrightarrow> i < 1024" "distinct is" and dj: "entry_tables m d is \<inter> H = {}"
  shows "\<exists>t. freevm_loop kend d is s = (Ret (), t) \<and> kfree_pages kend t (H \<union> entry_tables m d is) \<and>
    same_outside (entry_tables m d is) (mem s) (mem t)"
  using k eq idx dj
proof (induction "is" arbitrary: s H)
  case Nil
  then show ?case by (simp add: kret_def entry_tables_def same_outside_def)
next
  case (Cons i "is")
  note W = vm_wfD [OF wf]
  let ?e = "dir_entry m d i"
  have i: "i < 1024" "dir_entry (mem s) d i = ?e" using Cons.prems(2,3) by simp_all
  have sp: "entry_tables m d (i # is) = (if ?e AND PTE_P \<noteq> 0 then {P2V (PTE_ADDR ?e)} else {}) \<union> entry_tables m d is"
    by (auto simp: entry_tables_def)
  show ?case
  proof (cases "?e AND PTE_P \<noteq> 0")
    case False
    obtain t where "freevm_loop kend d is s = (Ret (), t)" "kfree_pages kend t (H \<union> entry_tables m d is)"
        "same_outside (entry_tables m d is) (mem s) (mem t)"
      using Cons.IH [OF Cons.prems(1,2)] Cons.prems(3-5) sp by auto
    then show ?thesis using False i sp by (simp add: kop_defs dir_entry_def)
  next
    case True
    let ?v = "P2V (PTE_ADDR ?e)" and ?va = "of_nat i * 4194304 :: u32"
    have ht: "has_table m d ?va" "table_of m d ?va = ?v" using True i(1) by (simp_all add: has_table_def table_of_def dir_entry_pde)
    have v: "page_ok kend ?v" "?v \<noteq> d" "?v \<notin> H" using W(8,9) [OF ht(1)] ht(2) Cons.prems(5) sp True by auto
    obtain u where u: "kfree kend ?v s = (Ret (), u)" "kfree_pages kend u (insert ?v H)" "same_outside {?v} (mem s) (mem u)"
      using kfree_exec [OF Cons.prems(1) v(1,3)] by blast
    have eu: "dir_entry (mem u) d j = dir_entry m d j" if j: "j < 1024" for j
    proof -
      have "unat (of_nat j :: u32) < 1024" using j by (simp add: unat_of_nat take_bit_eq_mod)
      then have "mem u (d + 4 * of_nat j) = mem s (d + 4 * of_nat j)"
        by (intro page_out [OF u(3) _ W(2) _ page_word(2) [OF W(2)]]) (use v in auto)
      then show ?thesis using Cons.prems(2) [OF j] by (simp add: dir_entry_def)
    qed
    have nv: "?v \<notin> entry_tables m d is"
    proof
      assume "?v \<in> entry_tables m d is"
      then obtain j where j: "j \<in> set is" "dir_entry m d j AND PTE_P \<noteq> 0" "?v = P2V (PTE_ADDR (dir_entry m d j))"
        by (auto simp: entry_tables_def)
      have j': "j < 1024" "j \<noteq> i" using j(1) Cons.prems(3,4) by auto
      let ?vb = "of_nat j * 4194304 :: u32"
      have htb: "has_table m d ?vb" "table_of m d ?vb = ?v" using j j' by (simp_all add: has_table_def table_of_def dir_entry_pde)
      have "PDX ?va = PDX ?vb" using W(6) [OF ht(1) htb(1)] ht(2) htb(2) by simp
      then have "(of_nat i :: u32) = of_nat j" using PDX_index [OF i(1)] PDX_index [OF j'(1)] by simp
      then have "unat (of_nat i :: u32) = unat (of_nat j :: u32)" by simp
      then show False using i(1) j' by (simp add: unat_of_nat take_bit_eq_mod)
    qed
    have "\<exists>t. freevm_loop kend d is u = (Ret (), t) \<and> kfree_pages kend t (insert ?v H \<union> entry_tables m d is) \<and>
        same_outside (entry_tables m d is) (mem u) (mem t)"
      by (rule Cons.IH [OF u(2) eu]) (use Cons.prems(3-5) sp nv in auto)
    then obtain t where t: "freevm_loop kend d is u = (Ret (), t)" "kfree_pages kend t (insert ?v H \<union> entry_tables m d is)"
        "same_outside (entry_tables m d is) (mem u) (mem t)" by blast
    have "freevm_loop kend d (i # is) s = (Ret (), t)" using True i u(1) t(1) by (simp add: kop_defs dir_entry_def)
    moreover have "same_outside (entry_tables m d (i # is)) (mem s) (mem t)"
      by (rule same_outside_trans [OF u(3) t(3)]) (use sp True in auto)
    moreover have "insert ?v H \<union> entry_tables m d is = H \<union> entry_tables m d (i # is)" using sp True by auto
    ultimately show ?thesis using t(2) by metis
  qed
qed

lemma freed_all: "freed m d 0 0x80000000 = user_pages m d"
proof -
  have "in_range 0 0x80000000 va \<longleftrightarrow> va < KERNBASE" for va
  proof
    assume "va < KERNBASE"
    moreover have "unat va div 4096 * 4096 \<le> unat va" by simp
    ultimately show "in_range 0 0x80000000 va" unfolding in_range_def user_nat by linarith
  qed (auto intro: in_range_user)
  then show ?thesis by (simp add: freed_def user_pages_def)
qed

lemma freevm_exec:
  assumes inv: "vm_inv kend s F d" and kend: "KERNBASE < kend"
  shows "\<exists>t. freevm kend d s = (Ret (), t) \<and> kfree_pages kend t (F \<union> footprint (mem s) d) \<and>
    same_outside (footprint (mem s) d) (mem s) (mem t)"
proof -
  note I = vm_invD [OF inv]
  note W = vm_wfD [OF I(2)]
  have "PGROUNDUP 0 = 0" by (simp add: PGROUNDUP_def const_defs)
  then obtain u where u: "deallocuvm kend d KERNBASE 0 s = (Ret 0, u)" "deallocated kend d 0 0x80000000 s F u"
    using deallocuvm_exec [OF inv kend, of KERNBASE 0] by (auto simp: const_defs)
  let ?U = "user_pages (mem s) d" and ?T = "tables (mem s) d"
  have d: "vm_inv kend u (F \<union> ?U) d" "footprint (mem u) d = footprint (mem s) d - ?U" "tables (mem u) d = ?T"
      "same_outside (?T \<union> ?U) (mem s) (mem u)"
    using u(2) unfolding deallocated_def freed_all Let_def by blast+
  have et: "entry_tables (mem u) d [0..<1024] = ?T" using d(3) tables_entries [of "mem u" d] by simp
  have dj: "?T \<inter> (F \<union> ?U) = {}" using I(3) W(5) by (auto simp: footprint_def)
  obtain v where v: "freevm_loop kend d [0..<1024] u = (Ret (), v)" "kfree_pages kend v (F \<union> ?U \<union> ?T)"
      "same_outside ?T (mem u) (mem v)"
    using freevm_loop_spec [OF vm_invD(2) [OF d(1)] vm_invD(1) [OF d(1)] refl, of "[0..<1024]"] et dj by auto
  have dn: "d \<notin> F \<union> ?U \<union> ?T" using I(3) W(3,4) by (auto simp: footprint_def)
  obtain t where t: "kfree kend d v = (Ret (), t)" "kfree_pages kend t (insert d (F \<union> ?U \<union> ?T))" "same_outside {d} (mem v) (mem t)"
    using kfree_exec [OF v(2) W(2) dn] by blast
  have "freevm kend d s = (Ret (), t)"
    using u(1) v(1) t(1) page_ok_nonzero [OF W(2)] by (simp add: freevm_def kop_defs NPDENTRIES_def)
  moreover have "insert d (F \<union> ?U \<union> ?T) = F \<union> footprint (mem s) d" by (auto simp: footprint_def)
  moreover have "same_outside (?T \<union> ?U) (mem s) (mem v)" by (rule same_outside_trans [OF d(4) v(3)]) auto
  then have "same_outside (footprint (mem s) d) (mem s) (mem t)"
    by (rule same_outside_trans [OF _ t(3)]) (auto simp: footprint_def)
  ultimately show ?thesis using t(2) by (metis)
qed

end
