(* ===== verification/Vm_Copy.thy ===== *)
theory Vm_Copy
  imports Vm_Space
begin

text \<open>
  The kernel part of an address space (\<^verbatim>\<open>setupkvm\<close>), the copy made for a child process
  (\<^verbatim>\<open>copyuvm\<close>), \<^verbatim>\<open>copyout\<close>, and the properties of \<^verbatim>\<open>vm.c\<close>.
\<close>

section \<open>The kernel part of an address space\<close>

definition extends :: "u32 \<Rightarrow> u32 \<Rightarrow> kmem \<Rightarrow> u32 set \<Rightarrow> kmem \<Rightarrow> u32 set \<Rightarrow> bool" where
  "extends kend d s F t F' \<longleftrightarrow> vm_inv kend t F' d \<and> F' \<subseteq> F \<and> footprint (mem t) d = footprint (mem s) d \<union> (F - F') \<and>
     tables (mem t) d = tables (mem s) d \<union> (F - F') \<and>
     same_outside (insert d (tables (mem s) d \<union> (F - F'))) (mem s) (mem t)"

lemma extends_refl: "vm_inv kend s F d \<Longrightarrow> extends kend d s F s F"
  by (simp add: extends_def same_outside_def)

lemma extends_trans:
  assumes "extends kend d s F t F'" and "extends kend d t F' u F''"
  shows "extends kend d s F u F''"
proof -
  have "same_outside (insert d (tables (mem s) d \<union> (F - F''))) (mem s) (mem u)"
    by (rule same_outside_trans [of "insert d (tables (mem s) d \<union> (F - F'))" _ "mem t" "insert d (tables (mem t) d \<union> (F' - F''))"])
      (use assms in \<open>auto simp: extends_def\<close>)
  then show ?thesis using assms unfolding extends_def by blast
qed

lemma map_one_kernel:
  assumes inv: "vm_inv kend s F d" and va: "KERNBASE \<le> va" "\<not> mapped (mem s) d va"
  shows "map_one d va pa perm s = (Ret (- 1), s) \<or>
    (\<exists>t F'. map_one d va pa perm s = (Ret 0, t) \<and> extends kend d s F t F' \<and>
      (\<forall>vb. lookup (mem t) d vb = (if same_page va vb then pa OR perm OR PTE_P else lookup (mem s) d vb)))"
proof (cases "has_table (mem s) d va \<or> F \<noteq> {}")
  case False
  then have "walkpgdir d va True s = (Ret 0, s)" using walk_alloc [OF inv, of va] by simp
  then show ?thesis by (simp add: map_one_def kop_defs)
next
  case True
  then obtain u F' where u: "walkpgdir d va True s = (Ret (pte_at (mem u) d va), u)" "pte_at (mem u) d va \<noteq> 0"
      "has_table (mem u) d va" "F' \<subseteq> F" "vm_inv kend u F' d" "\<forall>vb. lookup (mem u) d vb = lookup (mem s) d vb"
      "footprint (mem u) d = footprint (mem s) d \<union> (F - F')" "tables (mem u) d = tables (mem s) d \<union> (F - F')"
      "same_outside (insert d (F - F')) (mem s) (mem u)"
    using walk_alloc [OF inv, of va] by auto
  note U = vm_invD [OF u(5)]
  have nm: "\<not> mapped (mem u) d va" using va(2) u(6) by (simp add: mapped_def)
  then have old: "mem u (pte_at (mem u) d va) AND PTE_P = 0" using u(3) by (simp add: mapped_def lookup_def)
  let ?w = "pa OR perm OR PTE_P"
  have nu: "\<not> va < KERNBASE" using va(1) by simp
  then have fresh: "va < KERNBASE \<Longrightarrow> ?w AND PTE_P \<noteq> 0 \<Longrightarrow> page_ok kend (P2V (PTE_ADDR ?w)) \<and> P2V (PTE_ADDR ?w) \<notin> footprint (mem u) d"
    by simp
  note S = store_pte [OF U(2) u(3), of ?w] and SW = store_pte_wf [OF U(2) u(3) fresh]
  let ?m = "(mem u)(pte_at (mem u) d va := ?w)"
  let ?t = "u\<lparr>mem := ?m\<rparr>"
  have ex: "map_one d va pa perm s = (Ret 0, ?t)"
    using u(1,2) old by (simp add: map_one_def kop_defs upd_mem_def)
  have tin: "table_of (mem u) d va \<in> tables (mem u) d" using u(3) by (auto simp: tables_def)
  have up: "user_pages ?m d = user_pages (mem u) d" using SW(2) nu by simp
  then have fp: "footprint ?m d = footprint (mem u) d" using S(4) by (simp add: footprint_def)
  have "kfree_pages kend ?t F'"
    by (rule kfree_pages_mem [OF U(1) S(5)])
      (use tin U(3) vm_wfD(1) [OF U(2)] in \<open>auto simp: footprint_def\<close>)
  then have vi: "vm_inv kend ?t F' d" using SW(1) fp U(3) by (simp add: vm_inv_def)
  have so: "same_outside (insert d (tables (mem s) d \<union> (F - F'))) (mem s) ?m"
    by (rule same_outside_trans [OF u(9) S(5)]) (use tin u(8) in auto)
  have "extends kend d s F ?t F'" using vi u(4,7,8) fp S(4) so by (simp add: extends_def)
  moreover have "\<forall>vb. lookup (mem ?t) d vb = (if same_page va vb then ?w else lookup (mem s) d vb)" using S(3) u(6) by simp
  ultimately show ?thesis using ex by blast
qed

lemma mappages_loop_kernel:
  assumes "vm_inv kend s F d" and "KERNBASE \<le> a" and "unat a mod 4096 = 0" and "unat a + 4096 * k < 2 ^ 32"
    and "\<And>vb. in_range (unat a) (unat a + 4096 * Suc k) vb \<Longrightarrow> \<not> mapped (mem s) d vb"
  shows "\<exists>r t F'. mappages_loop d a k pa perm s = (Ret r, t) \<and> (r = 0 \<or> r = - 1) \<and> extends kend d s F t F' \<and>
    (r = 0 \<longrightarrow> (\<forall>vb. lookup (mem t) d vb =
      (if in_range (unat a) (unat a + 4096 * Suc k) vb then (pa + (PGROUNDDOWN vb - a)) OR perm OR PTE_P else lookup (mem s) d vb)))"
  using assms
proof (induction k arbitrary: a pa s F)
  case 0
  have sp: "same_page a vb \<longleftrightarrow> in_range (unat a) (unat a + 4096 * Suc 0) vb" for vb
  proof -
    obtain i where "unat a = 4096 * i" using "0.prems"(3) by (auto simp: mod_eq_0_iff_dvd elim!: dvdE)
    then show ?thesis using aligned_page [OF "0.prems"(3), of vb] by (auto simp: in_range_def)
  qed
  have pd: "PGROUNDDOWN vb = a" if "same_page a vb" for vb
    using that aligned_page [OF "0.prems"(3), of vb] by (simp add: word_unat_eq_iff unat_PGROUNDDOWN)
  have "\<not> mapped (mem s) d a" using "0.prems"(5) [of a] sp [of a] by simp
  from map_one_kernel [OF "0.prems"(1,2) this, of pa perm] show ?case
  proof
    assume "map_one d a pa perm s = (Ret (- 1), s)"
    then show ?thesis using extends_refl [OF "0.prems"(1)] by auto
  next
    assume "\<exists>t F'. map_one d a pa perm s = (Ret 0, t) \<and> extends kend d s F t F' \<and>
      (\<forall>vb. lookup (mem t) d vb = (if same_page a vb then pa OR perm OR PTE_P else lookup (mem s) d vb))"
    then obtain t F' where t: "map_one d a pa perm s = (Ret 0, t)" "extends kend d s F t F'"
        "\<And>vb. lookup (mem t) d vb = (if same_page a vb then pa OR perm OR PTE_P else lookup (mem s) d vb)" by blast
    have "lookup (mem t) d vb = (if in_range (unat a) (unat a + 4096 * Suc 0) vb then (pa + (PGROUNDDOWN vb - a)) OR perm OR PTE_P
        else lookup (mem s) d vb)" for vb
      unfolding t(3) sp [symmetric] using pd by simp
    then show ?thesis using t(1,2) by auto
  qed
next
  case (Suc k)
  let ?b = "a + PGSIZE"
  have ub: "unat ?b = unat a + 4096" using Suc.prems(4) by (simp add: unat_word_ariths)
  obtain i where i: "unat a = 4096 * i" using Suc.prems(3) by (auto simp: mod_eq_0_iff_dvd elim!: dvdE)
  have rg: "in_range (unat a) (unat a + 4096 * Suc (Suc k)) vb \<longleftrightarrow> same_page a vb \<or> in_range (unat ?b) (unat ?b + 4096 * Suc k) vb" for vb
    unfolding ub aligned_page [OF Suc.prems(3)] using i by (auto simp: in_range_def)
  have ns: "in_range (unat ?b) (unat ?b + 4096 * Suc k) vb \<Longrightarrow> \<not> same_page a vb" for vb
    unfolding ub aligned_page [OF Suc.prems(3)] by (auto simp: in_range_def)
  have "\<not> mapped (mem s) d a" using Suc.prems(5) [of a] rg [of a] by simp
  from map_one_kernel [OF Suc.prems(1,2) this, of pa perm] show ?case
  proof
    assume "map_one d a pa perm s = (Ret (- 1), s)"
    then show ?thesis using extends_refl [OF Suc.prems(1)] by (auto simp: kop_defs)
  next
    assume "\<exists>t F'. map_one d a pa perm s = (Ret 0, t) \<and> extends kend d s F t F' \<and>
      (\<forall>vb. lookup (mem t) d vb = (if same_page a vb then pa OR perm OR PTE_P else lookup (mem s) d vb))"
    then obtain t F' where t: "map_one d a pa perm s = (Ret 0, t)" "extends kend d s F t F'"
        "\<And>vb. lookup (mem t) d vb = (if same_page a vb then pa OR perm OR PTE_P else lookup (mem s) d vb)" by blast
    have kb: "KERNBASE \<le> ?b" using Suc.prems(2) ub by (simp add: word_le_nat_alt)
    have um: "\<not> mapped (mem t) d vb" if "in_range (unat ?b) (unat ?b + 4096 * Suc k) vb" for vb
      using Suc.prems(5) [of vb] rg [of vb] ns [OF that] that t(3) [of vb] by (simp add: mapped_def)
    have "vm_inv kend t F' d" using t(2) by (simp add: extends_def)
    then obtain r u F'' where u: "mappages_loop d ?b k (pa + PGSIZE) perm t = (Ret r, u)" "r = 0 \<or> r = - 1" "extends kend d t F' u F''"
        "r = 0 \<Longrightarrow> lookup (mem u) d vb = (if in_range (unat ?b) (unat ?b + 4096 * Suc k) vb
          then (pa + PGSIZE + (PGROUNDDOWN vb - ?b)) OR perm OR PTE_P else lookup (mem t) d vb)" for vb
      using Suc.IH [of t F' ?b "pa + PGSIZE"] kb i ub Suc.prems(4) um by auto
    have pd: "PGROUNDDOWN vb = a" if "same_page a vb" for vb
      using that aligned_page [OF Suc.prems(3), of vb] by (simp add: word_unat_eq_iff unat_PGROUNDDOWN)
    have "lookup (mem u) d vb = (if in_range (unat a) (unat a + 4096 * Suc (Suc k)) vb
          then (pa + (PGROUNDDOWN vb - a)) OR perm OR PTE_P else lookup (mem s) d vb)" if "r = 0" for vb
    proof -
      have e: "pa + PGSIZE + (PGROUNDDOWN vb - ?b) = pa + (PGROUNDDOWN vb - a)" by simp
      show ?thesis unfolding u(4) [OF that] rg e t(3) using pd [of vb] ns [of vb] by auto
    qed
    moreover have "mappages_loop d a (Suc k) pa perm s = (Ret r, u)" using t(1) u(1) by (simp add: kop_defs)
    ultimately show ?thesis using u(2) extends_trans [OF t(2) u(3)] by blast
  qed
qed

text \<open>A row of \<^verbatim>\<open>kmap\<close> as a set of addresses and the entries it stands for.\<close>

definition region_size :: "kmap \<Rightarrow> nat" where
  "region_size k = unat (phys_end k - phys_start k)"

definition in_region :: "kmap \<Rightarrow> u32 \<Rightarrow> bool" where
  "in_region k vb \<longleftrightarrow> in_range (unat (virt k)) (unat (virt k) + region_size k) vb"

definition region_pte :: "kmap \<Rightarrow> u32 \<Rightarrow> u32" where
  "region_pte k vb = (phys_start k + (PGROUNDDOWN vb - virt k)) OR kperm k OR PTE_P"

definition region_ok :: "kmap \<Rightarrow> bool" where
  "region_ok k \<longleftrightarrow> KERNBASE \<le> virt k \<and> unat (virt k) mod 4096 = 0 \<and> region_size k mod 4096 = 0 \<and> 0 < region_size k \<and>
     unat (virt k) + region_size k \<le> 2 ^ 32"

lemma unat_drop12: "unat (drop_bit 12 (x :: u32)) = unat x div 4096"
proof -
  have "unat (drop_bit 12 x) = drop_bit 12 (unat x)" by (rule unat_drop_bit_eq)
  also have "\<dots> = unat x div 2 ^ 12" by (rule drop_bit_eq_div)
  finally show ?thesis by simp
qed

lemma mappages_region:
  assumes "region_ok k"
  shows "mappages d (virt k) (phys_end k - phys_start k) pa perm = mappages_loop d (virt k) (region_size k div 4096 - 1) pa perm"
proof -
  let ?v = "virt k" and ?n = "region_size k" and ?z = "phys_end k - phys_start k"
  have R: "unat ?v mod 4096 = 0" "?n mod 4096 = 0" "0 < ?n" "unat ?v + ?n \<le> 2 ^ 32" using assms by (simp_all add: region_ok_def)
  obtain i j where ij': "unat ?v = 4096 * i" "?n = 4096 * j" using R(1,2) by (auto simp: mod_eq_0_iff_dvd elim!: dvdE)
  then obtain l where l: "j = Suc l" using R(3) by (cases j) auto
  have ij: "unat ?v = 4096 * i" "?n = 4096 * l + 4096" using ij' l by simp_all
  have "of_nat (unat ?v) = ?v" by simp
  then have v: "?v = of_nat (4096 * i)" unfolding ij(1) by (rule sym)
  have uz: "unat ?z = 4096 * l + 4096" using ij(2) by (simp add: region_size_def)
  have "of_nat (unat ?z) = ?z" by simp
  then have z: "?z = of_nat (4096 * l + 4096)" unfolding uz by (rule sym)
  have "?v + ?z - 1 = of_nat (4096 * (i + l) + 4095)" unfolding v z by (simp add: algebra_simps)
  moreover have "4096 * (i + l) + 4095 < 2 ^ 32" using R(4) ij by simp
  ultimately have "unat (?v + ?z - 1) = 4096 * (i + l) + 4095" by (simp only: unat_of_nat take_bit_eq_mod) simp
  then have "unat (PGROUNDDOWN (?v + ?z - 1)) = (4096 * (i + l) + 4095) div 4096 * 4096" by (simp only: unat_PGROUNDDOWN)
  moreover have "(4096 * (i + l) + 4095) div 4096 = i + l" by (simp del: distrib_left_numeral)
  ultimately have last: "unat (PGROUNDDOWN (?v + ?z - 1)) = 4096 * i + 4096 * l" by (simp only:) simp
  have first: "PGROUNDDOWN ?v = ?v" using ij(1) by (simp add: word_unat_eq_iff unat_PGROUNDDOWN)
  have le: "?v \<le> PGROUNDDOWN (?v + ?z - 1)" unfolding word_le_nat_alt last ij(1) by simp
  have "unat (PGROUNDDOWN (?v + ?z - 1) - ?v) = 4096 * l" unfolding unat_sub [OF le] last ij(1) by simp
  then have "unat (drop_bit 12 (PGROUNDDOWN (?v + ?z - 1) - ?v)) = l"
    unfolding unat_drop12 by simp
  then show ?thesis unfolding mappages_def Let_def first using ij(2) by simp
qed

fun kernel_pte :: "kmap list \<Rightarrow> (u32 \<Rightarrow> u32) \<Rightarrow> u32 \<Rightarrow> u32" where
  "kernel_pte [] f vb = f vb"
| "kernel_pte (k # ks) f vb = (if in_region k vb then region_pte k vb else kernel_pte ks f vb)"

lemma kernel_pte_none: "(\<And>k. k \<in> set ks \<Longrightarrow> \<not> in_region k vb) \<Longrightarrow> kernel_pte ks f vb = f vb"
  by (induction ks) auto

lemma kernel_pte_over:
  "(\<And>l. l \<in> set ks \<Longrightarrow> in_region k vb \<Longrightarrow> \<not> in_region l vb) \<Longrightarrow>
   kernel_pte ks (\<lambda>vb. if in_region k vb then region_pte k vb else f vb) vb = kernel_pte (k # ks) f vb"
  by (induction ks) auto

definition disjoint_regions :: "kmap \<Rightarrow> kmap \<Rightarrow> bool" where
  "disjoint_regions k l \<longleftrightarrow> (\<forall>vb. \<not> (in_region k vb \<and> in_region l vb))"

lemma setupkvm_loop_spec:
  assumes "vm_inv kend u G d" and "KERNBASE < kend" and "\<And>k. k \<in> set ks \<Longrightarrow> region_ok k" and "sorted_wrt disjoint_regions ks"
    and "\<And>k vb. k \<in> set ks \<Longrightarrow> in_region k vb \<Longrightarrow> \<not> mapped (mem u) d vb"
  shows "\<exists>r t G'. setupkvm_loop kend d ks u = (Ret r, t) \<and>
    (r = d \<and> extends kend d u G t G' \<and> (\<forall>vb. lookup (mem t) d vb = kernel_pte ks (lookup (mem u) d) vb) \<or>
     r = 0 \<and> kfree_pages kend t (G \<union> footprint (mem u) d) \<and> same_outside (G \<union> footprint (mem u) d) (mem u) (mem t))"
  using assms
proof (induction ks arbitrary: u G)
  case Nil
  then show ?case using extends_refl [OF Nil.prems(1)] by (auto simp: kret_def)
next
  case (Cons k ks)
  have ok: "region_ok k" using Cons.prems(3) by simp
  let ?v = "virt k" and ?n = "region_size k"
  have R: "KERNBASE \<le> ?v" "unat ?v mod 4096 = 0" "?n mod 4096 = 0" "0 < ?n" "unat ?v + ?n \<le> 2 ^ 32"
    using ok by (simp_all add: region_ok_def)
  obtain j where j: "?n = 4096 * j" using R(3) by (auto simp: mod_eq_0_iff_dvd elim!: dvdE)
  then obtain l where l: "j = Suc l" using R(4) by (cases j) auto
  have n: "?n div 4096 - 1 = l" "?n = 4096 * Suc l" using j l by simp_all
  have rg: "in_range (unat ?v) (unat ?v + 4096 * Suc l) vb \<longleftrightarrow> in_region k vb" for vb by (simp add: in_region_def n)
  have lt: "unat ?v + 4096 * l < 2 ^ 32" using R(5) n(2) by simp
  obtain r t G' where t: "mappages_loop d ?v l (phys_start k) (kperm k) u = (Ret r, t)" "r = 0 \<or> r = - 1" "extends kend d u G t G'"
      "r = 0 \<Longrightarrow> lookup (mem t) d vb = (if in_region k vb then region_pte k vb else lookup (mem u) d vb)" for vb
    using mappages_loop_kernel [OF Cons.prems(1) R(1,2) lt, of "phys_start k" "kperm k"] Cons.prems(5) [of k]
    unfolding rg region_pte_def by auto
  have mp: "mappages d ?v (phys_end k - phys_start k) (phys_start k) (kperm k) u = (Ret r, t)"
    using mappages_region [OF ok] t(1) n(1) by simp
  note E = t(3) [unfolded extends_def]
  have ti: "vm_inv kend t G' d" using E by blast
  show ?case
  proof (cases "r = 0")
    case False
    obtain w where w: "freevm kend d t = (Ret (), w)" "kfree_pages kend w (G' \<union> footprint (mem t) d)"
        "same_outside (footprint (mem t) d) (mem t) (mem w)"
      using freevm_exec [OF ti Cons.prems(2)] by blast
    have fp: "G' \<union> footprint (mem t) d = G \<union> footprint (mem u) d" using E by blast
    have "same_outside (G \<union> footprint (mem u) d) (mem u) (mem w)"
      by (rule same_outside_trans [of "insert d (tables (mem u) d \<union> (G - G'))" _ "mem t", OF _ w(3)])
        (use E in \<open>auto simp: footprint_def\<close>)
    moreover have "setupkvm_loop kend d (k # ks) u = (Ret 0, w)" using False t(2) mp w(1) by (auto simp: kop_defs)
    ultimately show ?thesis using w(2) fp by auto
  next
    case True
    have um: "\<not> mapped (mem t) d vb" if "m \<in> set ks" "in_region m vb" for m vb
    proof -
      have "\<not> in_region k vb" using Cons.prems(4) that by (auto simp: disjoint_regions_def)
      then show ?thesis using t(4) [OF True, of vb] Cons.prems(5) [of m vb] that by (simp add: mapped_def)
    qed
    have "\<exists>r' w G''. setupkvm_loop kend d ks t = (Ret r', w) \<and>
      (r' = d \<and> extends kend d t G' w G'' \<and> (\<forall>vb. lookup (mem w) d vb = kernel_pte ks (lookup (mem t) d) vb) \<or>
       r' = 0 \<and> kfree_pages kend w (G' \<union> footprint (mem t) d) \<and> same_outside (G' \<union> footprint (mem t) d) (mem t) (mem w))"
      by (rule Cons.IH [OF ti Cons.prems(2)]) (use Cons.prems(3,4) um in auto)
    then obtain r' w G'' where w: "setupkvm_loop kend d ks t = (Ret r', w)"
      "(r' = d \<and> extends kend d t G' w G'' \<and> (\<forall>vb. lookup (mem w) d vb = kernel_pte ks (lookup (mem t) d) vb) \<or>
       r' = 0 \<and> kfree_pages kend w (G' \<union> footprint (mem t) d) \<and> same_outside (G' \<union> footprint (mem t) d) (mem t) (mem w))"
      by blast
    have ex: "setupkvm_loop kend d (k # ks) u = (Ret r', w)" using True mp w(1) by (simp add: kop_defs)
    have lk: "lookup (mem t) d = (\<lambda>vb. if in_region k vb then region_pte k vb else lookup (mem u) d vb)" using t(4) [OF True] by auto
    have ov: "kernel_pte ks (lookup (mem t) d) vb = kernel_pte (k # ks) (lookup (mem u) d) vb" for vb
      unfolding lk by (rule kernel_pte_over) (use Cons.prems(4) in \<open>auto simp: disjoint_regions_def\<close>)
    have fp: "G' \<union> footprint (mem t) d = G \<union> footprint (mem u) d" using E by blast
    from w(2) show ?thesis
    proof
      assume a: "r' = d \<and> extends kend d t G' w G'' \<and> (\<forall>vb. lookup (mem w) d vb = kernel_pte ks (lookup (mem t) d) vb)"
      then have "extends kend d u G w G''" using extends_trans [OF t(3)] by blast
      then show ?thesis using a ov ex by auto
    next
      assume a: "r' = 0 \<and> kfree_pages kend w (G' \<union> footprint (mem t) d) \<and> same_outside (G' \<union> footprint (mem t) d) (mem t) (mem w)"
      have "same_outside (G \<union> footprint (mem u) d) (mem u) (mem w)"
        by (rule same_outside_trans [of "insert d (tables (mem u) d \<union> (G - G'))" _ "mem t" "G' \<union> footprint (mem t) d"])
          (use E a fp in \<open>auto simp: footprint_def\<close>)
      then show ?thesis using a ex fp by auto
    qed
  qed
qed

definition data_ok :: "u32 \<Rightarrow> bool" where
  "data_ok data_start \<longleftrightarrow> unat data_start mod 4096 = 0 \<and> 0x80100000 < unat data_start \<and> unat data_start < 0x8E000000"

lemma kmap_sizes:
  assumes "data_ok d"
  shows "unat (V2P d - V2P KERNLINK) = unat d - 0x80100000" "unat (PHYSTOP - V2P d) = 0x8E000000 - unat d"
    "unat ((0 :: u32) - DEVSPACE) = 0x2000000"
proof -
  have a: "0x80100000 < unat d" "unat d < 0x8E000000" using assms by (simp_all add: data_ok_def)
  have "V2P d - V2P KERNLINK = d - 0x80100000" by (simp add: V2P_def KERNLINK_def)
  moreover have "0x80100000 \<le> d" using a by (simp add: word_le_nat_alt)
  ultimately show "unat (V2P d - V2P KERNLINK) = unat d - 0x80100000" by (simp add: unat_sub)
  have "PHYSTOP - V2P d = 0x8E000000 - d" by (simp add: V2P_def const_defs)
  moreover have "d \<le> 0x8E000000" using a by (simp add: word_le_nat_alt)
  ultimately show "unat (PHYSTOP - V2P d) = 0x8E000000 - unat d" by (simp add: unat_sub)
  show "unat ((0 :: u32) - DEVSPACE) = 0x2000000" by (simp add: DEVSPACE_def)
qed

lemma kmap_ok:
  assumes "data_ok data_start" and "k \<in> set (kmap_table data_start)"
  shows "region_ok k"
proof -
  note z = kmap_sizes [OF assms(1)]
  have a: "0x80100000 < unat data_start" "unat data_start < 0x8E000000" "unat data_start mod 4096 = 0" using assms(1) by (simp_all add: data_ok_def)
  then obtain i where i: "unat data_start = 4096 * i" by (auto simp: mod_eq_0_iff_dvd elim!: dvdE)
  have m: "(unat data_start - 0x80100000) mod 4096 = 0" "(0x8E000000 - unat data_start) mod 4096 = 0"
  proof -
    have "unat data_start - 0x80100000 = 4096 * (i - 0x80100)" "0x8E000000 - unat data_start = 4096 * (0x8E000 - i)"
      using i by (simp_all add: diff_mult_distrib2)
    then show "(unat data_start - 0x80100000) mod 4096 = 0" "(0x8E000000 - unat data_start) mod 4096 = 0" by (simp_all only: mod_mult_self1_is_0)
  qed
  consider "k = \<lparr>virt = KERNBASE, phys_start = 0, phys_end = EXTMEM, kperm = PTE_W\<rparr>"
    | "k = \<lparr>virt = KERNLINK, phys_start = V2P KERNLINK, phys_end = V2P data_start, kperm = 0\<rparr>"
    | "k = \<lparr>virt = data_start, phys_start = V2P data_start, phys_end = PHYSTOP, kperm = PTE_W\<rparr>"
    | "k = \<lparr>virt = DEVSPACE, phys_start = DEVSPACE, phys_end = 0, kperm = PTE_W\<rparr>"
    using assms(2) by (auto simp: kmap_table_def)
  then show ?thesis
  proof cases
    case 1
    then show ?thesis by (simp add: region_ok_def region_size_def const_defs)
  next
    case 2
    have "region_size k = unat data_start - 0x80100000" using 2 z(1) by (simp add: region_size_def)
    then show ?thesis using 2 a m(1) by (simp add: region_ok_def const_defs)
  next
    case 3
    have "region_size k = 0x8E000000 - unat data_start" using 3 z(2) by (simp add: region_size_def)
    then show ?thesis using 3 a m(2) by (simp add: region_ok_def const_defs word_le_nat_alt)
  next
    case 4
    have "region_size k = 0x2000000" using 4 z(3) by (simp add: region_size_def)
    then show ?thesis using 4 by (simp add: region_ok_def const_defs)
  qed
qed

lemma kmap_disjoint:
  assumes "data_ok data_start"
  shows "sorted_wrt disjoint_regions (kmap_table data_start)"
proof -
  note z = kmap_sizes [OF assms]
  have a: "0x80100000 < unat data_start" "unat data_start < 0x8E000000" using assms by (simp_all add: data_ok_def)
  have r: "disjoint_regions k l" if "unat (virt k) + region_size k \<le> unat (virt l)" for k l
    using that by (auto simp: disjoint_regions_def in_region_def in_range_def)
  show ?thesis
    unfolding kmap_table_def using a z by (auto intro!: r simp: region_size_def) (simp_all add: const_defs)
qed

lemma kernel_pte_user: "va < KERNBASE \<Longrightarrow> data_ok data_start \<Longrightarrow> kernel_pte (kmap_table data_start) f va = f va"
proof (rule kernel_pte_none)
  fix k assume h: "va < KERNBASE" "data_ok data_start" "k \<in> set (kmap_table data_start)"
  have "0x80000000 \<le> unat (virt k)" using kmap_ok [OF h(2,3)] by (simp add: region_ok_def word_le_nat_alt const_defs)
  moreover have "unat va div 4096 * 4096 \<le> unat va" by simp
  ultimately show "\<not> in_region k va" using h(1) unfolding in_region_def in_range_def user_nat by linarith
qed

lemma empty_dir:
  assumes ok: "page_ok kend d" and z: "\<And>x. in_page d x \<Longrightarrow> m x = 0"
  shows "lookup m d va = 0" "footprint m d = {d}" "vm_wf kend m d"
proof -
  have "pde_of m d vb = 0" for vb unfolding pde_of_def by (rule z) (rule page_word(2) [OF ok index_less(1)])
  then have nt: "\<not> has_table m d vb" for vb by (simp add: has_table_def)
  then have l: "lookup m d vb = 0" "\<not> mapped m d vb" for vb by (simp_all add: lookup_def mapped_def)
  then show "lookup m d va = 0" by blast
  have t: "tables m d = {}" "user_pages m d = {}" using nt l by (simp_all add: tables_def user_pages_def)
  then show fp: "footprint m d = {d}" by (simp add: footprint_def)
  show "vm_wf kend m d" by (rule vm_wfI) (use ok fp t nt l in auto)
qed

lemma setupkvm_exec:
  assumes k: "kfree_pages kend s F" and kend: "KERNBASE < kend" and data: "data_ok data_start"
  shows "\<exists>r t F'. setupkvm kend data_start s = (Ret r, t) \<and> same_outside F (mem s) (mem t) \<and>
    (r \<noteq> 0 \<and> vm_inv kend t F' r \<and> F' \<subseteq> F \<and> footprint (mem t) r = F - F' \<and>
       (\<forall>vb. lookup (mem t) r vb = kernel_pte (kmap_table data_start) (\<lambda>_. 0) vb) \<or>
     r = 0 \<and> kfree_pages kend t F)"
proof -
  consider (none) "F = {}" "kalloc s = (Ret 0, s)"
    | (some) d v where "kalloc s = (Ret d, v)" "d \<in> F" "d \<noteq> 0" "page_ok kend d" "mem v = mem s" "kfree_pages kend v (F - {d})"
    using kalloc_pages [OF k] by blast
  then show ?thesis
  proof cases
    case none
    then show ?thesis using k by (auto simp: setupkvm_def kop_defs same_outside_def)
  next
    case some
    let ?w = "v\<lparr>mem := fill_page d 0 (mem s)\<rparr>"
    have z: "in_page d x \<Longrightarrow> mem ?w x = 0" for x using fill_page_zero [of d x] by simp
    note E = empty_dir [OF some(4), of "mem ?w", OF z]
    have kw: "kfree_pages kend ?w (F - {d})"
      by (rule kfree_pages_mem [OF some(6), of "{d}"]) (use fill_page_outside [of d "mem s" 0] some(4,5) in auto)
    have inv: "vm_inv kend ?w (F - {d}) d" using kw E(2,3) by (simp add: vm_inv_def)
    have um: "\<not> mapped (mem ?w) d vb" for vb using E(1) [of vb] by (simp add: mapped_def)
    have le: "\<not> DEVSPACE < P2V PHYSTOP" by (simp add: P2V_def const_defs)
    have ex: "setupkvm kend data_start s = setupkvm_loop kend d (kmap_table data_start) ?w"
      using some(1,3,5) le by (simp add: setupkvm_def kop_defs upd_mem_def)
    obtain r t G' where t: "setupkvm_loop kend d (kmap_table data_start) ?w = (Ret r, t)"
      "r = d \<and> extends kend d ?w (F - {d}) t G' \<and> (\<forall>vb. lookup (mem t) d vb = kernel_pte (kmap_table data_start) (lookup (mem ?w) d) vb) \<or>
       r = 0 \<and> kfree_pages kend t (F - {d} \<union> footprint (mem ?w) d) \<and> same_outside (F - {d} \<union> footprint (mem ?w) d) (mem ?w) (mem t)"
      using setupkvm_loop_spec [OF inv kend kmap_ok [OF data] kmap_disjoint [OF data] um] by blast
    have fd: "F - {d} \<union> footprint (mem ?w) d = F" using E(2) some(2) by auto
    have so0: "same_outside {d} (mem s) (mem ?w)" using fill_page_outside [of d "mem s" 0] by simp
    have lz: "lookup (mem ?w) d = (\<lambda>_. 0)" using E(1) by (intro ext)
    from t(2) show ?thesis
    proof
      assume a: "r = d \<and> extends kend d ?w (F - {d}) t G' \<and> (\<forall>vb. lookup (mem t) d vb = kernel_pte (kmap_table data_start) (lookup (mem ?w) d) vb)"
      then have X: "vm_inv kend t G' d" "G' \<subseteq> F - {d}" "footprint (mem t) d = footprint (mem ?w) d \<union> (F - {d} - G')"
          "same_outside (insert d (tables (mem ?w) d \<union> (F - {d} - G'))) (mem ?w) (mem t)"
        unfolding extends_def by blast+
      have tb: "tables (mem ?w) d \<subseteq> {d}" using E(2) by (auto simp: footprint_def)
      have "same_outside F (mem s) (mem t)"
        by (rule same_outside_trans [OF so0 X(4)]) (use some(2) tb in auto)
      moreover have "footprint (mem t) d = F - G'" using X(2,3) E(2) some(2) by auto
      ultimately show ?thesis using a X(1,2) ex t(1) some(3) lz by auto
    next
      assume a: "r = 0 \<and> kfree_pages kend t (F - {d} \<union> footprint (mem ?w) d) \<and> same_outside (F - {d} \<union> footprint (mem ?w) d) (mem ?w) (mem t)"
      have "same_outside F (mem s) (mem t)"
        by (rule same_outside_trans [OF so0, of F "mem t"]) (use some(2) a fd in auto)
      then show ?thesis using a fd ex t(1) by auto
    qed
  qed
qed

section \<open>Copying an address space\<close>

definition copied :: "u32 \<Rightarrow> (u32 \<Rightarrow> u32) \<Rightarrow> kmem \<Rightarrow> u32 set \<Rightarrow> u32 \<Rightarrow> u32 \<Rightarrow> (u32 \<Rightarrow> bool) \<Rightarrow> kmem \<Rightarrow> u32 set \<Rightarrow> bool" where
  "copied kend kp s F p c D u G \<longleftrightarrow> vm_inv kend u G c \<and> G \<subseteq> F \<and> footprint (mem u) c = F - G \<and> same_outside F (mem s) (mem u) \<and>
     (\<forall>vb. \<not> D vb \<longrightarrow> lookup (mem u) c vb = kp vb) \<and>
     (\<forall>vb. D vb \<longrightarrow> mapped (mem u) c vb \<and> PTE_FLAGS (lookup (mem u) c vb) = PTE_FLAGS (lookup (mem s) p vb) \<and>
        (\<forall>x. x < PGSIZE \<longrightarrow> mem u (frame_of (mem u) c vb + x) = mem s (frame_of (mem s) p vb + x)))"

lemma copiedD:
  assumes "copied kend kp s F p c D u G"
  shows "vm_inv kend u G c" "G \<subseteq> F" "footprint (mem u) c = F - G" "same_outside F (mem s) (mem u)"
    "\<And>vb. \<not> D vb \<Longrightarrow> lookup (mem u) c vb = kp vb" "\<And>vb. D vb \<Longrightarrow> mapped (mem u) c vb"
    "\<And>vb. D vb \<Longrightarrow> PTE_FLAGS (lookup (mem u) c vb) = PTE_FLAGS (lookup (mem s) p vb)"
    "\<And>vb x. D vb \<Longrightarrow> x < PGSIZE \<Longrightarrow> mem u (frame_of (mem u) c vb + x) = mem s (frame_of (mem s) p vb + x)"
  using assms unfolding copied_def by blast+

lemma in_page_add: "x < PGSIZE \<Longrightarrow> in_page v (v + x)"
  by (simp add: in_page_def)

lemma flags_present: "v AND PTE_P \<noteq> 0 \<Longrightarrow> PTE_FLAGS v OR PTE_P = PTE_FLAGS v"
proof -
  assume "v AND PTE_P \<noteq> 0"
  then have "bit v 0" by (metis PTE_P_def and_one_eq bit_0 odd_iff_mod_2_eq_one parity_cases of_bool_eq(1) bit_simps(1) one_and_eq)
  then show ?thesis by (intro bit_word_eqI) (auto simp: PTE_FLAGS_def PTE_P_def bit_simps)
qed

lemma copyuvm_loop_spec:
  assumes s: "vm_inv kend s F p" and kend: "KERNBASE < kend"
    and kp: "\<And>vb. vb < KERNBASE \<Longrightarrow> kp vb = 0"
    and pl: "\<And>i. i \<in> set is \<Longrightarrow> i < KERNBASE \<and> unat i mod 4096 = 0 \<and> mapped (mem s) p i \<and> \<not> D i" "distinct is"
    and c: "copied kend kp s F p c D u G" and D: "\<And>vb. D vb \<Longrightarrow> vb < KERNBASE" and c0: "c \<noteq> 0"
  shows "\<exists>r t G'. copyuvm_loop kend p c is u = (Ret r, t) \<and>
    (r = c \<and> copied kend kp s F p c (\<lambda>vb. D vb \<or> (\<exists>i\<in>set is. same_page i vb)) t G' \<or>
     r = 0 \<and> kfree_pages kend t F \<and> same_outside F (mem s) (mem t))"
  using pl c D
proof (induction "is" arbitrary: D u G)
  case Nil
  then show ?case by (auto simp: kret_def)
next
  case (Cons i "is")
  note I = vm_invD [OF s] and C = copiedD [OF Cons.prems(3)]
  note W = vm_wfD [OF I(2)]
  have i: "i < KERNBASE" "unat i mod 4096 = 0" "mapped (mem s) p i" "\<not> D i" using Cons.prems(1) by simp_all
  have okf: "\<forall>v\<in>footprint (mem s) p. page_ok kend v" "\<forall>v\<in>F. page_ok kend v" using W(1) kfree_pages_ok [OF I(1)] by auto
  have dj: "insert p (tables (mem s) p) \<inter> F = {}" using I(3) by (auto simp: footprint_def)
  note f = footprint_frame [OF C(4) okf dj]
  have ht: "has_table (mem u) p i" using mapped_table [OF i(3)] f(2) by simp
  have nz: "pte_at (mem u) p i \<noteq> 0"
    by (rule table_word_nonzero [OF vm_wf_frame [OF C(4) I(2) okf(2) dj] ht])
  let ?v = "lookup (mem s) p i" and ?fr = "frame_of (mem s) p i"
  have v: "mem u (pte_at (mem u) p i) = ?v" "?v AND PTE_P \<noteq> 0" using ht f(5) [of i] i(3) by (simp_all add: lookup_def mapped_def)
  have v2: "mem u (pte_at (mem u) p i) AND PTE_P \<noteq> 0" using v by simp
  note uf = user_frame_page [OF I(2) i(1,3)]
  have frF: "?fr \<notin> F" using uf(4) I(3) by blast
  have step: "copyuvm_loop kend p c (i # is) u = kbind kalloc (\<lambda>pg.
         if pg = 0 then kseq (freevm kend c) (kret 0)
         else kseq (upd_mem (copy_page pg ?fr)) (kbind (mappages c i PGSIZE (V2P pg) (PTE_FLAGS ?v)) (\<lambda>r.
           if r < 0 then kseq (kfree kend pg) (kseq (freevm kend c) (kret 0)) else copyuvm_loop kend p c is))) u"
    unfolding frame_of_def v(1) [symmetric] using ht nz v2 by (simp add: kbind_def walk_lookup kget_def)
  have undo: "\<exists>t. freevm kend c w = (Ret (), t) \<and> kfree_pages kend t F \<and> same_outside F (mem s) (mem t)"
    if w: "vm_inv kend w H c" "H \<union> footprint (mem w) c = F" "same_outside F (mem s) (mem w)" for w H
  proof -
    obtain t where t: "freevm kend c w = (Ret (), t)" "kfree_pages kend t (H \<union> footprint (mem w) c)"
        "same_outside (footprint (mem w) c) (mem w) (mem t)"
      using freevm_exec [OF w(1) kend] by blast
    moreover have "same_outside F (mem s) (mem t)" by (rule same_outside_trans [OF w(3) t(3)]) (use w(2) in auto)
    ultimately show ?thesis using w(2) by auto
  qed
  consider (none) "G = {}" "kalloc u = (Ret 0, u)"
    | (some) pg x where "kalloc u = (Ret pg, x)" "pg \<in> G" "pg \<noteq> 0" "page_ok kend pg" "mem x = mem u" "kfree_pages kend x (G - {pg})"
    using kalloc_pages [OF vm_invD(1) [OF C(1)]] by blast
  then show ?case
  proof cases
    case none
    obtain t where "freevm kend c u = (Ret (), t)" "kfree_pages kend t F" "same_outside F (mem s) (mem t)"
      using undo [OF C(1) _ C(4)] C(2,3) by blast
    moreover from this have "copyuvm_loop kend p c (i # is) u = (Ret 0, t)" unfolding step using none(2) by (simp add: kop_defs)
    ultimately show ?thesis by blast
  next
    case some
    let ?m = "copy_page pg ?fr (mem u)"
    let ?w = "x\<lparr>mem := ?m\<rparr>"
    have so: "same_outside {pg} (mem u) ?m" by (simp add: same_outside_def copy_page_def in_page_def)
    note P = fresh_page [OF C(1) some(2,6,5) so]
    have fl: "unat (PTE_FLAGS ?v) < 4096"
    proof -
      have "PTE_FLAGS ?v \<le> 0xFFF" unfolding PTE_FLAGS_def by (rule word_and_le1)
      then show ?thesis by (simp add: word_le_nat_alt)
    qed
    have lw: "lookup (mem ?w) c vb = lookup (mem u) c vb" for vb using P(2) by simp
    have um: "\<not> mapped (mem ?w) c i" using C(5) [OF i(4)] kp [OF i(1)] lw [of i] by (simp add: mapped_def)
    have pgn: "pg \<notin> G - {pg}" "pg \<notin> footprint (mem ?w) c" using P(3,7) by simp_all
    note M = map_one_user [OF P(1) i(1) um some(4) pgn fl]
    have mp: "mappages c i PGSIZE (V2P pg) (PTE_FLAGS ?v) = map_one c i (V2P pg) (PTE_FLAGS ?v)" by (rule mappages_page [OF i(2)])
    have step': "copyuvm_loop kend p c (i # is) u = kbind (map_one c i (V2P pg) (PTE_FLAGS ?v)) (\<lambda>r.
           if r < 0 then kseq (kfree kend pg) (kseq (freevm kend c) (kret 0)) else copyuvm_loop kend p c is) ?w"
      unfolding step using some(1,3,5) mp by (simp add: kop_defs upd_mem_def)
    have pgF: "pg \<in> F" using some(2) C(2) by blast
    have sow: "same_outside F (mem s) (mem ?w)" using same_outside_trans [OF C(4) so, of F] pgF by simp
    show ?thesis
    proof (cases "has_table (mem ?w) c i \<or> G - {pg} \<noteq> {}")
      case False
      then have fail: "map_one c i (V2P pg) (PTE_FLAGS ?v) ?w = (Ret (- 1), ?w)" using M by simp
      obtain y where y: "kfree kend pg ?w = (Ret (), y)" "kfree_pages kend y (insert pg (G - {pg}))" "same_outside {pg} (mem ?w) (mem y)"
        using kfree_exec [OF vm_invD(1) [OF P(1)] some(4) pgn(1)] by blast
      have soy: "same_outside {pg} (mem u) (mem y)" using same_outside_trans [OF so, of "{pg}" "mem y" "{pg}"] y(3) by simp
      have okc: "\<forall>v\<in>footprint (mem u) c. page_ok kend v" "\<forall>v\<in>{pg}. page_ok kend v"
        using vm_wfD(1) [OF vm_invD(2) [OF C(1)]] some(4) by auto
      have djc: "insert c (tables (mem u) c) \<inter> {pg} = {}" using P(7) by (auto simp: footprint_def)
      note fc = footprint_frame [OF soy okc djc]
      have "vm_inv kend y G c"
        using vm_wf_frame [OF soy vm_invD(2) [OF C(1)] okc(2) djc] y(2) some(2) fc(10) vm_invD(3) [OF C(1)]
        by (simp add: vm_inv_def insert_absorb)
      moreover have "G \<union> footprint (mem y) c = F" using fc(10) C(2,3) by auto
      moreover have "same_outside F (mem s) (mem y)" by (rule same_outside_trans [OF sow y(3)]) (use pgF in auto)
      ultimately obtain t where "freevm kend c y = (Ret (), t)" "kfree_pages kend t F" "same_outside F (mem s) (mem t)"
        using undo by blast
      moreover from this have "copyuvm_loop kend p c (i # is) u = (Ret 0, t)" unfolding step' using fail y(1) by (simp add: kop_defs)
      ultimately show ?thesis by blast
    next
      case True
      then obtain t G' where t: "map_one c i (V2P pg) (PTE_FLAGS ?v) ?w = (Ret 0, t)" "G' \<subseteq> G - {pg}" "vm_inv kend t G' c"
          "\<And>vb. lookup (mem t) c vb = (if same_page i vb then V2P pg OR PTE_FLAGS ?v OR PTE_P else lookup (mem ?w) c vb)"
          "footprint (mem t) c = insert pg (footprint (mem ?w) c \<union> (G - {pg} - G'))"
          "same_outside (insert c (tables (mem ?w) c \<union> (G - {pg} - G'))) (mem ?w) (mem t)"
        using M by auto
      note pf = pte_flags [OF some(4) fl]
      note wfw = vm_invD(2) [OF P(1)]
      have okP: "\<forall>v\<in>insert c (tables (mem ?w) c \<union> (G - {pg} - G')). page_ok kend v"
        using vm_wfD(1) [OF wfw] kfree_pages_ok [OF vm_invD(1) [OF P(1)]] by (auto simp: footprint_def)
      have keep: "mem t z = mem ?w z" if "page_ok kend q" "q \<notin> insert c (tables (mem ?w) c)" "q \<notin> G - {pg}" "in_page q z" for q z
        by (rule page_out [OF t(6) okP that(1) _ that(4)]) (use that in auto)
      have subF: "insert c (tables (mem ?w) c \<union> (G - {pg} - G')) \<subseteq> F"
        using P(3,4) C(2,3) by (auto simp: footprint_def)
      have sot: "same_outside F (mem s) (mem t)" by (rule same_outside_trans [OF sow t(6)]) (use subF in auto)
      have new: "mapped (mem t) c vb \<and> PTE_FLAGS (lookup (mem t) c vb) = PTE_FLAGS (lookup (mem s) p vb) \<and>
          (\<forall>z. z < PGSIZE \<longrightarrow> mem t (frame_of (mem t) c vb + z) = mem s (frame_of (mem s) p vb + z))" if sp: "same_page i vb" for vb
      proof -
        have lp: "lookup (mem s) p vb = ?v" "frame_of (mem s) p vb = ?fr" using lookup_cong [OF sp, of "mem s" p] by (simp_all add: frame_of_def)
        have lt: "lookup (mem t) c vb = V2P pg OR PTE_FLAGS ?v OR PTE_P" using t(4) [of vb] sp by simp
        then have fr: "frame_of (mem t) c vb = pg" using pf(1) by (simp add: frame_of_def)
        have "mem t (pg + z) = mem s (?fr + z)" if z: "z < PGSIZE" for z
        proof -
          have "mem t (pg + z) = mem ?w (pg + z)"
            by (rule keep [OF some(4) _ pgn(1) in_page_add [OF z]]) (use pgn(2) in \<open>simp add: footprint_def\<close>)
          also have "\<dots> = mem u (?fr + z)" using z by (simp add: copy_page_def)
          also have "\<dots> = mem s (?fr + z)" by (rule page_out [OF C(4) okf(2) uf(2) frF in_page_add [OF z]])
          finally show ?thesis .
        qed
        then show ?thesis using lp lt fr pf(2,3) flags_present [OF v(2)] by (simp add: mapped_def)
      qed
      have old: "mapped (mem t) c vb \<and> PTE_FLAGS (lookup (mem t) c vb) = PTE_FLAGS (lookup (mem s) p vb) \<and>
          (\<forall>z. z < PGSIZE \<longrightarrow> mem t (frame_of (mem t) c vb + z) = mem s (frame_of (mem s) p vb + z))" if d: "D vb" "\<not> same_page i vb" for vb
      proof -
        have lt: "lookup (mem t) c vb = lookup (mem u) c vb" using t(4) [of vb] d(2) lw [of vb] by simp
        then have fr: "frame_of (mem t) c vb = frame_of (mem u) c vb" by (simp add: frame_of_def)
        note ufu = user_frame_page [OF vm_invD(2) [OF C(1)] Cons.prems(4) [OF d(1)] C(6) [OF d(1)]]
        let ?q = "frame_of (mem u) c vb"
        have q: "?q \<notin> insert c (tables (mem ?w) c)" "?q \<notin> G" using ufu(3,4) P(4) vm_invD(3) [OF C(1)] by auto
        have "mem t (?q + z) = mem s (frame_of (mem s) p vb + z)" if z: "z < PGSIZE" for z
        proof -
          have "mem t (?q + z) = mem ?w (?q + z)"
            by (rule keep [OF ufu(2) q(1) _ in_page_add [OF z]]) (use q(2) in simp)
          also have "\<dots> = mem u (?q + z)"
          proof -
            have "?m (?q + z) = mem u (?q + z)"
              by (rule page_out [OF so _ ufu(2) _ in_page_add [OF z]]) (use some(2,4) q(2) in auto)
            then show ?thesis by simp
          qed
          also have "\<dots> = mem s (frame_of (mem s) p vb + z)" by (rule C(8) [OF d(1) z])
          finally show ?thesis .
        qed
        then show ?thesis using lt fr C(6,7) [OF d(1)] by (simp add: mapped_def)
      qed
      have cp: "copied kend kp s F p c (\<lambda>vb. D vb \<or> same_page i vb) t G'"
      proof -
        have "footprint (mem t) c = F - G'" using t(2,5) P(3) C(2,3) some(2) by auto
        moreover have "lookup (mem t) c vb = kp vb" if "\<not> (D vb \<or> same_page i vb)" for vb
          using that t(4) [of vb] lw [of vb] C(5) [of vb] by simp
        ultimately show ?thesis unfolding copied_def using t(2,3) C(2) sot new old by blast
      qed
      have "\<exists>r t' G''. copyuvm_loop kend p c is t = (Ret r, t') \<and>
        (r = c \<and> copied kend kp s F p c (\<lambda>vb. (D vb \<or> same_page i vb) \<or> (\<exists>i\<in>set is. same_page i vb)) t' G'' \<or>
         r = 0 \<and> kfree_pages kend t' F \<and> same_outside F (mem s) (mem t'))"
      proof (rule Cons.IH [OF _ _ cp])
        show "j < KERNBASE \<and> unat j mod 4096 = 0 \<and> mapped (mem s) p j \<and> \<not> (D j \<or> same_page i j)" if "j \<in> set is" for j
        proof -
          have "j \<noteq> i" using that Cons.prems(2) by auto
          then have "\<not> same_page i j" using same_page_aligned [of i j] i(2) Cons.prems(1) [of j] that by auto
          then show ?thesis using Cons.prems(1) [of j] that by simp
        qed
        show "distinct is" using Cons.prems(2) by simp
        show "vb < KERNBASE" if "D vb \<or> same_page i vb" for vb using that Cons.prems(4) i(1) same_page_user [of i vb] by blast
      qed
      moreover have "copyuvm_loop kend p c (i # is) u = copyuvm_loop kend p c is t" unfolding step' using t(1) by (simp add: kop_defs)
      moreover have "(\<lambda>vb. (D vb \<or> same_page i vb) \<or> (\<exists>i\<in>set is. same_page i vb)) = (\<lambda>vb. D vb \<or> (\<exists>j\<in>set (i # is). same_page j vb))" by auto
      ultimately show ?thesis by (simp only:)
    qed
  qed
qed

lemma copyuvm_exec:
  assumes s: "vm_inv kend s F p" and kend: "KERNBASE < kend" and data: "data_ok data_start" and sz: "unat sz \<le> 0x80000000"
    and pm: "\<And>vb. in_range 0 (unat sz) vb \<Longrightarrow> mapped (mem s) p vb"
  shows "\<exists>r t F'. copyuvm kend data_start p sz s = (Ret r, t) \<and>
    (r \<noteq> 0 \<and> copied kend (kernel_pte (kmap_table data_start) (\<lambda>_. 0)) s F p r (in_range 0 (unat sz)) t F' \<or>
     r = 0 \<and> kfree_pages kend t F \<and> same_outside F (mem s) (mem t))"
proof -
  let ?kp = "kernel_pte (kmap_table data_start) (\<lambda>_. 0)"
  note I = vm_invD [OF s]
  obtain c t F' where t: "setupkvm kend data_start s = (Ret c, t)" "same_outside F (mem s) (mem t)"
    "c \<noteq> 0 \<and> vm_inv kend t F' c \<and> F' \<subseteq> F \<and> footprint (mem t) c = F - F' \<and> (\<forall>vb. lookup (mem t) c vb = ?kp vb) \<or>
     c = 0 \<and> kfree_pages kend t F"
    using setupkvm_exec [OF I(1) kend data] by blast
  show ?thesis
  proof (cases "c = 0")
    case True
    then show ?thesis using t by (auto simp: copyuvm_def kop_defs)
  next
    case False
    then have cp: "copied kend ?kp s F p c (\<lambda>_. False) t F'" using t(2,3) by (simp add: copied_def)
    have al: "unat (0 :: u32) mod 4096 = 0" by simp
    note P = page_range_props [OF sz al]
    have ex: "copyuvm kend data_start p sz s = copyuvm_loop kend p c (page_range 0 sz) t"
      using t(1) False by (simp add: copyuvm_def kop_defs)
    have pl: "i < KERNBASE \<and> unat i mod 4096 = 0 \<and> mapped (mem s) p i \<and> \<not> False" if "i \<in> set (page_range 0 sz)" for i
    proof -
      have r: "in_range 0 (unat sz) i" using P(3) [of i] that same_page_refl [of i] by (simp del: same_page_refl) blast
      then show ?thesis using pm [OF r] in_range_user [OF r sz] P(2) [of i] that by simp
    qed
    have "\<exists>r u G'. copyuvm_loop kend p c (page_range 0 sz) t = (Ret r, u) \<and>
      (r = c \<and> copied kend ?kp s F p c (\<lambda>vb. False \<or> (\<exists>i\<in>set (page_range 0 sz). same_page i vb)) u G' \<or>
       r = 0 \<and> kfree_pages kend u F \<and> same_outside F (mem s) (mem u))"
      by (rule copyuvm_loop_spec [OF s kend kernel_pte_user [OF _ data] pl P(1) cp _ False]) simp_all
    moreover have "(\<lambda>vb. False \<or> (\<exists>i\<in>set (page_range 0 sz). same_page i vb)) = in_range 0 (unat sz)"
      using P(3) by (intro ext) simp
    ultimately show ?thesis using ex False by auto
  qed
qed

section \<open>Copying out to user pages\<close>

lemma word_in_page:
  assumes "page_ok kend v" and "in_page v a"
  shows "in_page v (a AND NOT 3)"
proof -
  note v = page_ok_unat [OF assms(1)]
  have a: "unat v \<le> unat a" "unat a < unat v + 4096" using assms(2) v page_offset [of v a] by (simp_all add: in_page_def)
  have "unat (a AND NOT 3) = unat a - unat a mod 4"
  proof -
    have "a AND NOT (mask 2) = push_bit 2 (drop_bit 2 a)" 
    proof (rule bit_word_eqI)
      fix n assume "n < LENGTH(32)"
      show "bit (a AND NOT (mask 2)) n = bit (push_bit 2 (drop_bit 2 a)) n"
      proof (cases "n < 2")
        case False
        then obtain k where "n = 2 + k" using le_Suc_ex not_less by blast
        then show ?thesis by (simp add: bit_simps conj_commute)
      qed (simp add: bit_simps)
    qed
    moreover have "unat (push_bit 2 (drop_bit 2 a)) = unat a div 4 * 4"
    proof -
      have "unat (drop_bit 2 a) = unat a div 4" by (simp add: drop_bit_eq_div unat_div)
      moreover have "unat a div 4 * 4 < 2 ^ 32" using unsigned_less [of a, where ?'a = nat] by (simp add: le_less_trans [OF div_times_less_eq_dividend])
      ultimately show ?thesis by (simp add: push_bit_eq_mult unat_word_ariths mult.commute)
    qed
    ultimately show ?thesis by (simp add: mask_eq_exp_minus_1 minus_mod_eq_div_mult)
  qed
  moreover obtain i where i: "unat v = 4096 * i" using v by (auto simp: mod_eq_0_iff_dvd elim!: dvdE)
  moreover have "4096 * i \<le> unat a - unat a mod 4"
  proof -
    have "4 * (1024 * i) div 4 \<le> unat a div 4" by (rule div_le_mono) (use a(1) i in simp)
    then have "1024 * i \<le> unat a div 4" by simp
    then show ?thesis unfolding minus_mod_eq_div_mult by simp
  qed
  ultimately show ?thesis using a v page_offset [of v "a AND NOT 3"] by (simp add: in_page_def)
qed

lemma put_bytes_outside:
  assumes "page_ok kend v" and "\<And>k. k < length bs \<Longrightarrow> in_page v (a + of_nat k)"
  shows "same_outside {v} m (put_bytes a bs m)"
  using assms(2)
proof (induction bs arbitrary: a m)
  case Nil
  then show ?case by (simp add: same_outside_def)
next
  case (Cons b bs)
  have "in_page v (a AND NOT 3)" using word_in_page [OF assms(1)] Cons.prems [of 0] by simp
  then have "same_outside {v} m (put_byte a b m)" by (simp add: put_byte_def Let_def store_outside)
  moreover have "same_outside {v} (put_byte a b m) (put_bytes (a + 1) bs (put_byte a b m))"
    using Cons.prems [of "Suc k" for k] by (intro Cons.IH) (simp add: algebra_simps)
  ultimately show ?case using same_outside_trans [of "{v}" m "put_byte a b m" "{v}" _ "{v}"] by simp
qed

lemma uva2ka_exec:
  assumes "has_table (mem s) d va"
  shows "uva2ka d va s = (Ret (if mapped (mem s) d va \<and> lookup (mem s) d va AND PTE_U \<noteq> 0 then frame_of (mem s) d va else 0), s)"
  using assms unfolding uva2ka_def by (simp add: kbind_def kget_def walk_lookup kret_def mapped_def lookup_def frame_of_def)

text \<open>The pages of \<^verbatim>\<open>[va, va + len)\<close> that a user program may access.\<close>

definition user_ok :: "(u32 \<Rightarrow> u32) \<Rightarrow> u32 \<Rightarrow> u32 \<Rightarrow> bool" where
  "user_ok m d vb \<longleftrightarrow> mapped m d vb \<and> lookup m d vb AND PTE_U \<noteq> 0"

definition byte_range :: "u32 \<Rightarrow> nat \<Rightarrow> u32 \<Rightarrow> bool" where
  "byte_range va len vb \<longleftrightarrow> unat va \<le> unat vb \<and> unat vb < unat va + len"

lemma has_table_same: "same_page va vb \<Longrightarrow> has_table m d va = has_table m d vb"
  using has_table_cong [of va vb m d] by (simp add: same_page_indices)

lemma copyout_loop_spec:
  assumes "vm_inv kend s F d" and "unat va + length buf \<le> 0x80000000"
    and "\<And>vb. byte_range va (length buf) vb \<Longrightarrow> has_table (mem s) d vb"
  shows "\<exists>r t. copyout_loop d va buf s = (Ret r, t) \<and> vm_inv kend t F d \<and> same_outside (user_pages (mem s) d) (mem s) (mem t) \<and>
    (\<forall>vb. lookup (mem t) d vb = lookup (mem s) d vb) \<and>
    (r = 0 \<and> (\<forall>vb. byte_range va (length buf) vb \<longrightarrow> user_ok (mem s) d vb) \<or>
     r = - 1 \<and> (\<exists>vb. byte_range va (length buf) vb \<and> \<not> user_ok (mem s) d vb))"
  using assms
proof (induction d va buf arbitrary: s rule: copyout_loop.induct)
  case (1 d va buf)
  note I = vm_invD [OF "1.prems"(1)] note W = vm_wfD [OF I(2)]
  show ?case
  proof (cases "buf = []")
    case True
    then show ?thesis using "1.prems"(1) by (auto simp: copyout_loop.simps kret_def same_outside_def byte_range_def)
  next
    case False
    let ?b = "PGROUNDDOWN va" and ?n = "copy_chunk va (length buf)"
    have ub: "unat ?b = unat va div 4096 * 4096" by (rule unat_PGROUNDDOWN)
    have va: "unat va < 0x80000000" using "1.prems"(2) False by (cases buf) simp_all
    have sp: "same_page ?b va" by (simp add: same_page_def ub)
    have bK: "va < KERNBASE" "?b < KERNBASE" using va ub by (simp_all add: user_nat) 
    have r0: "byte_range va (length buf) va" using False by (simp add: byte_range_def)
    have ht: "has_table (mem s) d ?b" using "1.prems"(3) [OF r0] has_table_same [OF sp, of "mem s" d] by simp
    have cong: "lookup (mem s) d vb = lookup (mem s) d ?b \<and> user_ok (mem s) d vb = user_ok (mem s) d ?b \<and> frame_of (mem s) d vb = frame_of (mem s) d ?b" if "same_page ?b vb" for vb
      using lookup_cong [OF that, of "mem s" d] by (simp add: user_ok_def mapped_def frame_of_def)
    have uv: "uva2ka d ?b s = (Ret (if user_ok (mem s) d ?b then frame_of (mem s) d ?b else 0), s)"
      using uva2ka_exec [OF ht] by (simp add: user_ok_def)
    show ?thesis
    proof (cases "user_ok (mem s) d ?b")
      case no: False
      then have "copyout_loop d va buf s = (Ret (- 1), s)" using uv False by (subst copyout_loop.simps) (simp add: kop_defs)
      moreover have "\<not> user_ok (mem s) d va" using cong [OF sp] no by simp
      ultimately show ?thesis using r0 "1.prems"(1) by (auto simp: same_outside_def)
    next
      case yes: True
      let ?f = "frame_of (mem s) d ?b"
      have m: "mapped (mem s) d ?b" using yes by (simp add: user_ok_def)
      note uf = user_frame_page [OF I(2) bK(2) m]
      have f0: "?f \<noteq> 0" by (rule page_ok_nonzero [OF uf(2)])
      let ?a = "?f + (va - ?b)"
      let ?s = "s\<lparr>mem := put_bytes ?a (take ?n buf) (mem s)\<rparr>"
      have n: "?n = min (4096 - unat va mod 4096) (length buf)" by (rule copy_chunk_eq)
      have np: "0 < ?n" using copy_chunk_pos [of "length buf" va] False by simp
      have inp: "in_page ?f (?a + of_nat k)" if "k < length (take ?n buf)" for k
      proof -
        have k: "unat va mod 4096 + k < 4096" "k < 4096" using that n by auto
        have "unat (va - ?b + of_nat k) = unat va mod 4096 + k"
          using k page_offset_unat [of va] by (simp add: unat_word_ariths unat_of_nat take_bit_eq_mod)
        then have "va - ?b + of_nat k < PGSIZE" using k(1) by (simp only: word_less_nat_alt) simp
        moreover have "?a + of_nat k - ?f = va - ?b + of_nat k" by simp
        ultimately show ?thesis unfolding in_page_def by (simp only:)
      qed
      have so1: "same_outside {?f} (mem s) (mem ?s)" 
        using put_bytes_outside [where v = ?f and bs = "take ?n buf" and a = ?a and m = "mem s", OF uf(2) inp] by simp
      have okf: "\<forall>v\<in>footprint (mem s) d. page_ok kend v" "\<forall>v\<in>{?f}. page_ok kend v" using W(1) uf(2) by auto
      have dj: "insert d (tables (mem s) d) \<inter> {?f} = {}" using uf(3) by auto
      note fr = footprint_frame [OF so1 okf dj]
      have fF: "{?f} \<inter> F = {}" using uf(4) I(3) by auto
      have inv: "vm_inv kend ?s F d"
        using kfree_pages_mem [OF I(1) _ okf(2) fF, of "mem ?s"] so1 vm_wf_frame [OF so1 I(2) okf(2) dj] fr(10) I(3) by (simp add: vm_inv_def)
      have step: "copyout_loop d va buf s = copyout_loop d (?b + PGSIZE) (drop ?n buf) ?s"
        using uv yes f0 False by (subst copyout_loop.simps) (simp add: kop_defs upd_mem_def Let_def)
      have nb: "unat (?b + PGSIZE) = unat ?b + 4096" using va ub by (simp add: unat_word_ariths)
      have split: "unat va = unat ?b + unat va mod 4096" using ub by simp
      have rest: "byte_range va (length buf) vb \<longleftrightarrow> byte_range va ?n vb \<or> byte_range (?b + PGSIZE) (length (drop ?n buf)) vb" for vb
      proof (cases "length buf \<le> 4096 - unat va mod 4096")
        case True
        then show ?thesis using n by (auto simp: byte_range_def)
      next
        case l: False
        then have "?n = 4096 - unat va mod 4096" using n by simp
        moreover have "unat va mod 4096 < 4096" by simp
        ultimately have "unat va + ?n = unat (?b + PGSIZE)" "?n + length (drop ?n buf) = length buf"
          using split nb l by auto
        then show ?thesis unfolding byte_range_def by linarith
      qed
      have chunk: "same_page ?b vb" if "byte_range va ?n vb" for vb
      proof -
        have "?n \<le> 4096 - unat va mod 4096" using n by simp
        then have "unat ?b \<le> unat vb" "unat vb < unat ?b + 4096" using that split by (auto simp: byte_range_def)
        then have "unat vb div 4096 = unat va div 4096" unfolding ub by (intro div_nat_eqI) simp_all
        then show ?thesis using ub by (simp add: same_page_def)
      qed
      have le: "unat (?b + PGSIZE) + length (drop ?n buf) \<le> 0x80000000 \<or> drop ?n buf = []"
      proof (cases "length buf \<le> 4096 - unat va mod 4096")
        case False
        then have "?n = 4096 - unat va mod 4096" using n by simp
        moreover have "unat va mod 4096 < 4096" by simp
        ultimately show ?thesis using split nb "1.prems"(2) False by simp
      qed (use n in simp)
      have IH: "\<exists>r t. copyout_loop d (?b + PGSIZE) (drop ?n buf) ?s = (Ret r, t) \<and> vm_inv kend t F d \<and>
        same_outside (user_pages (mem ?s) d) (mem ?s) (mem t) \<and> (\<forall>vb. lookup (mem t) d vb = lookup (mem ?s) d vb) \<and>
        (r = 0 \<and> (\<forall>vb. byte_range (?b + PGSIZE) (length (drop ?n buf)) vb \<longrightarrow> user_ok (mem ?s) d vb) \<or>
         r = - 1 \<and> (\<exists>vb. byte_range (?b + PGSIZE) (length (drop ?n buf)) vb \<and> \<not> user_ok (mem ?s) d vb))"
      proof (cases "drop ?n buf = []")
        case True
        then show ?thesis unfolding True using inv by (subst copyout_loop.simps) (auto simp: kret_def same_outside_def byte_range_def)
      next
        case ne: False
        show ?thesis
        proof (rule "1.IH" [OF False f0 refl inv])
          show "unat (?b + PGSIZE) + length (drop ?n buf) \<le> 0x80000000" using le ne by simp
          show "has_table (mem ?s) d vb" if "byte_range (?b + PGSIZE) (length (drop ?n buf)) vb" for vb
            using "1.prems"(3) [of vb] rest [of vb] that fr(2) by simp
        qed
      qed
      have uo: "user_ok (mem ?s) d vb = user_ok (mem s) d vb" for vb using fr(5,6) by (simp add: user_ok_def)
      obtain r t where t: "copyout_loop d (?b + PGSIZE) (drop ?n buf) ?s = (Ret r, t)" "vm_inv kend t F d"
        "same_outside (user_pages (mem s) d) (mem ?s) (mem t)" "\<And>vb. lookup (mem t) d vb = lookup (mem s) d vb"
        "r = 0 \<and> (\<forall>vb. byte_range (?b + PGSIZE) (length (drop ?n buf)) vb \<longrightarrow> user_ok (mem s) d vb) \<or>
         r = - 1 \<and> (\<exists>vb. byte_range (?b + PGSIZE) (length (drop ?n buf)) vb \<and> \<not> user_ok (mem s) d vb)"
        using IH unfolding uo fr(5) fr(9) by blast
      have "same_outside (user_pages (mem s) d) (mem s) (mem t)" by (rule same_outside_trans [OF so1 t(3)]) (use uf(1) in auto)
      moreover have "user_ok (mem s) d vb" if "byte_range va ?n vb" for vb using cong [OF chunk [OF that]] yes by simp
      ultimately show ?thesis unfolding step t(1) rest using t(2,4,5) by blast
    qed
  qed
qed

section \<open>Properties\<close>

text \<open>
  C3. \<^verbatim>\<open>fork\<close>'s copy of an address space is faithful and isolated.  For every size up to
  \<open>KERNBASE\<close> whose pages are mapped, \<^verbatim>\<open>copyuvm\<close> does not panic; it writes only pages that were
  free, so the parent's memory and translation stay as they were.  Either it returns 0 and every
  page it took is free again, or it returns a directory whose pages are disjoint from the parent's,
  in which each user page has the parent's permission bits and contents in a frame of its own and
  every other address has the kernel's mapping.
\<close>

theorem copyuvm_isolates:
  assumes "vm_inv kend s F p" and "KERNBASE < kend" and "data_ok data_start" and "unat sz \<le> 0x80000000"
    and "\<And>vb. in_range 0 (unat sz) vb \<Longrightarrow> mapped (mem s) p vb"
  shows "\<exists>r t F'. copyuvm kend data_start p sz s = (Ret r, t) \<and>
    same_outside F (mem s) (mem t) \<and> (\<forall>vb. lookup (mem t) p vb = lookup (mem s) p vb) \<and>
    (r = 0 \<and> kfree_pages kend t F \<or>
     r \<noteq> 0 \<and> vm_inv kend t F' r \<and> F' \<subseteq> F \<and> footprint (mem t) r = F - F' \<and> footprint (mem t) r \<inter> footprint (mem t) p = {} \<and>
     (\<forall>vb. if in_range 0 (unat sz) vb
       then mapped (mem t) r vb \<and> PTE_FLAGS (lookup (mem t) r vb) = PTE_FLAGS (lookup (mem t) p vb) \<and>
         frame_of (mem t) r vb \<noteq> frame_of (mem t) p vb \<and>
         (\<forall>x < PGSIZE. mem t (frame_of (mem t) r vb + x) = mem t (frame_of (mem t) p vb + x))
       else lookup (mem t) r vb = kernel_pte (kmap_table data_start) (\<lambda>_. 0) vb))"
proof -
  note I = vm_invD [OF assms(1)]
  obtain r t F' where t: "copyuvm kend data_start p sz s = (Ret r, t)"
    "r \<noteq> 0 \<and> copied kend (kernel_pte (kmap_table data_start) (\<lambda>_. 0)) s F p r (in_range 0 (unat sz)) t F' \<or>
     r = 0 \<and> kfree_pages kend t F \<and> same_outside F (mem s) (mem t)"
    using copyuvm_exec [OF assms] by blast
  have so: "same_outside F (mem s) (mem t)" using t(2) copiedD(4) by blast
  have okf: "\<forall>v\<in>footprint (mem s) p. page_ok kend v" "\<forall>v\<in>F. page_ok kend v" using vm_wfD(1) [OF I(2)] kfree_pages_ok [OF I(1)] by auto
  have dj: "insert p (tables (mem s) p) \<inter> F = {}" using I(3) by (auto simp: footprint_def)
  note f = footprint_frame [OF so okf dj]
  show ?thesis
  proof (cases "r = 0")
    case True
    then show ?thesis using t so f(5) by blast
  next
    case False
    then have c: "copied kend (kernel_pte (kmap_table data_start) (\<lambda>_. 0)) s F p r (in_range 0 (unat sz)) t F'" using t(2) by blast
    note C = copiedD [OF c]
    have page: "frame_of (mem t) r vb \<noteq> frame_of (mem t) p vb \<and>
        (\<forall>x < PGSIZE. mem t (frame_of (mem t) r vb + x) = mem t (frame_of (mem t) p vb + x))" if "in_range 0 (unat sz) vb" for vb
    proof -
      have u: "vb < KERNBASE" by (rule in_range_user [OF that assms(4)])
      note uf = user_frame_page [OF I(2) u assms(5) [OF that]]
      note ur = user_frame_page [OF vm_invD(2) [OF C(1)] u C(6) [OF that]]
      have nF: "frame_of (mem s) p vb \<notin> F" using uf(4) I(3) by blast
      then have ne: "frame_of (mem t) r vb \<noteq> frame_of (mem t) p vb" using ur(4) C(3) f(7) by auto
      have "mem t (frame_of (mem t) p vb + x) = mem s (frame_of (mem s) p vb + x)" if "x < PGSIZE" for x
        using page_out [OF so okf(2) uf(2) nF in_page_add [OF that]] f(7) by simp
      then show ?thesis using ne C(8) [OF that] by simp
    qed
    have "footprint (mem t) r \<inter> footprint (mem t) p = {}" using C(3) f(10) I(3) by auto
    then show ?thesis using t(1) so f(5) False C(1-3) C(5-7) page by (intro exI [of _ r] exI [of _ t] exI [of _ F']) simp
  qed
qed

lemma one_page_space:
  "\<exists>s F. vm_inv 0x80108000 s F 0x80400000 \<and> mapped (mem s) 0x80400000 0 \<and>
     (\<forall>vb. in_range 0 4096 vb \<longrightarrow> mapped (mem s) 0x80400000 vb) \<and> (\<forall>vb. \<not> in_range 0 4096 vb \<longrightarrow> \<not> mapped (mem s) 0x80400000 vb) \<and>
     lookup (mem s) 0x80400000 0 AND PTE_U \<noteq> 0 \<and> has_table (mem s) 0x80400000 0"
proof -
  let ?s = "two_pages\<lparr>freelist := 0x80300000\<rparr>"
  have ok: "page_ok 0x80108000 0x80400000" "page_ok 0x80108000 0x80200000" by (simp_all add: page_ok_iff)
  have z: "mem ?s x = 0" if "in_page 0x80400000 x" for x
  proof -
    have "in_page 0x80200000 0x80200000" by (simp add: in_page_def const_defs)
    then have "x \<noteq> 0x80200000" using page_disj [OF ok(1,2) _ that] by auto
    then show ?thesis by (simp add: two_pages_def)
  qed
  note e = empty_dir [OF ok(1) z]
  have "kfree_pages 0x80108000 ?s {0x80300000}"
    unfolding kfree_pages_def by (rule exI [of _ "[0x80300000]"]) (simp add: kmem_inv_def two_pages_def page_ok_iff)
  then have inv: "vm_inv 0x80108000 ?s {0x80300000} 0x80400000" using e(2,3) by (simp add: vm_inv_def)
  have um: "\<not> mapped (mem ?s) 0x80400000 0" using e(1) by (simp add: mapped_def)
  have fl: "unat (PTE_W OR PTE_U) < 4096" by (simp add: PTE_W_def PTE_U_def)
  have pg: "0x80200000 \<notin> {0x80300000 :: u32}" "0x80200000 \<notin> footprint (mem ?s) 0x80400000" using e(2) by simp_all
  have k: "(0 :: u32) < KERNBASE" by (simp add: const_defs)
  obtain t F' where t: "vm_inv 0x80108000 t F' 0x80400000"
    "\<And>vb. lookup (mem t) 0x80400000 vb = (if same_page 0 vb then V2P 0x80200000 OR (PTE_W OR PTE_U) OR PTE_P else lookup (mem ?s) 0x80400000 vb)"
    using map_one_user [OF inv k um ok(2) pg fl] by auto
  have r: "in_range 0 4096 vb \<longleftrightarrow> same_page 0 vb" for vb by (auto simp: in_range_def same_page_def div_eq_0_iff)
  have m: "mapped (mem t) 0x80400000 vb \<longleftrightarrow> same_page 0 vb" for vb
    using t(2) [of vb] e(1) by (simp add: mapped_def V2P_def const_defs PTE_W_def PTE_U_def PTE_P_def)
  moreover have "lookup (mem t) 0x80400000 0 AND PTE_U \<noteq> 0"
    using t(2) [of 0] by (simp add: V2P_def const_defs PTE_W_def PTE_U_def PTE_P_def)
  moreover have "has_table (mem t) 0x80400000 0" using m [of 0] mapped_table by simp
  ultimately show ?thesis using t(1) r by (intro exI [of _ t] exI [of _ F']) simp
qed

theorem copyuvm_isolates_witness:
  "\<exists>s F r t. vm_inv 0x80108000 s F 0x80400000 \<and> mapped (mem s) 0x80400000 0 \<and>
     copyuvm 0x80108000 0x80109000 0x80400000 4096 s = (Ret r, t) \<and> lookup (mem t) 0x80400000 0 = lookup (mem s) 0x80400000 0"
proof -
  obtain s F where s: "vm_inv 0x80108000 s F 0x80400000" "mapped (mem s) 0x80400000 0"
    "\<And>vb. in_range 0 4096 vb \<Longrightarrow> mapped (mem s) 0x80400000 vb"
    using one_page_space by blast
  have "KERNBASE < (0x80108000 :: u32)" "data_ok 0x80109000" by (simp_all add: const_defs data_ok_def)
  from copyuvm_isolates [OF s(1) this, of 4096] s show ?thesis by auto
qed

text \<open>
  C4. Growing an address space.  A size of \<open>KERNBASE\<close> or more is refused with 0, a smaller size
  than the old one changes nothing.  Otherwise, when nothing is mapped above the old size,
  \<^verbatim>\<open>allocuvm\<close> does not panic.  On success every page between the old and the new size is mapped
  writable and accessible to the user in a zeroed frame that was free, all other translations are
  unchanged, and only the directory, its tables and pages that were free are written.  On failure
  it returns 0 and the user mapping is exactly the old one.
\<close>

theorem allocuvm_correct:
  "(KERNBASE \<le> newsz \<longrightarrow> allocuvm kend d oldsz newsz s = (Ret 0, s)) \<and>
   (newsz < KERNBASE \<and> newsz < oldsz \<longrightarrow> allocuvm kend d oldsz newsz s = (Ret oldsz, s)) \<and>
   (newsz < KERNBASE \<and> oldsz \<le> newsz \<and> vm_inv kend s F d \<and> KERNBASE < kend \<and>
      (\<forall>vb. in_range (unat (PGROUNDUP oldsz)) (unat newsz) vb \<longrightarrow> \<not> mapped (mem s) d vb) \<longrightarrow>
    (\<exists>r t F'. allocuvm kend d oldsz newsz s = (Ret r, t) \<and> vm_inv kend t F' d \<and> F' \<subseteq> F \<and>
       footprint (mem t) d = footprint (mem s) d \<union> (F - F') \<and> same_outside (insert d (tables (mem s) d \<union> F)) (mem s) (mem t) \<and>
       (r = newsz \<and>
          (\<forall>vb. if in_range (unat (PGROUNDUP oldsz)) (unat newsz) vb
            then mapped (mem t) d vb \<and> PTE_FLAGS (lookup (mem t) d vb) = PTE_W OR PTE_U OR PTE_P \<and> frame_of (mem t) d vb \<in> F \<and>
              (\<forall>x. in_page (frame_of (mem t) d vb) x \<longrightarrow> mem t x = 0)
            else lookup (mem t) d vb = lookup (mem s) d vb) \<or>
        r = 0 \<and> user_pages (mem t) d = user_pages (mem s) d \<and>
          (\<forall>vb. mapped (mem t) d vb = mapped (mem s) d vb \<and> (mapped (mem s) d vb \<longrightarrow> lookup (mem t) d vb = lookup (mem s) d vb)))))"
proof (intro conjI impI)
  assume a: "newsz < KERNBASE \<and> oldsz \<le> newsz \<and> vm_inv kend s F d \<and> KERNBASE < kend \<and>
      (\<forall>vb. in_range (unat (PGROUNDUP oldsz)) (unat newsz) vb \<longrightarrow> \<not> mapped (mem s) d vb)"
  then obtain r t F' where t: "allocuvm kend d oldsz newsz s = (Ret r, t)"
    "r = newsz \<and> grown kend d s F {} (in_range (unat (PGROUNDUP oldsz)) (unat newsz)) t F' \<or> r = 0 \<and> restored kend d s F t F'"
    using allocuvm_exec [of kend s F d newsz oldsz] by blast
  from t(2) show "\<exists>r t F'. allocuvm kend d oldsz newsz s = (Ret r, t) \<and> vm_inv kend t F' d \<and> F' \<subseteq> F \<and>
       footprint (mem t) d = footprint (mem s) d \<union> (F - F') \<and> same_outside (insert d (tables (mem s) d \<union> F)) (mem s) (mem t) \<and>
       (r = newsz \<and>
          (\<forall>vb. if in_range (unat (PGROUNDUP oldsz)) (unat newsz) vb
            then mapped (mem t) d vb \<and> PTE_FLAGS (lookup (mem t) d vb) = PTE_W OR PTE_U OR PTE_P \<and> frame_of (mem t) d vb \<in> F \<and>
              (\<forall>x. in_page (frame_of (mem t) d vb) x \<longrightarrow> mem t x = 0)
            else lookup (mem t) d vb = lookup (mem s) d vb) \<or>
        r = 0 \<and> user_pages (mem t) d = user_pages (mem s) d \<and>
          (\<forall>vb. mapped (mem t) d vb = mapped (mem s) d vb \<and> (mapped (mem s) d vb \<longrightarrow> lookup (mem t) d vb = lookup (mem s) d vb)))"
  proof
    assume g: "r = newsz \<and> grown kend d s F {} (in_range (unat (PGROUNDUP oldsz)) (unat newsz)) t F'"
    then have "same_outside (insert d (tables (mem s) d \<union> (F - F'))) (mem s) (mem t)" by (simp add: grown_def)
    then have "same_outside (insert d (tables (mem s) d \<union> F)) (mem s) (mem t)" unfolding same_outside_def by blast
    then show ?thesis using g t(1) by (intro exI [of _ r] exI [of _ t] exI [of _ F']) (simp add: grown_def)
  next
    assume "r = 0 \<and> restored kend d s F t F'"
    then show ?thesis using t(1) by (intro exI [of _ r] exI [of _ t] exI [of _ F']) (simp add: restored_def)
  qed
qed (auto simp: allocuvm_def kret_def)

theorem allocuvm_correct_witness:
  "allocuvm 0x80108000 0x80400000 0 0x80000000 two_pages = (Ret 0, two_pages) \<and>
   allocuvm 0x80108000 0x80400000 0x2000 0x1000 two_pages = (Ret 0x2000, two_pages) \<and>
   (\<exists>s F r t. vm_inv 0x80108000 s F 0x80400000 \<and> mapped (mem s) 0x80400000 0 \<and>
      allocuvm 0x80108000 0x80400000 0x1000 0x3000 s = (Ret r, t) \<and> mapped (mem t) 0x80400000 0)"
proof (intro conjI)
  show "allocuvm 0x80108000 0x80400000 0 0x80000000 two_pages = (Ret 0, two_pages)"
    using allocuvm_correct [of "0x80000000" "0x80108000" "0x80400000" 0 two_pages] by (simp add: const_defs)
  show "allocuvm 0x80108000 0x80400000 0x2000 0x1000 two_pages = (Ret 0x2000, two_pages)"
    using allocuvm_correct [of "0x1000" "0x80108000" "0x80400000" "0x2000" two_pages] by (simp add: const_defs)
  obtain s F where s: "vm_inv 0x80108000 s F 0x80400000" "mapped (mem s) 0x80400000 0"
    "\<And>vb. \<not> in_range 0 4096 vb \<Longrightarrow> \<not> mapped (mem s) 0x80400000 vb"
    using one_page_space by blast
  have k: "KERNBASE < (0x80108000 :: u32)" "(0x3000 :: u32) < KERNBASE" "(0x1000 :: u32) \<le> 0x3000" by (simp_all add: const_defs)
  have up: "PGROUNDUP 0x1000 = 0x1000" by (simp add: PGROUNDUP_def const_defs)
  have un: "\<not> mapped (mem s) 0x80400000 vb" if "in_range (unat (PGROUNDUP 0x1000)) (unat (0x3000 :: u32)) vb" for vb
    using that s(3) [of vb] by (simp add: up in_range_def)
  have n0: "\<not> in_range (unat (PGROUNDUP 0x1000)) (unat (0x3000 :: u32)) 0" by (simp add: up in_range_def)
  have pre: "(0x3000 :: u32) < KERNBASE \<and> (0x1000 :: u32) \<le> 0x3000 \<and> vm_inv 0x80108000 s F 0x80400000 \<and> KERNBASE < (0x80108000 :: u32) \<and>
      (\<forall>vb. in_range (unat (PGROUNDUP 0x1000)) (unat (0x3000 :: u32)) vb \<longrightarrow> \<not> mapped (mem s) 0x80400000 vb)"
    using s(1) k un by blast
  note a = allocuvm_correct [of "0x3000" "0x80108000" "0x80400000" "0x1000" s F, THEN conjunct2, THEN conjunct2, rule_format, OF pre]
  obtain r t where t: "allocuvm 0x80108000 0x80400000 0x1000 0x3000 s = (Ret r, t)"
    "lookup (mem t) 0x80400000 0 = lookup (mem s) 0x80400000 0 \<or> mapped (mem t) 0x80400000 0 = mapped (mem s) 0x80400000 0"
    using a n0 by (elim exE conjE disjE) (force dest: spec [of _ 0])+
  then have "mapped (mem t) 0x80400000 0" using s(2) by (auto simp: mapped_def)
  then show "\<exists>s F r t. vm_inv 0x80108000 s F 0x80400000 \<and> mapped (mem s) 0x80400000 0 \<and>
      allocuvm 0x80108000 0x80400000 0x1000 0x3000 s = (Ret r, t) \<and> mapped (mem t) 0x80400000 0"
    using s t(1) by blast
qed

text \<open>The pages that shrinking from \<open>oldsz\<close> to \<open>newsz\<close> gives up.\<close>

definition dropped :: "(u32 \<Rightarrow> u32) \<Rightarrow> u32 \<Rightarrow> u32 \<Rightarrow> u32 \<Rightarrow> u32 \<Rightarrow> bool" where
  "dropped m d oldsz newsz vb \<longleftrightarrow> newsz < oldsz \<and> in_range (unat (PGROUNDUP newsz)) (unat oldsz) vb \<and> mapped m d vb"

text \<open>
  C5. Shrinking an address space.  For sizes up to \<open>KERNBASE\<close>, \<^verbatim>\<open>deallocuvm\<close> terminates without
  panic and returns the smaller size; exactly the mapped pages from the new size rounded up to the
  old size lose their entry and their frames go to the free list, each once; every other
  translation is unchanged, and only page tables and the freed frames are written.
\<close>

theorem deallocuvm_correct:
  assumes "vm_inv kend s F d" and "KERNBASE < kend" and "unat oldsz \<le> 0x80000000"
  shows "\<exists>t. deallocuvm kend d oldsz newsz s = (Ret (min oldsz newsz), t) \<and>
    vm_inv kend t (F \<union> frame_of (mem s) d ` {vb. dropped (mem s) d oldsz newsz vb}) d \<and>
    (\<forall>vb. lookup (mem t) d vb = (if dropped (mem s) d oldsz newsz vb then 0 else lookup (mem s) d vb)) \<and>
    same_outside (tables (mem s) d \<union> frame_of (mem s) d ` {vb. dropped (mem s) d oldsz newsz vb}) (mem s) (mem t)"
proof -
  obtain t where t: "deallocuvm kend d oldsz newsz s = (Ret (if oldsz \<le> newsz then oldsz else newsz), t)"
    "deallocated kend d (unat (PGROUNDUP newsz)) (if oldsz \<le> newsz then 0 else unat oldsz) s F t"
    using deallocuvm_exec [OF assms(1-3)] by blast
  have g: "dropped (mem s) d oldsz newsz vb \<longleftrightarrow> in_range (unat (PGROUNDUP newsz)) (if oldsz \<le> newsz then 0 else unat oldsz) vb \<and> mapped (mem s) d vb" for vb
    by (auto simp: dropped_def in_range_def not_le)
  have fr: "freed (mem s) d (unat (PGROUNDUP newsz)) (if oldsz \<le> newsz then 0 else unat oldsz) = frame_of (mem s) d ` {vb. dropped (mem s) d oldsz newsz vb}"
    unfolding freed_def g by auto
  have "min oldsz newsz = (if oldsz \<le> newsz then oldsz else newsz)" by (simp add: min_def)
  then show ?thesis using t unfolding deallocated_def Let_def fr g by auto
qed

theorem deallocuvm_correct_witness:
  "\<exists>s F t. vm_inv 0x80108000 s F 0x80400000 \<and> mapped (mem s) 0x80400000 0 \<and>
     deallocuvm 0x80108000 0x80400000 4096 0 s = (Ret 0, t) \<and> lookup (mem t) 0x80400000 0 = 0"
proof -
  obtain s F where s: "vm_inv 0x80108000 s F 0x80400000" "mapped (mem s) 0x80400000 0"
    using one_page_space by blast
  have k: "KERNBASE < (0x80108000 :: u32)" "unat (4096 :: u32) \<le> 0x80000000" by (simp_all add: const_defs)
  have up: "PGROUNDUP 0 = 0" by (simp add: PGROUNDUP_def const_defs)
  have r: "in_range 0 4096 0" by (simp add: in_range_def)
  show ?thesis using deallocuvm_correct [OF s(1) k(1) k(2), of 0] s r by (auto simp: up dropped_def)
qed

text \<open>
  C6. Kernel address spaces.  From any well-formed free list \<^verbatim>\<open>setupkvm\<close> does not panic: it
  returns 0 with every page free again, or a directory whose translation is exactly the kernel
  map of \<^verbatim>\<open>kmap\<close>, with nothing mapped below \<open>KERNBASE\<close>.  \<^verbatim>\<open>freevm\<close> of that directory gives every page
  back: the free list has the pages it had before.
\<close>

theorem setupkvm_freevm_roundtrip:
  assumes "kfree_pages kend s F" and "KERNBASE < kend" and "data_ok data_start"
  shows "\<exists>r t. setupkvm kend data_start s = (Ret r, t) \<and>
    (r = 0 \<and> kfree_pages kend t F \<or>
     r \<noteq> 0 \<and> r \<in> F \<and> (\<forall>vb. lookup (mem t) r vb = kernel_pte (kmap_table data_start) (\<lambda>_. 0) vb) \<and>
     (\<forall>vb. vb < KERNBASE \<longrightarrow> \<not> mapped (mem t) r vb) \<and>
     (\<exists>u. freevm kend r t = (Ret (), u) \<and> kfree_pages kend u F \<and> same_outside F (mem s) (mem u)))"
proof -
  obtain r t F' where t: "setupkvm kend data_start s = (Ret r, t)" "same_outside F (mem s) (mem t)"
    "r \<noteq> 0 \<and> vm_inv kend t F' r \<and> F' \<subseteq> F \<and> footprint (mem t) r = F - F' \<and>
       (\<forall>vb. lookup (mem t) r vb = kernel_pte (kmap_table data_start) (\<lambda>_. 0) vb) \<or> r = 0 \<and> kfree_pages kend t F"
    using setupkvm_exec [OF assms] by blast
  show ?thesis
  proof (cases "r = 0")
    case True
    then show ?thesis using t by blast
  next
    case False
    then have v: "vm_inv kend t F' r" "F' \<subseteq> F" "footprint (mem t) r = F - F'"
      "\<And>vb. lookup (mem t) r vb = kernel_pte (kmap_table data_start) (\<lambda>_. 0) vb" using t(3) by blast+
    obtain u where u: "freevm kend r t = (Ret (), u)" "kfree_pages kend u (F' \<union> footprint (mem t) r)"
      "same_outside (footprint (mem t) r) (mem t) (mem u)" using freevm_exec [OF v(1) assms(2)] by blast
    have "kfree_pages kend u F" using u(2) v(2,3) by (simp add: Un_absorb1)
    moreover have "same_outside F (mem s) (mem u)" by (rule same_outside_trans [OF t(2) u(3)]) (use v(3) in auto)
    moreover have "\<not> mapped (mem t) r vb" if "vb < KERNBASE" for vb using kernel_pte_user [OF that assms(3)] v(4) by (simp add: mapped_def)
    moreover have "r \<in> F" using v(3) by (auto simp: footprint_def)
    ultimately show ?thesis using t(1) u(1) False v(4) by blast
  qed
qed

theorem setupkvm_freevm_roundtrip_witness:
  "\<exists>r t. kfree_pages 0x80108000 two_pages {0x80200000, 0x80300000} \<and> setupkvm 0x80108000 0x80109000 two_pages = (Ret r, t)"
proof -
  have k: "kfree_pages 0x80108000 two_pages {0x80200000, 0x80300000}"
    using two_pages_inv by (force simp: kfree_pages_def)
  have "KERNBASE < (0x80108000 :: u32)" "data_ok 0x80109000" by (simp_all add: const_defs data_ok_def)
  from setupkvm_freevm_roundtrip [OF k this] k show ?thesis by blast
qed



end
