(* ===== verification/Console.thy ===== *)
theory Console
  imports Kernel_Prelude
begin

text \<open>
  The console (\<^verbatim>\<open>console.c\<close>): the screen, the line editor run by the keyboard and serial
  interrupts, and the reader's side of the input buffer.

  The screen is the array \<open>crt\<close> of character cells and the cursor register \<open>crt_pos\<close>; bytes sent
  to the serial line, if there is one, are recorded in \<open>uart_out\<close>; the delay loop of
  \<^verbatim>\<open>uartputc\<close> is left out.  An interrupt handler receives the list of the
  non-negative values its \<^verbatim>\<open>getc\<close> returns before the first negative one.  The lock
  \<^verbatim>\<open>cons.lock\<close> makes each handler one step.  A processor that finds \<^verbatim>\<open>panicked\<close> set
  stops, like one that panics.
\<close>

definition INPUT_BUF :: nat where
  [const_defs]: "INPUT_BUF = 128"

definition BACKSPACE :: int where
  [const_defs]: "BACKSPACE = 0x100"

record console =
  inp_buf :: "nat \<Rightarrow> u8"
  inp_r :: u32
  inp_w :: u32
  inp_e :: u32
  crt :: "int \<Rightarrow> u16"
  crt_pos :: int
  has_uart :: bool
  uart_out :: "u8 list"
  panicked :: bool

section \<open>Output\<close>

definition cga_advance :: "int \<Rightarrow> int \<Rightarrow> (int \<Rightarrow> u16) \<Rightarrow> int \<times> (int \<Rightarrow> u16)" where
  "cga_advance c pos m =
     (if c = 10 then (pos + (80 - pos mod 80), m)
      else if c = BACKSPACE then (if pos > 0 then pos - 1 else pos, m)
      else (pos + 1, m(pos := (of_int c AND 0xFF) OR 0x0700)))"

definition cga_scroll :: "int \<Rightarrow> (int \<Rightarrow> u16) \<Rightarrow> int \<times> (int \<Rightarrow> u16)" where
  "cga_scroll pos m =
     (if 24 \<le> pos div 80 then
        let up = (\<lambda>i. if 0 \<le> i \<and> i < 23 * 80 then m (i + 80) else m i)
        in (pos - 80, \<lambda>i. if pos - 80 \<le> i \<and> i < 24 * 80 then 0 else up i)
      else (pos, m))"

definition cgaputc :: "int \<Rightarrow> (console, unit) kop" where
  "cgaputc c = (\<lambda>s. let (pos, m) = cga_advance c (crt_pos s) (crt s) in
     if pos < 0 \<or> pos > 25 * 80 then (Panic ''pos under/overflow'', s\<lparr>crt := m\<rparr>)
     else let (pos', m') = cga_scroll pos m
          in (Ret (), s\<lparr>crt := m'(pos' := 0x0720), crt_pos := pos'\<rparr>))"

definition uartputc :: "int \<Rightarrow> (console, unit) kop" where
  "uartputc c = kmod (\<lambda>s. if has_uart s then s\<lparr>uart_out := uart_out s @ [of_int c]\<rparr> else s)"

definition consputc :: "int \<Rightarrow> (console, unit) kop" where
  "consputc c = kbind (kget panicked) (\<lambda>p.
     if p then panic ''panicked''
     else kseq (if c = BACKSPACE then kseq (uartputc 8) (kseq (uartputc 32) (uartputc 8)) else uartputc c)
            (cgaputc c))"

fun consolewrite_loop :: "u8 list \<Rightarrow> (console, unit) kop" where
  "consolewrite_loop [] = kret ()"
| "consolewrite_loop (b # bs) = kseq (consputc (uint b)) (consolewrite_loop bs)"

section \<open>The line editor\<close>

definition inp_at :: "console \<Rightarrow> u32 \<Rightarrow> u8" where
  "inp_at s i = inp_buf s (unat i mod INPUT_BUF)"

text \<open>Kill line: at most \<^verbatim>\<open>input.e - input.w\<close> rounds, since every round moves \<^verbatim>\<open>e\<close> towards \<^verbatim>\<open>w\<close>.\<close>

fun kill_loop :: "nat \<Rightarrow> (console, unit) kop" where
  "kill_loop 0 = kret ()"
| "kill_loop (Suc n) =
     kbind (kget (\<lambda>s. inp_e s \<noteq> inp_w s \<and> inp_at s (inp_e s - 1) \<noteq> 10)) (\<lambda>b.
     if b then kseq (kmod (\<lambda>s. s\<lparr>inp_e := inp_e s - 1\<rparr>)) (kseq (consputc BACKSPACE) (kill_loop n))
     else kret ())"

definition insert_char :: "int \<Rightarrow> (console, bool) kop" where
  "insert_char c0 = (let c = if c0 = 13 then 10 else c0 in
     kseq (kmod (\<lambda>s. s\<lparr>inp_buf := (inp_buf s)(unat (inp_e s) mod INPUT_BUF := of_int c), inp_e := inp_e s + 1\<rparr>)) (
     kseq (consputc c) (
     kbind (kget (\<lambda>s. c = 10 \<or> c = 4 \<or> inp_e s = inp_r s + of_nat INPUT_BUF)) (\<lambda>b.
     if b then kseq (kmod (\<lambda>s. s\<lparr>inp_w := inp_e s\<rparr>)) (kret True) else kret False))))"

text \<open>One round of the loop: the result says whether sleeping readers are woken up.\<close>

definition intr_char :: "int \<Rightarrow> (console, bool) kop" where
  "intr_char c =
     (if c = 16 then kret False
      else if c = 21 then kseq (kbind (kget (\<lambda>s. unat (inp_e s - inp_w s))) kill_loop) (kret False)
      else if c = 8 \<or> c = 0x7F then
        kbind (kget (\<lambda>s. inp_e s \<noteq> inp_w s)) (\<lambda>b.
        if b then kseq (kmod (\<lambda>s. s\<lparr>inp_e := inp_e s - 1\<rparr>)) (kseq (consputc BACKSPACE) (kret False))
        else kret False)
      else kbind (kget (\<lambda>s. c \<noteq> 0 \<and> inp_e s - inp_r s < of_nat INPUT_BUF)) (\<lambda>b.
        if b then insert_char c else kret False))"

text \<open>
  The result is whether the process listing was asked for and the channels that were woken up.
\<close>

fun consoleintr_loop :: "int list \<Rightarrow> bool \<Rightarrow> chan list \<Rightarrow> (console, bool \<times> chan list) kop" where
  "consoleintr_loop [] doprocdump wk = kret (doprocdump, wk)"
| "consoleintr_loop (c # cs) doprocdump wk =
     kbind (intr_char c) (\<lambda>w.
     consoleintr_loop cs (doprocdump \<or> c = 16) (if w then wk @ [ChanInput] else wk))"

definition consoleintr :: "int list \<Rightarrow> (console, bool \<times> chan list) kop" where
  "consoleintr cs = consoleintr_loop cs False []"

section \<open>Reading\<close>

text \<open>
  The loop of \<^verbatim>\<open>consoleread\<close> with the bytes stored so far.  A sleeping reader keeps them and
  starts the loop again when it is woken up.
\<close>

datatype cread = CDone "u8 list" | CKilled | CSleep "u8 list"

fun consoleread_loop :: "bool \<Rightarrow> nat \<Rightarrow> u8 list \<Rightarrow> (console, cread) kop" where
  "consoleread_loop killed 0 acc = kret (CDone acc)"
| "consoleread_loop killed (Suc n) acc =
     kbind (kget (\<lambda>s. inp_r s = inp_w s)) (\<lambda>em.
     if em then kret (if killed then CKilled else CSleep acc)
     else kbind (kget (\<lambda>s. inp_at s (inp_r s))) (\<lambda>c.
       kseq (kmod (\<lambda>s. s\<lparr>inp_r := inp_r s + 1\<rparr>)) (
       if c = 4 then kseq (if acc \<noteq> [] then kmod (\<lambda>s. s\<lparr>inp_r := inp_r s - 1\<rparr>) else kret ()) (kret (CDone acc))
       else if c = 10 then kret (CDone (acc @ [c]))
       else consoleread_loop killed n (acc @ [c]))))"

section \<open>The keyboard\<close>

text \<open>
  \<^verbatim>\<open>kbdgetc\<close> sees a scan code, or none when the controller's status register shows no data; its
  static variable \<^verbatim>\<open>shift\<close> is the state.  The maps are those of \<^verbatim>\<open>kbd.h\<close>, entries that are not
  listed there being 0.
\<close>

definition SHIFT :: u8 where [const_defs]: "SHIFT = 1"
definition CTL :: u8 where [const_defs]: "CTL = 2"
definition ALT :: u8 where [const_defs]: "ALT = 4"
definition CAPSLOCK :: u8 where [const_defs]: "CAPSLOCK = 8"
definition NUMLOCK :: u8 where [const_defs]: "NUMLOCK = 16"
definition SCROLLLOCK :: u8 where [const_defs]: "SCROLLLOCK = 32"
definition E0ESC :: u8 where [const_defs]: "E0ESC = 64"

definition assoc :: "(u8 \<times> u8) list \<Rightarrow> u8 \<Rightarrow> u8" where
  "assoc t k = (case map_of t k of Some v \<Rightarrow> v | None \<Rightarrow> 0)"

definition row :: "u8 list \<Rightarrow> u8 \<Rightarrow> u8" where
  "row t k = (if unat k < length t then t ! unat k else 0)"

definition bytes_of :: "string \<Rightarrow> u8 list" where
  "bytes_of cs = map (\<lambda>c. of_nat (of_char c)) cs"

definition ctl_of :: "char \<Rightarrow> u8" where
  "ctl_of c = of_nat (of_char c) - 64"

definition shiftcode :: "u8 \<Rightarrow> u8" where
  "shiftcode = assoc [(0x1D, CTL), (0x2A, SHIFT), (0x36, SHIFT), (0x38, ALT), (0x9D, CTL), (0xB8, ALT)]"

definition togglecode :: "u8 \<Rightarrow> u8" where
  "togglecode = assoc [(0x3A, CAPSLOCK), (0x45, NUMLOCK), (0x46, SCROLLLOCK)]"

text \<open>The cursor and editing keys, the same in the three maps.\<close>

definition special_keys :: "(u8 \<times> u8) list" where
  "special_keys =
     [(0xC8, 0xE2), (0xD0, 0xE3), (0xC9, 0xE6), (0xD1, 0xE7), (0xCB, 0xE4), (0xCD, 0xE5),
      (0x97, 0xE0), (0xCF, 0xE1), (0xD2, 0xE8), (0xD3, 0xE9)]"

definition normalmap :: "u8 \<Rightarrow> u8" where
  "normalmap k = (if unat k < 0x58 then
      row ([0, 0x1B] @ bytes_of ''1234567890-='' @ [8, 9] @ bytes_of ''qwertyuiop[]'' @ [10, 0] @
           bytes_of ''asdfghjkl;'' @ [39, 96, 0, 92] @ bytes_of ''zxcvbnm,./'' @ [0] @ bytes_of ''*'' @ [0, 32] @
           replicate 13 0 @ bytes_of ''789-456+1230.'' @ [0, 0, 0, 0]) k
    else assoc ([(0x9C, 10), (0xB5, 47)] @ special_keys) k)"

definition shiftmap :: "u8 \<Rightarrow> u8" where
  "shiftmap k = (if unat k < 0x58 then
      row ([0, 0x1B] @ bytes_of ''!@#$%^&*()_+'' @ [8, 9] @ bytes_of ''QWERTYUIOP{}'' @ [10, 0] @
           bytes_of ''ASDFGHJKL:'' @ [34, 126, 0, 124] @ bytes_of ''ZXCVBNM<>?'' @ [0] @ bytes_of ''*'' @ [0, 32] @
           replicate 13 0 @ bytes_of ''789-456+1230.'' @ [0, 0, 0, 0]) k
    else assoc ([(0x9C, 10), (0xB5, 47)] @ special_keys) k)"

definition ctlmap :: "u8 \<Rightarrow> u8" where
  "ctlmap k = (if unat k < 0x38 then
      row (replicate 16 0 @ map ctl_of ''QWERTYUIOP'' @ [0, 0, 13, 0] @ map ctl_of ''ASDFGHJKL'' @
           [0, 0, 0, 0, 28] @ map ctl_of ''ZXCVBNM'' @ [0, 0, ctl_of CHR ''/'', 0, 0]) k
    else assoc ([(0x9C, 13), (0xB5, ctl_of CHR ''/'')] @ special_keys) k)"

definition kbd_lookup :: "u8 \<Rightarrow> u8 \<Rightarrow> int \<times> u8" where
  "kbd_lookup data shift0 = (let
      sh = (shift0 OR shiftcode data) XOR togglecode data;
      k = sh AND (CTL OR SHIFT);
      c = (if k = 0 then normalmap else if k = SHIFT then shiftmap else ctlmap) data;
      c' = (if sh AND CAPSLOCK \<noteq> 0 then
              if 97 \<le> c \<and> c \<le> 122 then c - 32 else if 65 \<le> c \<and> c \<le> 90 then c + 32 else c
            else c)
    in (uint c', sh))"

definition kbdgetc :: "u8 option \<Rightarrow> u8 \<Rightarrow> int \<times> u8" where
  "kbdgetc port shift = (case port of
      None \<Rightarrow> (- 1, shift)
    | Some data \<Rightarrow>
        if data = 0xE0 then (0, shift OR E0ESC)
        else if data AND 0x80 \<noteq> 0 then
          (let d = if shift AND E0ESC \<noteq> 0 then data else data AND 0x7F
           in (0, shift AND NOT (shiftcode d OR E0ESC)))
        else if shift AND E0ESC \<noteq> 0 then kbd_lookup (data OR 0x80) (shift AND NOT E0ESC)
        else kbd_lookup data shift)"

text \<open>The values \<^verbatim>\<open>kbdgetc\<close> gives \<^verbatim>\<open>consoleintr\<close> for the scan codes waiting in the controller.\<close>

fun kbd_getcs :: "u8 list \<Rightarrow> u8 \<Rightarrow> int list \<times> u8" where
  "kbd_getcs [] shift = ([], shift)"
| "kbd_getcs (d # ds) shift = (let (c, sh) = kbdgetc (Some d) shift; (cs, sh') = kbd_getcs ds sh in (c # cs, sh'))"

definition kbdintr :: "u8 list \<Rightarrow> u8 \<Rightarrow> (console, (bool \<times> chan list) \<times> u8) kop" where
  "kbdintr codes shift = (let (cs, sh) = kbd_getcs codes shift in
     kbind (consoleintr cs) (\<lambda>r. kret (r, sh)))"

section \<open>Rings with an edit position\<close>

context ring
begin

lemma unat_span:
  assumes "unat (w - r :: u32) + unat (e - w) \<le> N"
  shows "unat (e - r) = unat (w - r) + unat (e - w)"
proof -
  have "e - r = (w - r) + (e - w)" by simp
  then have "unat (e - r) = (unat (w - r) + unat (e - w)) mod 2 ^ 32" by (simp only: unat_word_ariths) simp
  then show ?thesis using assms N_small by simp
qed

lemma contents_append:
  assumes "unat (w - r :: u32) + unat (e - w) \<le> N"
  shows "ring_contents N buf r e = ring_contents N buf r w @ ring_contents N buf w e"
proof (rule nth_equalityI)
  note u = unat_span [OF assms]
  then show "length (ring_contents N buf r e) = length (ring_contents N buf r w @ ring_contents N buf w e)"
    by (simp add: length_contents)
  fix i assume "i < length (ring_contents N buf r e)"
  then have i: "i < unat (w - r) + unat (e - w)" by (simp add: length_contents u)
  show "ring_contents N buf r e ! i = (ring_contents N buf r w @ ring_contents N buf w e) ! i"
  proof (cases "i < unat (w - r)")
    case True
    then show ?thesis using i u by (simp add: nth_append length_contents) (simp add: ring_contents_def)
  next
    case False
    then have "(of_nat i :: u32) = (w - r) + of_nat (i - unat (w - r))" by (simp add: of_nat_diff)
    then have "r + of_nat i = w + of_nat (i - unat (w - r))" by simp
    moreover have "i - unat (w - r) < unat (e - w)" using i False by arith
    ultimately show ?thesis using i u False
      by (simp add: nth_append length_contents) (simp add: ring_contents_def add.commute)
  qed
qed

lemma contents_past:
  assumes "unat (w - r :: u32) + unat (e - w) < N"
  shows "ring_contents N (buf(unat e mod N := x)) r w = ring_contents N buf r w"
proof -
  have "unat (r + of_nat i) mod N \<noteq> unat e mod N" if "i < unat (w - r)" for i
    using distinct_slots [of e r i] unat_span [of w r e] assms that by simp
  then show ?thesis by (simp add: ring_contents_def)
qed

lemma contents_drop_last:
  assumes "w \<noteq> (e :: u32)"
  shows "ring_contents N buf w e = ring_contents N buf w (e - 1) @ [buf (unat (e - 1) mod N)]" "unat (e - w) = Suc (unat (e - 1 - w))"
proof -
  have "e - w \<noteq> 0" using assms by simp
  then have "unat (e - w - 1) = unat (e - w) - 1" and p: "0 < unat (e - w)" by (simp_all add: unat_minus_one unat_gt_0)
  then show u: "unat (e - w) = Suc (unat (e - 1 - w))" by (simp add: algebra_simps)
  have "w + of_nat (unat (e - 1 - w)) = e - 1" by simp
  then show "ring_contents N buf w e = ring_contents N buf w (e - 1) @ [buf (unat (e - 1) mod N)]"
    by (simp add: ring_contents_def u)
qed

end

interpretation cr: ring INPUT_BUF
  by unfold_locales (simp_all add: INPUT_BUF_def)

section \<open>The screen\<close>

definition cursor_ok :: "console \<Rightarrow> bool" where
  "cursor_ok s \<longleftrightarrow> 0 \<le> crt_pos s \<and> crt_pos s < 24 * 80 \<and> \<not> panicked s"

lemma cga_scroll_bounds: "0 \<le> pos \<Longrightarrow> pos \<le> 24 * 80 \<Longrightarrow> 0 \<le> fst (cga_scroll pos m) \<and> fst (cga_scroll pos m) < 24 * 80"
  by (auto simp: cga_scroll_def Let_def)

lemma cga_advance_bounds:
  assumes "0 \<le> pos" and "pos < 24 * 80"
  shows "0 \<le> fst (cga_advance c pos m) \<and> fst (cga_advance c pos m) \<le> 24 * 80"
proof -
  have "pos + (80 - pos mod 80) = (pos div 80 + 1) * 80" by (simp add: algebra_simps minus_mod_eq_mult_div)
  moreover have "pos div 80 \<le> 23" using assms by simp
  ultimately have "0 \<le> pos + (80 - pos mod 80)" "pos + (80 - pos mod 80) \<le> 24 * 80" using assms by auto
  then show ?thesis using assms by (simp add: cga_advance_def)
qed

definition same_input :: "console \<Rightarrow> console \<Rightarrow> bool" where
  "same_input s t \<longleftrightarrow> inp_buf t = inp_buf s \<and> inp_r t = inp_r s \<and> inp_w t = inp_w s \<and> inp_e t = inp_e s"

lemma cgaputc_exec:
  assumes "cursor_ok s"
  shows "\<exists>t. cgaputc c s = (Ret (), t) \<and> cursor_ok t \<and> same_input s t \<and> uart_out t = uart_out s"
proof -
  obtain pos m where a: "cga_advance c (crt_pos s) (crt s) = (pos, m)" by fastforce
  have p: "0 \<le> pos" "pos \<le> 24 * 80" using cga_advance_bounds [of "crt_pos s" c "crt s"] assms a by (simp_all add: cursor_ok_def)
  obtain pos' m' where b: "cga_scroll pos m = (pos', m')" by fastforce
  have "0 \<le> pos'" "pos' < 24 * 80" using cga_scroll_bounds [OF p, of m] b by simp_all
  then show ?thesis using a b p assms by (simp add: cgaputc_def cursor_ok_def same_input_def)
qed

lemma consputc_exec:
  assumes "cursor_ok s"
  shows "\<exists>t. consputc c s = (Ret (), t) \<and> cursor_ok t \<and> same_input s t"
proof -
  obtain u where u: "(if c = BACKSPACE then kseq (uartputc 8) (kseq (uartputc 32) (uartputc 8)) else uartputc c) s = (Ret (), u)"
      "cursor_ok u" "same_input s u"
    using assms by (cases "c = BACKSPACE"; cases "has_uart s") (simp_all add: uartputc_def kop_defs cursor_ok_def same_input_def)
  obtain t where "cgaputc c u = (Ret (), t)" "cursor_ok t" "same_input u t" using cgaputc_exec [OF u(2)] by blast
  moreover have "\<not> panicked s" using assms by (simp add: cursor_ok_def)
  ultimately show ?thesis using u by (auto simp: consputc_def kop_defs same_input_def)
qed

section \<open>The line editor\<close>

definition cons_queue :: "console \<Rightarrow> u8 list" where
  "cons_queue s = ring_contents INPUT_BUF (inp_buf s) (inp_r s) (inp_w s)"

definition cons_line :: "console \<Rightarrow> u8 list" where
  "cons_line s = ring_contents INPUT_BUF (inp_buf s) (inp_w s) (inp_e s)"

definition cons_inv :: "console \<Rightarrow> bool" where
  "cons_inv s \<longleftrightarrow> cursor_ok s \<and> length (cons_queue s) + length (cons_line s) \<le> INPUT_BUF \<and> 10 \<notin> set (cons_line s)"

lemma same_input_abs: "same_input s t \<Longrightarrow> cons_queue t = cons_queue s \<and> cons_line t = cons_line s"
  by (simp add: same_input_def cons_queue_def cons_line_def)

lemma cons_lengths: "length (cons_queue s) = unat (inp_w s - inp_r s)" "length (cons_line s) = unat (inp_e s - inp_w s)"
  by (simp_all add: cons_queue_def cons_line_def cr.length_contents)

lemma rub_exec:
  assumes "cons_inv s" and "inp_e s \<noteq> inp_w s"
  shows "\<exists>t. kseq (kmod (\<lambda>s. s\<lparr>inp_e := inp_e s - 1\<rparr>)) (consputc BACKSPACE) s = (Ret (), t) \<and> cons_inv t \<and>
    cons_queue t = cons_queue s \<and> cons_line t = butlast (cons_line s) \<and> inp_w t = inp_w s \<and> inp_e t = inp_e s - 1"
proof -
  let ?u = "s\<lparr>inp_e := inp_e s - 1\<rparr>"
  have ne: "inp_w s \<noteq> inp_e s" using assms(2) by simp
  have l: "cons_line s = cons_line ?u @ [inp_buf s (unat (inp_e s - 1) mod INPUT_BUF)]"
    using cr.contents_drop_last(1) [OF ne, of "inp_buf s"] by (simp add: cons_line_def)
  have q: "cons_queue ?u = cons_queue s" by (simp add: cons_queue_def)
  have inv: "cons_inv ?u" using assms(1) l q by (auto simp: cons_inv_def cursor_ok_def)
  obtain t where t: "consputc BACKSPACE ?u = (Ret (), t)" "cursor_ok t" "same_input ?u t"
    using consputc_exec [of ?u] inv by (auto simp: cons_inv_def)
  note a = same_input_abs [OF t(3)]
  have "cons_inv t" using inv t(2) a by (simp add: cons_inv_def)
  moreover have "cons_line t = butlast (cons_line s)" using a l by simp
  ultimately show ?thesis using t a q by (intro exI [of _ t]) (simp add: kop_defs same_input_def)
qed

lemma kill_loop_exec:
  assumes "cons_inv s" and "unat (inp_e s - inp_w s) \<le> n"
  shows "\<exists>t. kill_loop n s = (Ret (), t) \<and> cons_inv t \<and> cons_queue t = cons_queue s \<and> cons_line t = []"
  using assms
proof (induction n arbitrary: s)
  case 0
  then have "cons_line s = []" using cons_lengths(2) [of s] by simp
  with 0 show ?case by (simp add: kret_def)
next
  case (Suc n)
  show ?case
  proof (cases "inp_e s = inp_w s")
    case True
    then have "cons_line s = []" by (simp add: cons_line_def ring_contents_def)
    with Suc True show ?thesis by (simp add: kop_defs)
  next
    case False
    then have ne: "inp_w s \<noteq> inp_e s" by simp
    note d = cr.contents_drop_last(1) [OF ne, of "inp_buf s"] cr.contents_drop_last(2) [OF ne]
    have "inp_at s (inp_e s - 1) \<noteq> 10" using Suc.prems(1) d(1) by (auto simp: cons_inv_def cons_line_def inp_at_def)
    moreover obtain u where u: "kseq (kmod (\<lambda>s. s\<lparr>inp_e := inp_e s - 1\<rparr>)) (consputc BACKSPACE) s = (Ret (), u)"
        "cons_inv u" "cons_queue u = cons_queue s" "inp_w u = inp_w s" "inp_e u = inp_e s - 1"
      using rub_exec [OF Suc.prems(1) False] by blast
    moreover obtain t where t: "kill_loop n u = (Ret (), t)" "cons_inv t" "cons_queue t = cons_queue u" "cons_line t = []"
      using Suc.IH [OF u(2)] Suc.prems(2) d(2) u(4,5) by auto
    ultimately show ?thesis using False u(1)
      by (intro exI [of _ t]) (simp add: kbind_def kget_def kseq_def kmod_def)
  qed
qed

text \<open>What the editor does to the committed input and the line being typed.\<close>

definition edit :: "int \<Rightarrow> u8 list \<times> u8 list \<Rightarrow> u8 list \<times> u8 list" where
  "edit c = (\<lambda>(q, l).
     if c = 16 then (q, l)
     else if c = 21 then (q, [])
     else if c = 8 \<or> c = 0x7F then (q, butlast l)
     else if c \<noteq> 0 \<and> length q + length l < INPUT_BUF then
       (let l' = l @ [of_int (if c = 13 then 10 else c)] in
        if c = 10 \<or> c = 13 \<or> c = 4 \<or> length q + length l' = INPUT_BUF then (q @ l', []) else (q, l'))
     else (q, l))"

lemma not_newline: "0 \<le> c \<Longrightarrow> c < 256 \<Longrightarrow> c \<noteq> 10 \<Longrightarrow> (of_int c :: u8) \<noteq> 10"
proof
  assume a: "0 \<le> c" "c < 256" "c \<noteq> 10" "(of_int c :: u8) = 10"
  have "uint (of_int c :: u8) = c" using a(1,2) by (simp add: uint_word_of_int)
  moreover have "uint (of_int c :: u8) = 10" unfolding a(4) by simp
  ultimately show False using a(3) by simp
qed

lemma insert_char_exec:
  assumes inv: "cons_inv s" and c: "0 \<le> c" "c < 256" "c \<noteq> 0" "c \<noteq> 16" "c \<noteq> 21" "c \<noteq> 8" "c \<noteq> 0x7F"
    and room: "length (cons_queue s) + length (cons_line s) < INPUT_BUF"
  shows "\<exists>w t. insert_char c s = (Ret w, t) \<and> cons_inv t \<and> (cons_queue t, cons_line t) = edit c (cons_queue s, cons_line s) \<and>
    w = (cons_queue t \<noteq> cons_queue s)"
proof -
  let ?c = "if c = 13 then 10 else c"
  let ?u = "s\<lparr>inp_buf := (inp_buf s)(unat (inp_e s) mod INPUT_BUF := of_int ?c), inp_e := inp_e s + 1\<rparr>"
  have l1: "unat (inp_w s - inp_r s) + unat (inp_e s - inp_w s) < INPUT_BUF" using room by (simp add: cons_lengths)
  then have l2: "unat (inp_e s - inp_w s) < INPUT_BUF" by simp
  have q: "cons_queue ?u = cons_queue s" by (simp add: cons_queue_def cr.contents_past [OF l1])
  have l: "cons_line ?u = cons_line s @ [of_int ?c]" by (simp add: cons_line_def cr.contents_put [OF l2])
  have cu: "cursor_ok ?u" using inv by (simp add: cons_inv_def cursor_ok_def)
  obtain v where v: "consputc ?c ?u = (Ret (), v)" "cursor_ok v" "same_input ?u v" using consputc_exec [OF cu] by blast
  have a: "cons_queue v = cons_queue s" "cons_line v = cons_line s @ [of_int ?c]" using same_input_abs [OF v(3)] q l by simp_all
  have len: "unat (inp_w v - inp_r v) + unat (inp_e v - inp_w v) \<le> INPUT_BUF"
    using cons_lengths [of v] a room by (simp add: cons_lengths)
  have span: "unat (inp_e v - inp_r v) = length (cons_queue v) + length (cons_line v)"
    using cr.unat_span [OF len] by (simp add: cons_lengths)
  have full: "inp_e v = inp_r v + of_nat INPUT_BUF \<longleftrightarrow> length (cons_queue s) + length (cons_line v) = INPUT_BUF"
    using cr.full_iff [of "inp_e v" "inp_r v"] span a room by simp
  let ?commit = "c = 10 \<or> c = 13 \<or> c = 4 \<or> length (cons_queue s) + length (cons_line v) = INPUT_BUF"
  have ex: "insert_char c s = (if ?commit then (Ret True, v\<lparr>inp_w := inp_e v\<rparr>) else (Ret False, v))"
    using v(1) full by (auto simp: insert_char_def Let_def kop_defs)
  show ?thesis
  proof (cases ?commit)
    case True
    let ?t = "v\<lparr>inp_w := inp_e v\<rparr>"
    have "cons_queue ?t = cons_queue v @ cons_line v"
      using cr.contents_append [OF len, of "inp_buf v"] by (simp add: cons_queue_def cons_line_def)
    moreover have "cons_line ?t = []" by (simp add: cons_line_def ring_contents_def)
    moreover have "cursor_ok ?t" using v(2) by (simp add: cursor_ok_def)
    ultimately show ?thesis using ex True a room c by (auto simp: cons_inv_def edit_def Let_def)
  next
    case False
    then have "(of_int c :: u8) \<noteq> 10" using not_newline c by auto
    then have "cons_inv v" using a v(2) room inv False by (auto simp: cons_inv_def)
    then show ?thesis using ex False a room c by (auto simp: edit_def Let_def)
  qed
qed

lemma intr_char_exec:
  assumes inv: "cons_inv s" and c: "0 \<le> c" "c < 256"
  shows "\<exists>w t. intr_char c s = (Ret w, t) \<and> cons_inv t \<and> (cons_queue t, cons_line t) = edit c (cons_queue s, cons_line s) \<and>
    w = (cons_queue t \<noteq> cons_queue s)"
proof -
  consider (P) "c = 16" | (U) "c = 21" | (H) "c = 8 \<or> c = 0x7F" | (other) "c \<noteq> 16" "c \<noteq> 21" "c \<noteq> 8" "c \<noteq> 0x7F" by blast
  then show ?thesis
  proof cases
    case P
    then show ?thesis using inv by (simp add: intr_char_def edit_def kret_def ex_bool_eq)
  next
    case U
    obtain t where "kill_loop (unat (inp_e s - inp_w s)) s = (Ret (), t)" "cons_inv t" "cons_queue t = cons_queue s" "cons_line t = []"
      using kill_loop_exec [OF inv order_refl] by blast
    then show ?thesis using U by (simp add: intr_char_def edit_def kop_defs ex_bool_eq)
  next
    case H
    show ?thesis
    proof (cases "inp_e s = inp_w s")
      case True
      then have "cons_line s = []" by (simp add: cons_line_def ring_contents_def)
      then show ?thesis using H True inv by (auto simp: intr_char_def edit_def kop_defs ex_bool_eq)
    next
      case False
      obtain t where "kseq (kmod (\<lambda>s. s\<lparr>inp_e := inp_e s - 1\<rparr>)) (consputc BACKSPACE) s = (Ret (), t)" "cons_inv t"
          "cons_queue t = cons_queue s" "cons_line t = butlast (cons_line s)"
        using rub_exec [OF inv False] by blast
      then show ?thesis using H False by (intro exI [of _ False] exI [of _ t]) (auto simp: intr_char_def edit_def kop_defs)
    qed
  next
    case other
    have len: "unat (inp_w s - inp_r s) + unat (inp_e s - inp_w s) \<le> INPUT_BUF" using inv by (simp add: cons_inv_def cons_lengths)
    have "inp_e s - inp_r s < of_nat INPUT_BUF \<longleftrightarrow> length (cons_queue s) + length (cons_line s) < INPUT_BUF"
      unfolding word_less_nat_alt cr.unat_span [OF len] by (simp add: cons_lengths INPUT_BUF_def)
    then show ?thesis using insert_char_exec [OF inv c _ other] other inv
      by (cases "c \<noteq> 0 \<and> length (cons_queue s) + length (cons_line s) < INPUT_BUF") (auto simp: intr_char_def kop_defs edit_def ex_bool_eq)
  qed
qed

lemma consoleintr_loop_exec:
  assumes "cons_inv s" and "\<And>c. c \<in> set cs \<Longrightarrow> 0 \<le> c \<and> c < 256"
  shows "\<exists>wk' t. consoleintr_loop cs d wk s = (Ret (d \<or> 16 \<in> set cs, wk @ wk'), t) \<and> cons_inv t \<and>
    (cons_queue t, cons_line t) = fold edit cs (cons_queue s, cons_line s) \<and>
    (wk' \<noteq> [] \<longleftrightarrow> length (cons_queue s) < length (cons_queue t)) \<and> set wk' \<subseteq> {ChanInput} \<and> length (cons_queue s) \<le> length (cons_queue t)"
  using assms
proof (induction cs arbitrary: s d wk)
  case Nil
  then show ?case by (simp add: kret_def)
next
  case (Cons c cs)
  obtain w u where u: "intr_char c s = (Ret w, u)" "cons_inv u" "(cons_queue u, cons_line u) = edit c (cons_queue s, cons_line s)"
      "w = (cons_queue u \<noteq> cons_queue s)"
    using intr_char_exec [OF Cons.prems(1), of c] Cons.prems(2) [of c] by auto
  have grow: "length (cons_queue s) \<le> length (cons_queue u)" "cons_queue u \<noteq> cons_queue s \<longleftrightarrow> length (cons_queue s) < length (cons_queue u)"
    using u(3) by (auto simp: edit_def Let_def split: if_splits)
  obtain wk' t where t: "consoleintr_loop cs (d \<or> c = 16) (if w then wk @ [ChanInput] else wk) u =
        (Ret ((d \<or> c = 16) \<or> 16 \<in> set cs, (if w then wk @ [ChanInput] else wk) @ wk'), t)" "cons_inv t"
      "(cons_queue t, cons_line t) = fold edit cs (cons_queue u, cons_line u)"
      "wk' \<noteq> [] \<longleftrightarrow> length (cons_queue u) < length (cons_queue t)" "set wk' \<subseteq> {ChanInput}" "length (cons_queue u) \<le> length (cons_queue t)"
    using Cons.IH [OF u(2), of "d \<or> c = 16" "if w then wk @ [ChanInput] else wk"] Cons.prems(2) by auto
  have e: "(if w then wk @ [ChanInput] else wk) @ wk' = wk @ (if w then ChanInput # wk' else wk')" by simp
  have "consoleintr_loop (c # cs) d wk s = (Ret (d \<or> 16 \<in> set (c # cs), wk @ (if w then ChanInput # wk' else wk')), t)"
    using u(1) t(1) e by (auto simp: kbind_def)
  moreover have "(cons_queue t, cons_line t) = fold edit (c # cs) (cons_queue s, cons_line s)" using t(3) u(3) by simp
  moreover have "(if w then ChanInput # wk' else wk') \<noteq> [] \<longleftrightarrow> length (cons_queue s) < length (cons_queue t)"
    using t(4,6) grow u(4) by auto
  ultimately show ?case using t(2,5,6) grow by (intro exI [of _ "if w then ChanInput # wk' else wk'"] exI [of _ t]) auto
qed

section \<open>Reading\<close>

lemma take_byte:
  assumes "cons_inv s" and "inp_r s \<noteq> inp_w s"
  shows "cons_queue s = inp_at s (inp_r s) # cons_queue (s\<lparr>inp_r := inp_r s + 1\<rparr>)" "cons_inv (s\<lparr>inp_r := inp_r s + 1\<rparr>)"
    "cons_line (s\<lparr>inp_r := inp_r s + 1\<rparr>) = cons_line s"
proof -
  show q: "cons_queue s = inp_at s (inp_r s) # cons_queue (s\<lparr>inp_r := inp_r s + 1\<rparr>)"
    using cr.contents_get [OF assms(2), of "inp_buf s"] by (simp add: cons_queue_def inp_at_def)
  show "cons_line (s\<lparr>inp_r := inp_r s + 1\<rparr>) = cons_line s" by (simp add: cons_line_def)
  then show "cons_inv (s\<lparr>inp_r := inp_r s + 1\<rparr>)" using assms(1) q by (auto simp: cons_inv_def cursor_ok_def)
qed

text \<open>
  What a read of up to \<open>n\<close> bytes does, by the committed input \<open>q\<close>: it stops after a newline,
  before an end-of-file character that follows other bytes, and otherwise takes all it can.
\<close>

fun read_line :: "bool \<Rightarrow> nat \<Rightarrow> u8 list \<Rightarrow> u8 list \<Rightarrow> cread \<times> u8 list" where
  "read_line killed 0 q acc = (CDone acc, q)"
| "read_line killed (Suc n) [] acc = (if killed then CKilled else CSleep acc, [])"
| "read_line killed (Suc n) (c # q) acc =
     (if c = 4 then (CDone acc, if acc = [] then q else c # q)
      else if c = 10 then (CDone (acc @ [c]), q)
      else read_line killed n q (acc @ [c]))"

lemma consoleread_loop_exec:
  assumes "cons_inv s"
  shows "\<exists>r t. consoleread_loop killed n acc s = (Ret r, t) \<and> cons_inv t \<and> (r, cons_queue t) = read_line killed n (cons_queue s) acc \<and>
    cons_line t = cons_line s"
  using assms
proof (induction killed n acc arbitrary: s rule: consoleread_loop.induct)
  case (1 killed acc)
  then show ?case by (simp add: kret_def)
next
  case (2 killed n acc)
  show ?case
  proof (cases "inp_r s = inp_w s")
    case True
    then have "cons_queue s = []" by (simp add: cons_queue_def ring_contents_def)
    then show ?thesis using True 2 by (simp add: kop_defs)
  next
    case False
    let ?t = "s\<lparr>inp_r := inp_r s + 1\<rparr>" and ?c = "inp_at s (inp_r s)"
    note T = take_byte [OF "2.prems" False]
    consider (eof) "?c = 4" | (nl) "?c = 10" | (go) "?c \<noteq> 4" "?c \<noteq> 10" by blast
    then show ?thesis
    proof cases
      case eof
      show ?thesis
      proof (cases "acc = []")
        case True
        then show ?thesis using eof False T by (intro exI [of _ "CDone acc"] exI [of _ ?t]) (simp add: kop_defs)
      next
        case ne: False
        have "?t\<lparr>inp_r := inp_r ?t - 1\<rparr> = s" by simp
        then show ?thesis using eof False T(1) ne "2.prems" by (intro exI [of _ "CDone acc"] exI [of _ s]) (simp add: kop_defs)
      qed
    next
      case nl
      then show ?thesis using False T by (intro exI [of _ "CDone (acc @ [?c])"] exI [of _ ?t]) (simp add: kop_defs)
    next
      case go
      have "consoleread_loop killed (Suc n) acc s = consoleread_loop killed n (acc @ [?c]) ?t"
        using False go by (simp add: kop_defs)
      moreover have "\<exists>r t. consoleread_loop killed n (acc @ [?c]) ?t = (Ret r, t) \<and> cons_inv t \<and>
          (r, cons_queue t) = read_line killed n (cons_queue ?t) (acc @ [?c]) \<and> cons_line t = cons_line ?t"
        by (rule "2.IH") (use False go T(2) in auto)
      ultimately show ?thesis using T(1,3) go by simp
    qed
  qed
qed

section \<open>Properties\<close>

text \<open>
  C27. The line discipline.  From any state in which the cursor is on the screen and the buffer
  holds at most \<open>INPUT_BUF\<close> bytes, an interrupt with any sequence of bytes leaves such a state and
  does not panic.  The committed input and the line being typed are exactly those of the editor
  \<open>edit\<close>: control-U erases the line, backspace its last byte, a byte is dropped when the buffer is
  full, and the line is committed by a newline, an end of file or a full buffer, also when the
  32-bit indices wrap.  Readers are woken up exactly when input was committed.
\<close>

theorem console_line_discipline:
  assumes "cons_inv s" and "\<And>c. c \<in> set cs \<Longrightarrow> 0 \<le> c \<and> c < 256"
  shows "\<exists>wk t. consoleintr cs s = (Ret (16 \<in> set cs, wk), t) \<and> cons_inv t \<and>
    (cons_queue t, cons_line t) = fold edit cs (cons_queue s, cons_line s) \<and>
    (ChanInput \<in> set wk \<longleftrightarrow> cons_queue t \<noteq> cons_queue s)"
proof -
  obtain wk t where t: "consoleintr_loop cs False [] s = (Ret (False \<or> 16 \<in> set cs, [] @ wk), t)" "cons_inv t"
      "(cons_queue t, cons_line t) = fold edit cs (cons_queue s, cons_line s)"
      "wk \<noteq> [] \<longleftrightarrow> length (cons_queue s) < length (cons_queue t)" "set wk \<subseteq> {ChanInput}"
    using consoleintr_loop_exec [where cs = cs and d = False and wk = "[]", OF assms] by blast
  have "\<exists>zs. fst (fold edit cs (q, l)) = q @ zs" for q l
  proof (induction cs arbitrary: q l)
    case (Cons c cs)
    have "fst (edit c (q, l)) = q \<or> fst (edit c (q, l)) = q @ l @ [of_int (if c = 13 then 10 else c)]" by (simp add: edit_def Let_def)
    then obtain ys where "fst (edit c (q, l)) = q @ ys" by auto
    then obtain q' l' where e: "edit c (q, l) = (q', l')" "q' = q @ ys" by (metis prod.collapse)
    obtain zs where "fst (fold edit cs (q', l')) = q' @ zs" using Cons by blast
    then have "fst (fold edit (c # cs) (q, l)) = q @ (ys @ zs)" using e by simp
    then show ?case by blast
  qed simp
  then obtain zs where "cons_queue t = cons_queue s @ zs" using t(3) by (metis fst_conv)
  then have "length (cons_queue s) < length (cons_queue t) \<longleftrightarrow> cons_queue t \<noteq> cons_queue s" by simp
  moreover have "ChanInput \<in> set wk \<longleftrightarrow> wk \<noteq> []" using t(5) by (cases wk) auto
  ultimately show ?thesis using t by (intro exI [of _ wk] exI [of _ t]) (simp add: consoleintr_def)
qed

definition ex_console :: console where
  "ex_console = \<lparr>inp_buf = (\<lambda>_. 0), inp_r = - 1, inp_w = - 1, inp_e = - 1, crt = (\<lambda>_. 0), crt_pos = 1919, has_uart = True, uart_out = [], panicked = False\<rparr>"

lemma ex_console_inv: "cons_inv ex_console" "cons_queue ex_console = []" "cons_line ex_console = []"
  by (simp_all add: ex_console_def cons_inv_def cursor_ok_def cons_queue_def cons_line_def ring_contents_def)

theorem console_line_discipline_witness:
  "\<exists>wk t. consoleintr [97, 98, 8, 13, 99] ex_console = (Ret (False, wk), t) \<and> cons_queue t = [97, 10] \<and> cons_line t = [99] \<and>
     ChanInput \<in> set wk"
proof -
  have f: "fold edit [97, 98, 8, 13, 99] ([], []) = ([97, 10], [99])" by (simp add: edit_def INPUT_BUF_def)
  have c: "\<And>c. c \<in> set [97, 98, 8, 13, 99 :: int] \<Longrightarrow> 0 \<le> c \<and> c < 256" by auto
  show ?thesis using console_line_discipline [OF ex_console_inv(1) c] ex_console_inv(2,3) f by fastforce
qed

text \<open>
  C28. Reading committed input.  The loop of \<^verbatim>\<open>consoleread\<close> returns exactly what \<open>read_line\<close>
  says of the committed input, leaves the rest of it and the line being typed in place, and ends in
  a well-formed state; if it has to sleep, restarting it with the bytes it has stored, after more
  input was committed, gives the result of one uninterrupted read.
\<close>

theorem consoleread_lines:
  assumes "cons_inv s"
  shows "(\<exists>r t. consoleread_loop killed n [] s = (Ret r, t) \<and> cons_inv t \<and>
            (r, cons_queue t) = read_line killed n (cons_queue s) [] \<and> cons_line t = cons_line s) \<and>
    (\<forall>acc t u. consoleread_loop False n [] s = (Ret (CSleep acc), t) \<longrightarrow> cons_inv u \<longrightarrow>
       (\<exists>r v. consoleread_loop killed (n - length acc) acc u = (Ret r, v) \<and>
          (r, cons_queue v) = read_line killed n (cons_queue s @ cons_queue u) []))"
proof (intro conjI allI impI)
  show "\<exists>r t. consoleread_loop killed n [] s = (Ret r, t) \<and> cons_inv t \<and>
            (r, cons_queue t) = read_line killed n (cons_queue s) [] \<and> cons_line t = cons_line s"
    by (rule consoleread_loop_exec [OF assms])
  fix acc t u assume a: "consoleread_loop False n [] s = (Ret (CSleep acc), t)" "cons_inv u"
  have r: "fst (read_line False n (cons_queue s) []) = CSleep acc"
    using consoleread_loop_exec [OF assms, of False n "[]"] a(1) by (auto dest: arg_cong [where f = fst])
  have res: "read_line killed n (q @ q') acc0 = read_line killed (n + length acc0 - length acc) q' acc \<and> length acc \<le> n + length acc0"
    if "fst (read_line False n q acc0) = CSleep acc" for q q' acc0
    using that
  proof (induction n arbitrary: q acc0)
    case (Suc n)
    show ?case
    proof (cases q)
      case (Cons c cs)
      then have "c \<noteq> 4" "c \<noteq> 10" "fst (read_line False n cs (acc0 @ [c])) = CSleep acc"
        using Suc.prems by (auto split: if_splits)
      then show ?thesis using Suc.IH [of cs "acc0 @ [c]"] Cons by simp
    qed (use Suc.prems in simp)
  qed simp
  show "\<exists>r v. consoleread_loop killed (n - length acc) acc u = (Ret r, v) \<and>
          (r, cons_queue v) = read_line killed n (cons_queue s @ cons_queue u) []"
    using consoleread_loop_exec [OF a(2), of killed "n - length acc" acc] res [OF r, of "cons_queue u"] by auto
qed

theorem consoleread_lines_witness:
  "\<exists>wk s t. consoleintr [97, 10, 98, 10] ex_console = (Ret (False, wk), s) \<and>
     consoleread_loop False 5 [] s = (Ret (CDone [97, 10]), t) \<and> cons_queue t = [98, 10]"
proof -
  have f: "fold edit [97, 10, 98, 10] ([], []) = ([97, 10, 98, 10], [])" by (simp add: edit_def INPUT_BUF_def)
  have c: "\<And>c. c \<in> set [97, 10, 98, 10 :: int] \<Longrightarrow> 0 \<le> c \<and> c < 256" by auto
  obtain wk s where s: "consoleintr [97, 10, 98, 10] ex_console = (Ret (False, wk), s)" "cons_inv s" "cons_queue s = [97, 10, 98, 10]"
    using consoleintr_loop_exec [where cs = "[97, 10, 98, 10]" and d = False and wk = "[]", OF ex_console_inv(1) c] ex_console_inv(2,3) f
    by (auto simp: consoleintr_def)
  have step: "read_line False (Suc (Suc n)) (97 # 10 # q) [] = (CDone [97, 10], q)" for n q by simp
  have five: "(5 :: nat) = Suc (Suc 3)" by simp
  have "read_line False 5 [97, 10, 98, 10] [] = (CDone [97, 10], [98, 10])"
    unfolding five by (rule step)
  then show ?thesis using consoleread_lines [OF s(2), of False 5, THEN conjunct1] s by auto
qed

lemma and_E0ESC: "x AND E0ESC = 0 \<longleftrightarrow> \<not> bit x 6"
  using and_exp_eq_0_iff_not_bit [of x 6] by (simp add: E0ESC_def)

lemma bit_E0ESC: "bit E0ESC n \<longleftrightarrow> n = 6"
proof -
  have e: "E0ESC = 2 ^ 6" by (simp add: E0ESC_def)
  show ?thesis unfolding e by (subst bit_exp_iff) auto
qed

lemma key_codes_E0: "\<not> bit (shiftcode d) 6" "\<not> bit (togglecode d) 6"
  by (simp_all add: shiftcode_def togglecode_def assoc_def const_defs flip: and_E0ESC)

lemma kbd_lookup_bytes: "fst (kbd_lookup d sh) \<in> {0..255}" "\<not> bit sh 6 \<Longrightarrow> \<not> bit (snd (kbd_lookup d sh)) 6"
proof -
  have "uint (x :: u8) \<in> {0..255}" for x using uint_lt2p [of x] by simp
  then show "fst (kbd_lookup d sh) \<in> {0..255}" by (simp add: kbd_lookup_def Let_def)
  show "\<not> bit sh 6 \<Longrightarrow> \<not> bit (snd (kbd_lookup d sh)) 6" using key_codes_E0 by (simp add: kbd_lookup_def Let_def bit_simps)
qed

lemma kbdgetc_byte: "fst (kbdgetc (Some d) sh) \<in> {0..255}"
  using kbd_lookup_bytes(1) by (auto simp: kbdgetc_def Let_def)


end
