(* ===== verification/Umalloc.thy ===== *)
theory Umalloc
  imports Kernel_Prelude
begin

text \<open>
  The user-level memory allocator (\<^verbatim>\<open>umalloc.c\<close>): Kernighan and Ritchie's circular list of free blocks,
  kept in address order, with first fit and merging of neighbours.

  The memory of the process is a map from word addresses to words.  A block starts with a header
  of two words, the pointer \<^verbatim>\<open>s.ptr\<close> and the size \<^verbatim>\<open>s.size\<close> in units of eight bytes.  \<open>base\<close> is
  the address of the static header \<^verbatim>\<open>base\<close>, \<open>brk\<close> the size of the process, and \<open>grant\<close> stands for
  the kernel's decision to grow the process; a call of \<^verbatim>\<open>sbrk\<close> that is granted returns the old
  size.  The scans over the circular list need not end on a damaged list: a call that does not
  return has the value \<open>None\<close>.
\<close>

section \<open>The allocator\<close>

record uheap =
  um :: "u32 \<Rightarrow> u32"
  freep :: u32
  brk :: u32

definition hptr :: "uheap \<Rightarrow> u32 \<Rightarrow> u32" where
  "hptr s p = um s p"

definition hsize :: "uheap \<Rightarrow> u32 \<Rightarrow> u32" where
  "hsize s p = um s (p + 4)"

definition set_hptr :: "u32 \<Rightarrow> u32 \<Rightarrow> uheap \<Rightarrow> uheap" where
  "set_hptr p v s = s\<lparr>um := (um s)(p := v)\<rparr>"

definition set_hsize :: "u32 \<Rightarrow> u32 \<Rightarrow> uheap \<Rightarrow> uheap" where
  "set_hsize p v s = s\<lparr>um := (um s)(p + 4 := v)\<rparr>"

definition header_size :: u32 where [const_defs]: "header_size = 8"

text \<open>The search of \<^verbatim>\<open>free\<close> for the free block before \<open>bp\<close>, and the merging of the block there.\<close>

partial_function (option) free_find :: "uheap \<Rightarrow> u32 \<Rightarrow> u32 \<Rightarrow> u32 option" where
  "free_find s bp p =
     (if p < bp \<and> bp < hptr s p then Some p
      else if hptr s p \<le> p \<and> (p < bp \<or> bp < hptr s p) then Some p
      else free_find s bp (hptr s p))"

definition free_at :: "u32 \<Rightarrow> u32 \<Rightarrow> uheap \<Rightarrow> uheap" where
  "free_at bp p s =
     (let s1 = (if bp + hsize s bp * header_size = hptr s p
                then (let t = set_hsize bp (hsize s bp + hsize s (hptr s p)) s in set_hptr bp (hptr t (hptr t p)) t)
                else set_hptr bp (hptr s p) s);
          s2 = (if p + hsize s1 p * header_size = bp
                then (let t = set_hsize p (hsize s1 p + hsize s1 bp) s1 in set_hptr p (hptr t bp) t)
                else set_hptr p bp s1)
      in s2\<lparr>freep := p\<rparr>)"

definition free :: "u32 \<Rightarrow> uheap \<Rightarrow> uheap option" where
  "free ap s = (let bp = ap - header_size in map_option (\<lambda>p. free_at bp p s) (free_find s bp (freep s)))"

text \<open>\<^verbatim>\<open>sbrk\<close> as the program sees it: the old size of the process, or -1.\<close>

definition sbrk :: "(u32 \<Rightarrow> u32 \<Rightarrow> bool) \<Rightarrow> u32 \<Rightarrow> uheap \<Rightarrow> u32 \<times> uheap" where
  "sbrk grant n s = (if grant (brk s) n then (brk s, s\<lparr>brk := brk s + n\<rparr>) else (- 1, s))"

definition morecore :: "(u32 \<Rightarrow> u32 \<Rightarrow> bool) \<Rightarrow> u32 \<Rightarrow> uheap \<Rightarrow> (u32 \<times> uheap) option" where
  "morecore grant nu s =
     (let nu = (if nu < 4096 then 4096 else nu);
          (p, s1) = sbrk grant (nu * header_size) s
      in if p = - 1 then Some (0, s1)
         else map_option (\<lambda>s2. (freep s2, s2)) (free (p + header_size) (set_hsize p nu s1)))"

text \<open>Taking \<open>nunits\<close> units from the free block \<open>p\<close>, the successor of \<open>prevp\<close>.\<close>

definition carve :: "u32 \<Rightarrow> u32 \<Rightarrow> u32 \<Rightarrow> uheap \<Rightarrow> u32 \<times> uheap" where
  "carve nunits prevp p s =
     (if hsize s p = nunits then (p + header_size, (set_hptr prevp (hptr s p) s)\<lparr>freep := prevp\<rparr>)
      else let s1 = set_hsize p (hsize s p - nunits) s;
               q = p + hsize s1 p * header_size
           in (q + header_size, (set_hsize q nunits s1)\<lparr>freep := prevp\<rparr>))"

partial_function (option) malloc_loop :: "(u32 \<Rightarrow> u32 \<Rightarrow> bool) \<Rightarrow> u32 \<Rightarrow> u32 \<Rightarrow> u32 \<Rightarrow> uheap \<Rightarrow> (u32 \<times> uheap) option" where
  "malloc_loop grant nunits prevp p s =
     (if nunits \<le> hsize s p then Some (carve nunits prevp p s)
      else if p = freep s then
        Option.bind (morecore grant nunits s) (\<lambda>(q, t).
          if q = 0 then Some (0, t) else malloc_loop grant nunits q (hptr t q) t)
      else malloc_loop grant nunits p (hptr s p) s)"

definition malloc :: "(u32 \<Rightarrow> u32 \<Rightarrow> bool) \<Rightarrow> u32 \<Rightarrow> u32 \<Rightarrow> uheap \<Rightarrow> (u32 \<times> uheap) option" where
  "malloc grant base nbytes s =
     (let nunits = (nbytes + header_size - 1) div header_size + 1;
          s1 = (if freep s = 0 then set_hsize base 0 (set_hptr base base s\<lparr>freep := base\<rparr>) else s);
          prevp = freep s1
      in malloc_loop grant nunits prevp (hptr s1 prevp) s1)"

section \<open>Free lists\<close>

text \<open>\<open>seg s xs e\<close>: the pointers lead through the blocks \<open>xs\<close> in order, and from the last to \<open>e\<close>.\<close>

fun seg :: "uheap \<Rightarrow> u32 list \<Rightarrow> u32 \<Rightarrow> bool" where
  "seg s [] e \<longleftrightarrow> True"
| "seg s (x # xs) e \<longleftrightarrow> hptr s x = hd (xs @ [e]) \<and> seg s xs e"

lemma seg_append: "seg s (xs @ ys) e \<longleftrightarrow> seg s xs (hd (ys @ [e])) \<and> seg s ys e"
  by (induction xs) (auto simp: hd_append)

lemma seg_cong: "(\<And>x. x \<in> set xs \<Longrightarrow> hptr t x = hptr s x) \<Longrightarrow> seg t xs e = seg s xs e"
  by (induction xs) auto

definition cyc :: "uheap \<Rightarrow> u32 list \<Rightarrow> bool" where
  "cyc s L \<longleftrightarrow> L \<noteq> [] \<and> seg s L (hd L)"

lemma cyc_rotate: "cyc s (xs @ ys) \<Longrightarrow> cyc s (ys @ xs)"
  by (cases xs; cases ys) (auto simp: cyc_def seg_append hd_append)

lemma cyc_split: "cyc s (xs @ p # ys) \<Longrightarrow> hptr s p = hd (ys @ xs @ [p])"
  by (cases xs; cases ys) (auto simp: cyc_def seg_append hd_append)

text \<open>The block of a header, as an interval of byte addresses.\<close>

definition lo :: "u32 \<Rightarrow> nat" where "lo a = unat a"

definition hi :: "uheap \<Rightarrow> u32 \<Rightarrow> nat" where "hi s a = unat a + 8 * unat (hsize s a)"

definition apart :: "uheap \<Rightarrow> u32 \<Rightarrow> u32 \<Rightarrow> bool" where
  "apart s a b \<longleftrightarrow> hi s a \<le> lo b \<or> hi s b \<le> lo a"

text \<open>
  The heap invariant for the free list \<open>base # fs\<close> and the set \<open>A\<close> of allocated headers: the list
  is in address order, all blocks are pairwise apart, above \<^verbatim>\<open>base\<close> and below the break, and no
  two free blocks touch.
\<close>

definition blocks_ok :: "u32 \<Rightarrow> uheap \<Rightarrow> u32 set \<Rightarrow> bool" where
  "blocks_ok base s B \<longleftrightarrow> (\<forall>a\<in>B. unat base + 8 \<le> lo a \<and> lo a + 8 \<le> hi s a \<and> hi s a \<le> unat (brk s)) \<and>
     (\<forall>a\<in>B. \<forall>b\<in>B. a \<noteq> b \<longrightarrow> apart s a b)"

definition heap_ok :: "u32 \<Rightarrow> uheap \<Rightarrow> u32 list \<Rightarrow> u32 set \<Rightarrow> bool" where
  "heap_ok base s fs A \<longleftrightarrow> base \<noteq> 0 \<and> unat base + 8 \<le> unat (brk s) \<and> unat (brk s) < 0x80000000 \<and>
     hsize s base = 0 \<and> freep s \<in> set (base # fs) \<and> cyc s (base # fs) \<and> sorted_wrt (<) (base # fs) \<and>
     blocks_ok base s (set fs \<union> A) \<and> set fs \<inter> A = {} \<and>
     (\<forall>a\<in>set fs. \<forall>b\<in>set fs. hi s a \<noteq> lo b)"

section \<open>Headers do not overlap\<close>

lemma set_simps [simp]:
  "hptr (set_hptr p v s) q = (if q = p then v else hptr s q)"
  "hsize (set_hsize p v s) q = (if q = p then v else hsize s q)"
  "hptr (set_hsize p v s) q = (if q = p + 4 then v else hptr s q)"
  "hsize (set_hptr p v s) q = (if q + 4 = p then v else hsize s q)"
  "hptr (s\<lparr>freep := f\<rparr>) q = hptr s q" "hsize (s\<lparr>freep := f\<rparr>) q = hsize s q"
  "hptr (s\<lparr>brk := b\<rparr>) q = hptr s q" "hsize (s\<lparr>brk := b\<rparr>) q = hsize s q"
  "brk (set_hptr p v s) = brk s" "brk (set_hsize p v s) = brk s"
  "freep (set_hptr p v s) = freep s" "freep (set_hsize p v s) = freep s"
  by (auto simp: hptr_def hsize_def set_hptr_def set_hsize_def)

lemma blocksD:
  assumes "blocks_ok base s B" and "a \<in> B"
  shows "unat base + 8 \<le> lo a" "lo a + 8 \<le> hi s a" "hi s a \<le> unat (brk s)"
    "\<And>b. b \<in> B \<Longrightarrow> a \<noteq> b \<Longrightarrow> apart s a b"
  using assms by (auto simp: blocks_ok_def)

lemma blocks_subset: "blocks_ok base s B \<Longrightarrow> C \<subseteq> B \<Longrightarrow> blocks_ok base s C"
  by (auto simp: blocks_ok_def)

lemma blocks_cong:
  assumes "\<And>a. a \<in> B \<Longrightarrow> hsize t a = hsize s a" and "brk t = brk s"
  shows "blocks_ok base t B = blocks_ok base s B"
  using assms by (auto simp: blocks_ok_def apart_def hi_def)

lemma lo_plus4: "unat a < 0x80000000 \<Longrightarrow> unat (a + 4 :: u32) = unat a + 4"
  by (simp add: unat_word_ariths)

lemma header_sep:
  assumes ok: "blocks_ok base s B" and brk: "unat (brk s) < 0x80000000"
    and ab: "a \<in> insert base B" "b \<in> insert base B"
  shows "a \<noteq> b + 4"
proof
  assume eq: "a = b + 4"
  have bound: "unat x < 0x80000000" if "x \<in> B" for x using blocksD(2,3) [OF ok that] brk by (simp add: lo_def)
  have base: "unat base < 0x80000000" if "x \<in> B" for x using blocksD(1) [OF ok that] bound [OF that] by (simp add: lo_def)
  have ne: "a \<noteq> b" using eq by simp
  have b: "unat b < 0x80000000" using ab base bound ne by auto
  have u: "unat a = unat b + 4" using eq lo_plus4 [OF b] by simp
  show False
  proof (cases "a = base \<or> b = base")
    case True
    then show False using ab ne u blocksD(1) [OF ok, of a] blocksD(1) [OF ok, of b] by (auto simp: lo_def)
  next
    case False
    then have "a \<in> B" "b \<in> B" using ab by auto
    then show False using blocksD(2) [OF ok, of a] blocksD(2) [OF ok, of b] blocksD(4) [OF ok, of a b] ne u
      by (auto simp: lo_def apart_def)
  qed
qed

lemma hi_merge:
  assumes "hi s x \<le> N" "hi s y \<le> N" "N < 0x80000000" and "hsize t x = hsize s x + hsize s y" and "hi s x = lo y"
  shows "hi t x = hi s y"
proof -
  have "unat (hsize s x) < 0x10000000" "unat (hsize s y) < 0x10000000" using assms(1-3) by (auto simp: hi_def)
  then have "unat (hsize t x) = unat (hsize s x) + unat (hsize s y)" using assms(4) by (simp add: unat_word_ariths)
  then show ?thesis using assms(5) by (simp add: hi_def lo_def)
qed

lemma merge_blocks:
  assumes ok: "blocks_ok base s B" and brk: "unat (brk s) < 0x80000000" "brk t = brk s"
    and xy: "x \<in> B" "y \<in> B" "x \<noteq> y" "hi s x = lo y"
    and t: "hsize t x = hsize s x + hsize s y" "\<And>a. a \<in> B \<Longrightarrow> a \<noteq> x \<Longrightarrow> a \<noteq> y \<Longrightarrow> hsize t a = hsize s a"
  shows "blocks_ok base t (B - {y})" "hi t x = hi s y"
proof -
  note bx = blocksD [OF ok xy(1)] and by' = blocksD [OF ok xy(2)]
  show hx: "hi t x = hi s y" using hi_merge [OF bx(3) by'(3) brk(1) t(1) xy(4)] .
  have ha: "hi t a = hi s a" if "a \<in> B" "a \<noteq> x" "a \<noteq> y" for a using t(2) [OF that] by (simp add: hi_def)
  have ax: "apart t a x" if a: "a \<in> B" "a \<noteq> x" "a \<noteq> y" for a
    using bx(4) [OF a(1)] by'(4) [OF a(1)] a xy(4) ha [OF a] hx blocksD(2) [OF ok a(1)] bx(2) by (auto simp: apart_def)
  have "apart t a b" if "a \<in> B - {y}" "b \<in> B - {y}" "a \<noteq> b" for a b
  proof -
    consider "a = x" | "b = x" | "a \<noteq> x" "b \<noteq> x" by blast
    then show ?thesis
    proof cases
      case 1 then show ?thesis using ax [of b] that by (auto simp: apart_def)
    next
      case 2 then show ?thesis using ax [of a] that by auto
    next
      case 3
      then show ?thesis using blocksD(4) [OF ok, of a b] ha [of a] ha [of b] that by (simp add: apart_def)
    qed
  qed
  moreover have "unat base + 8 \<le> lo a \<and> lo a + 8 \<le> hi t a \<and> hi t a \<le> unat (brk t)" if "a \<in> B - {y}" for a
    using that blocksD [OF ok, of a] ha [of a] hx bx by'(2,3) xy(4) brk by (cases "a = x") auto
  ultimately show "blocks_ok base t (B - {y})" by (auto simp: blocks_ok_def)
qed

section \<open>Where a block goes\<close>

lemma find_up:
  assumes "seg s (vs @ p # ys) e" and "sorted_wrt (<) (vs @ p # ys)" and "\<forall>x\<in>set (vs @ [p]). x < bp" and "\<forall>x\<in>set ys. bp < x"
    and "ys = [] \<Longrightarrow> e \<le> p"
  shows "free_find s bp (hd (vs @ [p])) = Some p"
  using assms
proof (induction vs)
  case Nil
  then show ?case by (cases ys) (auto simp: free_find.simps)
next
  case (Cons v vs)
  have nx: "hptr s v = hd (vs @ [p])" using Cons.prems(1) by (cases vs) auto
  moreover have "v < hd (vs @ [p])" using Cons.prems(2) by (cases vs) auto
  moreover have "hd (vs @ [p]) < bp" using Cons.prems(3) by (cases vs) auto
  ultimately have "free_find s bp v = free_find s bp (hd (vs @ [p]))" by (subst free_find.simps) auto
  then show ?case using Cons by simp
qed

lemma find_round:
  assumes "seg s ws e" and "sorted_wrt (<) ws" and "\<forall>x\<in>set ws. bp < x" and "e < bp"
  shows "free_find s bp (hd (ws @ [e])) = free_find s bp e"
  using assms
proof (induction ws)
  case (Cons w ws)
  have "hptr s w = hd (ws @ [e])" using Cons.prems(1) by simp
  moreover have "bp < w" "e < w" using Cons.prems(3,4) by auto
  moreover have "ws \<noteq> [] \<Longrightarrow> w < hd (ws @ [e])" using Cons.prems(2) by (cases ws) auto
  ultimately have "free_find s bp w = free_find s bp (hd (ws @ [e]))"
    using Cons.prems(4) by (subst free_find.simps) (cases ws; auto)
  then show ?case using Cons by simp
qed simp

lemma free_find_pred:
  assumes c: "cyc s (base # fs)" and so: "sorted_wrt (<) (base # fs)" and L: "base # fs = xs @ p # ys"
    and lt: "\<forall>x\<in>set (xs @ [p]). x < bp" and gt: "\<forall>x\<in>set ys. bp < x" and q: "q \<in> set (base # fs)"
  shows "free_find s bp q = Some p"
proof -
  have "seg s (base # fs) base" using c by (simp add: cyc_def)
  then have sg: "seg s (xs @ p # ys) base" unfolding L .
  have so': "sorted_wrt (<) (xs @ p # ys)" using so L by simp
  have hd: "hd (xs @ [p]) = base" using L by (cases xs) auto
  then have bp: "base < bp" using lt by (cases xs) auto
  have le: "base \<le> p" using so' hd by (cases xs) (auto simp: order_less_imp_le)
  have up: "free_find s bp (hd (vs @ [p])) = Some p" if "xs = us @ vs" for us vs
    using find_up [of s vs p ys base bp] sg so' lt gt le that by (auto simp: seg_append sorted_wrt_append)
  have round: "free_find s bp (hd (ws @ [base])) = Some p" if "ys = us @ ws" for us ws
    using find_round [of s ws base bp] sg so' gt bp that up [of "[]" xs] hd by (simp add: seg_append sorted_wrt_append)
  have "q \<in> set xs \<or> q = p \<or> q \<in> set ys" using q L by auto
  then show ?thesis
  proof (elim disjE)
    assume "q \<in> set xs"
    then obtain us vs where "xs = us @ q # vs" by (meson split_list)
    then show ?thesis using up [of us "q # vs"] by simp
  next
    assume "q = p"
    then show ?thesis using up [of xs "[]"] by simp
  next
    assume "q \<in> set ys"
    then obtain us vs where "ys = us @ q # vs" by (meson split_list)
    then show ?thesis using round [of us "q # vs"] by simp
  qed
qed

lemma split_at:
  assumes "sorted_wrt (<) (base # fs)" and "base < (bp :: u32)" and "bp \<notin> set fs"
  shows "\<exists>xs p ys. base # fs = xs @ p # ys \<and> (\<forall>x\<in>set (xs @ [p]). x < bp) \<and> (\<forall>x\<in>set ys. bp < x)"
  using assms
proof (induction fs arbitrary: base)
  case Nil
  then show ?case by (intro exI [of _ "[]"] exI [of _ base]) simp
next
  case (Cons f fs)
  show ?case
  proof (cases "f < bp")
    case True
    then obtain xs p ys where "f # fs = xs @ p # ys" "\<forall>x\<in>set (xs @ [p]). x < bp" "\<forall>x\<in>set ys. bp < x"
      using Cons.IH [of f] Cons.prems by auto
    then show ?thesis using Cons.prems by (intro exI [of _ "base # xs"] exI [of _ p] exI [of _ ys]) simp
  next
    case False
    then have "bp < f" using Cons.prems by auto
    then show ?thesis using Cons.prems by (intro exI [of _ "[]"] exI [of _ base] exI [of _ "f # fs"]) auto
  qed
qed

section \<open>Freeing a block\<close>

definition separate :: "u32 set \<Rightarrow> bool" where
  "separate H \<longleftrightarrow> (\<forall>a\<in>H. \<forall>b\<in>H. a \<noteq> b + 4)"

lemma separateD: "separate H \<Longrightarrow> a \<in> H \<Longrightarrow> b \<in> H \<Longrightarrow> a \<noteq> b + 4 \<and> b + 4 \<noteq> a"
  by (auto simp: separate_def)

text \<open>Both branches of a merge write one header: its pointer, and its size or the size it had.\<close>

definition header_put :: "u32 set \<Rightarrow> u32 \<Rightarrow> u32 \<Rightarrow> u32 \<Rightarrow> uheap \<Rightarrow> uheap \<Rightarrow> bool" where
  "header_put H x v w s t \<longleftrightarrow> (\<forall>a\<in>H. hptr t a = (if a = x then v else hptr s a) \<and> hsize t a = (if a = x then w else hsize s a)) \<and>
     brk t = brk s \<and> freep t = freep s \<and> (\<forall>y. y \<noteq> x \<longrightarrow> y \<noteq> x + 4 \<longrightarrow> um t y = um s y)"

lemma header_put_both: "separate H \<Longrightarrow> x \<in> H \<Longrightarrow> header_put H x v w s (set_hptr x v (set_hsize x w s))"
  by (auto simp: header_put_def set_hptr_def set_hsize_def hptr_def hsize_def dest: separateD)

lemma header_put_ptr: "separate H \<Longrightarrow> x \<in> H \<Longrightarrow> header_put H x v (hsize s x) s (set_hptr x v s)"
  by (auto simp: header_put_def set_hptr_def hptr_def hsize_def dest: separateD)

lemma header_putD:
  assumes "header_put H x v w s t" and "a \<in> H"
  shows "hptr t a = (if a = x then v else hptr s a)" "hsize t a = (if a = x then w else hsize s a)"
  using assms by (auto simp: header_put_def)

lemma free_at_steps:
  assumes sep: "separate H" and H: "bp \<in> H" "p \<in> H" "hptr s p \<in> H"
  obtains s1 s2 where "free_at bp p s = s2\<lparr>freep := p\<rparr>"
    "header_put H bp (if bp + hsize s bp * 8 = hptr s p then hptr s (hptr s p) else hptr s p)
       (if bp + hsize s bp * 8 = hptr s p then hsize s bp + hsize s (hptr s p) else hsize s bp) s s1"
    "header_put H p (if p + hsize s1 p * 8 = bp then hptr s1 bp else bp)
       (if p + hsize s1 p * 8 = bp then hsize s1 p + hsize s1 bp else hsize s1 p) s1 s2"
proof -
  let ?n = "hptr s p"
  define s1 where "s1 = (if bp + hsize s bp * 8 = ?n then set_hptr bp (hptr s ?n) (set_hsize bp (hsize s bp + hsize s ?n) s) else set_hptr bp ?n s)"
  define s2 where "s2 = (if p + hsize s1 p * 8 = bp then set_hptr p (hptr s1 bp) (set_hsize p (hsize s1 p + hsize s1 bp) s1) else set_hptr p bp s1)"
  have n: "p \<noteq> bp + 4" "?n \<noteq> bp + 4" "bp \<noteq> p + 4" using separateD [OF sep] H by blast+
  have "free_at bp p s = s2\<lparr>freep := p\<rparr>"
    using n by (simp add: free_at_def s1_def s2_def header_size_def Let_def)
  then show ?thesis
    using that [of s2 s1] header_put_both [OF sep H(1)] header_put_ptr [OF sep H(1)] header_put_both [OF sep H(2)] header_put_ptr [OF sep H(2)]
    by (simp add: s1_def s2_def)
qed

text \<open>Word arithmetic on block ends is exact below the break.\<close>

lemma block_end: "hi s a < 2 ^ 32 \<Longrightarrow> unat (a + hsize s a * 8) = hi s a"
proof -
  assume h: "hi s a < 2 ^ 32"
  have "unat (hsize s a * 8) = 8 * unat (hsize s a)" using h by (simp add: unat_word_ariths hi_def)
  then show ?thesis using h by (simp add: unat_word_ariths hi_def)
qed

lemma block_end_eq: "hi s a < 2 ^ 32 \<Longrightarrow> a + hsize s a * 8 = b \<longleftrightarrow> hi s a = lo b"
  using block_end [of s a] by (auto simp: lo_def word_unat_eq_iff)

lemma heap_okD:
  assumes "heap_ok base s fs A"
  shows "base \<noteq> 0" "unat base + 8 \<le> unat (brk s)" "unat (brk s) < 0x80000000" "hsize s base = 0" "freep s \<in> set (base # fs)"
    "cyc s (base # fs)" "sorted_wrt (<) (base # fs)" "blocks_ok base s (set fs \<union> A)" "set fs \<inter> A = {}"
    "\<And>a b. a \<in> set fs \<Longrightarrow> b \<in> set fs \<Longrightarrow> hi s a \<noteq> lo b"
  using assms by (auto simp: heap_ok_def)

lemma block_above_base: "blocks_ok base s B \<Longrightarrow> a \<in> B \<Longrightarrow> base < a"
  using blocksD(1) [of base s B a] by (simp add: lo_def word_less_nat_alt)

lemma heap_separate: "heap_ok base s fs A \<Longrightarrow> separate (insert base (set fs \<union> A))"
  using header_sep [OF heap_okD(8)] heap_okD(3) by (auto simp: separate_def)

text \<open>
  The situation of \<^verbatim>\<open>free\<close>: block \<open>bp\<close> lies between the free blocks \<open>p\<close> and \<open>hptr s p\<close>.  The
  new free list, and what each merge does to the blocks.
\<close>

lemma between_apart:
  assumes ok: "blocks_ok base s B" and B: "a \<in> B" "b \<in> B" and lt: "a < b"
  shows "hi s a \<le> lo b"
  using blocksD(4) [OF ok B] blocksD(2) [OF ok B(2)] lt by (auto simp: apart_def lo_def word_less_nat_alt)

lemma free_merge_next:
  assumes ok: "heap_ok base s fs A" and bp: "bp \<in> A" and L: "base # fs = xs @ p # ys" and gt: "\<forall>x\<in>set ys. bp < x"
    and put: "header_put (insert base (set fs \<union> A)) bp (if m1 then hptr s (hptr s p) else hptr s p)
       (if m1 then hsize s bp + hsize s (hptr s p) else hsize s bp) s s1"
    and m1: "m1 \<longleftrightarrow> hi s bp = lo (hptr s p)"
  defines "ys' \<equiv> (if m1 then tl ys else ys)"
  shows "blocks_ok base s1 (set fs \<union> A - (set ys - set ys'))" "m1 \<Longrightarrow> ys = hptr s p # ys'" "hi s bp \<le> hi s1 bp"
    "\<And>b. b \<in> set ys' \<Longrightarrow> hi s1 bp < lo b" "hptr s1 bp = hd (ys' @ [base])"
    "\<And>a. a \<in> insert base (set fs \<union> A) \<Longrightarrow> a \<noteq> bp \<Longrightarrow> hi s1 a = hi s a"
proof -
  note D = heap_okD [OF ok]
  let ?N = "hptr s p"
  have so: "sorted_wrt (<) (xs @ p # ys)" and c: "cyc s (xs @ p # ys)" using D(6,7) L by simp_all
  have hd: "hd (xs @ [p]) = base" using L by (cases xs) auto
  have N: "?N = hd (ys @ [base])" using cyc_split [OF c] hd by (cases ys) (auto simp: hd_append split: if_splits)
  have ysfs: "set ys \<subseteq> set fs" using L by (cases xs) auto
  have bpB: "bp \<in> set fs \<union> A" using bp by simp
  show hia: "\<And>a. a \<in> insert base (set fs \<union> A) \<Longrightarrow> a \<noteq> bp \<Longrightarrow> hi s1 a = hi s a"
    using header_putD(2) [OF put] by (simp add: hi_def)
  have brk1: "brk s1 = brk s" using put by (simp add: header_put_def)
  have no_base: "hi s bp \<noteq> lo base" using blocksD(1,2) [OF D(8) bpB] by (simp add: lo_def)
  show ys: "m1 \<Longrightarrow> ys = ?N # ys'" using N m1 no_base by (cases ys) (auto simp: ys'_def)
  have hs: "hsize s1 bp = (if m1 then hsize s bp + hsize s ?N else hsize s bp)" using header_putD(2) [OF put, of bp] bp by simp
  have ne: "bp \<noteq> y" if "y \<in> set ys" for y using gt that by auto
  have mid: "hi s a < lo b" if "a \<in> set ys \<or> a = bp" "b \<in> set ys'" "a < b" "hi s a = lo b \<Longrightarrow> a \<noteq> bp" for a b
  proof -
    have "b \<in> set ys" using that(2) by (cases ys) (auto simp: ys'_def split: if_splits)
    then have le: "hi s a \<le> lo b" using between_apart [OF D(8), of a b] that ysfs bpB by auto
    have "hi s a \<noteq> lo b" using D(10) [of a b] that ysfs \<open>b \<in> set ys\<close> by auto
    then show ?thesis using le by simp
  qed
  have sys: "sorted_wrt (<) ys" using so by (simp add: sorted_wrt_append)
  show next_free: "\<And>b. b \<in> set ys' \<Longrightarrow> hi s1 bp < lo b" "hi s bp \<le> hi s1 bp" "blocks_ok base s1 (set fs \<union> A - (set ys - set ys'))"
  proof -
    show "blocks_ok base s1 (set fs \<union> A - (set ys - set ys'))"
    proof (cases m1)
      case True
      have NB: "?N \<in> set fs \<union> A" "bp \<noteq> ?N" using ys [OF True] ysfs ne by (metis UnI1 list.set_intros(1) subsetD, metis list.set_intros(1))
      have "blocks_ok base s1 (set fs \<union> A - {?N})"
        using merge_blocks(1) [OF D(8,3) brk1 bpB NB(1) NB(2)] hs True m1 header_putD(2) [OF put] by simp
      moreover have "?N \<notin> set ys'" using sys ys [OF True] by (metis order_less_irrefl sorted_wrt.simps(2))
      ultimately show ?thesis using ys [OF True] by (simp add: insert_Diff_if)
    next
      case False
      then have "hsize s1 a = hsize s a" if "a \<in> set fs \<union> A" for a using header_putD(2) [OF put, of a] that by auto
      then show ?thesis using blocks_cong [of "set fs \<union> A" s1 s base] brk1 D(8) False by (simp add: ys'_def)
    qed
    have hib: "hi s1 bp = (if m1 then hi s ?N else hi s bp)"
    proof (cases m1)
      case True
      have NB: "?N \<in> set fs \<union> A" using ys [OF True] ysfs by (metis UnI1 list.set_intros(1) subsetD)
      then show ?thesis using True hs m1 hi_merge [OF blocksD(3) [OF D(8) bpB] blocksD(3) [OF D(8) NB] D(3)] by simp
    qed (simp add: hi_def hs)
    show "hi s1 bp < lo b" if b: "b \<in> set ys'" for b
    proof (cases m1)
      case True
      then have "?N < b" using b sys ys [OF True] by (metis sorted_wrt.simps(2))
      moreover have "?N \<in> set ys" using ys [OF True] by (metis list.set_intros(1))
      ultimately show ?thesis using mid [of ?N b] b hib True ne by auto
    next
      case False
      have "b \<in> set ys" using b False by (simp add: ys'_def)
      moreover have "hi s bp \<noteq> lo b"
      proof
        assume e: "hi s bp = lo b"
        obtain y zs where yz: "ys = y # zs" using \<open>b \<in> set ys\<close> by (cases ys) auto
        show False
        proof (cases "b = y")
          case True then show False using e False m1 N yz by simp
        next
          case False
          then have "y < b" using yz \<open>b \<in> set ys\<close> sys by auto
          then show False using between_apart [OF D(8), of bp y] gt yz ysfs bpB e by (auto simp: lo_def word_less_nat_alt)
        qed
      qed
      ultimately show ?thesis using between_apart [OF D(8), of bp b] gt ysfs bpB hib False by auto
    qed
    show "hi s bp \<le> hi s1 bp"
    proof (cases m1)
      case True
      then have "hi s bp = lo ?N" "?N \<in> set fs \<union> A" using m1 ys [OF True] ysfs by (simp, metis UnI1 list.set_intros(1) subsetD)
      then show ?thesis using hib True blocksD(2) [OF D(8), of ?N] by simp
    qed (simp add: hib)
  qed
  show "hptr s1 bp = hd (ys' @ [base])"
  proof (cases m1)
    case True
    have "seg s ys base" using D(6) L c hd by (cases xs) (auto simp: cyc_def seg_append)
    then have "hptr s ?N = hd (ys' @ [base])" using ys [OF True] by (metis seg.simps(2))
    then show ?thesis using header_putD(1) [OF put, of bp] bp True by simp
  next
    case False
    then show ?thesis using header_putD(1) [OF put, of bp] bp N by (simp add: ys'_def)
  qed
qed

lemma free_merge_prev:
  assumes ok: "blocks_ok base s1 B" and brk: "unat (brk s1) < 0x80000000" and p: "p = base \<or> p \<in> B" "p < bp" and bp: "bp \<in> B"
    and base: "hsize s1 base = 0"
    and put: "header_put (insert base C) p (if m2 then hptr s1 bp else bp) (if m2 then hsize s1 p + hsize s1 bp else hsize s1 p) s1 s2"
    and BC: "B \<subseteq> C" and m2: "m2 \<longleftrightarrow> hi s1 p = lo bp"
  shows "blocks_ok base s2 (B - (if m2 then {bp} else {}))" "m2 \<Longrightarrow> p \<in> B" "hi s2 p = (if m2 then hi s1 bp else hi s1 p)"
    "\<And>a. a \<in> insert base B \<Longrightarrow> a \<noteq> p \<Longrightarrow> hi s2 a = hi s1 a"
proof -
  have H: "a \<in> insert base C" if "a \<in> insert base B" for a using that BC by auto
  show hia: "\<And>a. a \<in> insert base B \<Longrightarrow> a \<noteq> p \<Longrightarrow> hi s2 a = hi s1 a"
    using header_putD(2) [OF put H] by (simp add: hi_def)
  have brk2: "brk s2 = brk s1" using put by (simp add: header_put_def)
  have hs: "hsize s2 a = (if a = p then if m2 then hsize s1 p + hsize s1 bp else hsize s1 p else hsize s1 a)" if "a \<in> insert base B" for a
    using header_putD(2) [OF put H [OF that]] .
  have pH: "p \<in> insert base B" using p by auto
  show pB: "m2 \<Longrightarrow> p \<in> B" using p m2 base by (auto simp: hi_def lo_def word_less_nat_alt)
  have "blocks_ok base s2 (B - (if m2 then {bp} else {})) \<and> hi s2 p = (if m2 then hi s1 bp else hi s1 p)"
  proof (cases m2)
    case True
    have "p \<noteq> bp" using p by auto
    then show ?thesis
      using merge_blocks [OF ok brk brk2 pB [OF True] bp] hs True m2 pB [OF True] by auto
  next
    case False
    then have "hsize s2 a = hsize s1 a" if "a \<in> insert base B" for a using hs that by auto
    then show ?thesis
      using blocks_cong [of B s2 s1 base] brk2 ok False pH by (auto simp: hi_def)
  qed
  then show "blocks_ok base s2 (B - (if m2 then {bp} else {}))" "hi s2 p = (if m2 then hi s1 bp else hi s1 p)" by auto
qed

definition same_but :: "u32 set \<Rightarrow> uheap \<Rightarrow> uheap \<Rightarrow> bool" where
  "same_but H s t \<longleftrightarrow> (\<forall>y. y \<notin> H \<longrightarrow> y \<notin> (\<lambda>h. h + 4) ` H \<longrightarrow> um t y = um s y)"

lemma header_put_same:
  assumes "header_put H x v w s t" and "x \<in> X"
  shows "same_but X s t"
  unfolding same_but_def
proof (intro allI impI)
  fix y
  assume "y \<notin> X" "y \<notin> (\<lambda>h. h + 4) ` X"
  then have "y \<noteq> x" "y \<noteq> x + 4" using assms(2) by auto
  then show "um t y = um s y" using assms(1) unfolding header_put_def by blast
qed

lemma same_but_trans: "same_but X s t \<Longrightarrow> same_but X t u \<Longrightarrow> same_but X s u"
  unfolding same_but_def by metis

lemma free_list_linked:
  assumes c: "cyc s (xs @ p # ys)" "distinct (xs @ p # ys)" "hd (xs @ [p]) = base" and bp: "bp \<notin> set (xs @ p # ys)"
    and H: "insert bp (set (xs @ p # ys)) \<subseteq> H"
    and put1: "header_put H bp v1 w1 s s1" and v1: "hptr s1 bp = hd (ys' @ [base])"
    and put2: "header_put H p (if m2 then hptr s1 bp else bp) w2 s1 s2" and ys: "ys = us @ ys'"
  shows "cyc s2 (xs @ p # (if m2 then [] else [bp]) @ ys')"
proof -
  have e: "hd (xs @ p # zs) = base" for zs using c(3) by (cases xs) auto
  have sg: "seg s xs p" "seg s ys' base" using c(1) ys unfolding cyc_def e by (simp_all add: seg_append)
  have keep: "hptr s2 a = hptr s a" if "a \<in> set xs \<union> set ys'" for a
  proof -
    have "a \<in> H" "a \<noteq> p" "a \<noteq> bp" using that H c(2) bp ys by auto
    then show ?thesis using header_putD(1) [OF put1, of a] header_putD(1) [OF put2, of a] by simp
  qed
  have "seg s2 xs p" "seg s2 ys' base" using sg seg_cong [of xs s2 s p] seg_cong [of ys' s2 s base] keep by auto
  moreover have "hptr s2 p = (if m2 then hptr s1 bp else bp)" using header_putD(1) [OF put2, of p] H by simp
  moreover have "hptr s2 bp = hptr s1 bp" using header_putD(1) [OF put2, of bp] H bp by simp
  ultimately show ?thesis using v1 unfolding cyc_def e by (cases m2) (simp_all add: seg_append)
qed

lemma freep_upd [simp]:
  "hi (s\<lparr>freep := f\<rparr>) a = hi s a" "seg (s\<lparr>freep := f\<rparr>) xs e = seg s xs e" "cyc (s\<lparr>freep := f\<rparr>) xs = cyc s xs"
  "blocks_ok base (s\<lparr>freep := f\<rparr>) B = blocks_ok base s B" "same_but X s (t\<lparr>freep := f\<rparr>) = same_but X s t"
proof -
  show sg: "seg (s\<lparr>freep := f\<rparr>) xs e = seg s xs e" for xs e by (rule seg_cong) simp
  show "cyc (s\<lparr>freep := f\<rparr>) xs = cyc s xs" by (simp add: cyc_def sg)
  show "blocks_ok base (s\<lparr>freep := f\<rparr>) B = blocks_ok base s B" by (rule blocks_cong) simp_all
qed (simp_all add: hi_def same_but_def)

lemma sorted_insert:
  assumes "sorted_wrt (<) (xs @ p # us @ zs)" and "\<forall>x\<in>set (xs @ [p]). x < (b :: u32)" and "\<forall>x\<in>set zs. b < x"
  shows "sorted_wrt (<) (xs @ p # (if m then [] else [b]) @ zs)"
  using assms by (auto simp: sorted_wrt_append)

text \<open>What a call of \<^verbatim>\<open>free\<close> leaves: the heap without the block, which is now part of a free block.\<close>

definition freed_block :: "u32 \<Rightarrow> uheap \<Rightarrow> u32 list \<Rightarrow> u32 set \<Rightarrow> u32 \<Rightarrow> uheap \<Rightarrow> u32 list \<Rightarrow> bool" where
  "freed_block base s fs A bp t fs' \<longleftrightarrow> heap_ok base t fs' (A - {bp}) \<and> (\<forall>a\<in>A - {bp}. hsize t a = hsize s a) \<and> brk t = brk s \<and>
     (\<exists>x\<in>set fs'. lo x \<le> lo bp \<and> hi s bp \<le> hi t x) \<and> same_but (insert base (insert bp (set fs))) s t"

lemma free_no_touch:
  assumes ok: "heap_ok base s fs A" and bp: "bp \<in> A" and L: "base # fs = xs @ p # us @ ys'"
    and lt: "\<forall>x\<in>set (xs @ [p]). x < bp" and gt: "\<forall>x\<in>set ys'. bp < x"
    and h: "\<And>b. b \<in> set ys' \<Longrightarrow> h < lo b" "hi s bp \<le> h" and m2: "m2 \<longleftrightarrow> hi s p = lo bp"
    and ab: "a \<in> set xs \<union> set ys' \<union> (if m2 then {p} else {p, bp})" "a \<noteq> base" "b \<in> set xs \<union> set ys' \<union> (if m2 then {p} else {p, bp})" "b \<noteq> base"
  shows "(if a = bp \<or> a = p \<and> m2 then h else hi s a) \<noteq> lo b"
proof -
  note D = heap_okD [OF ok]
  have bpB: "bp \<in> set fs \<union> A" using bp by simp
  have infs: "x \<in> set fs" if "x \<in> insert p (set xs \<union> set ys')" "x \<noteq> base" for x
    using arg_cong [OF L, of "\<lambda>l. x \<in> set l"] that by auto
  have so: "sorted_wrt (<) (xs @ p # us @ ys')" using D(7) L by simp
  show ?thesis
  proof (cases "a = bp \<or> a = p \<and> m2")
    case True
    have "lo bp < h" using h(2) blocksD(2) [OF D(8) bpB] by simp
    moreover have "lo b \<le> lo bp" if "b \<notin> set ys'" using ab(3) that lt by (auto simp: lo_def word_less_nat_alt split: if_splits)
    ultimately show ?thesis using True h(1) [of b] by (cases "b \<in> set ys'") auto
  next
    case False
    then have a: "a \<in> insert p (set xs \<union> set ys')" "a \<noteq> p \<or> \<not> m2" using ab(1) by (auto split: if_splits)
    have afs: "a \<in> set fs" using infs [OF a(1) ab(2)] .
    have "hi s a \<noteq> lo bp"
    proof -
      consider "a = p" | "a \<in> set ys'" | "a \<in> set xs" "a \<noteq> p" using a(1) by blast
      then show ?thesis
      proof cases
        case 1 then show ?thesis using a m2 by simp
      next
        case 2
        then have "bp < a" using gt by blast
        then show ?thesis using blocksD(2) [OF D(8), of a] afs by (simp add: lo_def word_less_nat_alt)
      next
        case 3
        then have "a < p" using so by (auto simp: sorted_wrt_append)
        moreover have "p \<noteq> base" using \<open>a < p\<close> block_above_base [OF D(8), of a] afs by auto
        ultimately show ?thesis using between_apart [OF D(8), of a p] afs infs [of p] lt by (auto simp: lo_def word_less_nat_alt)
      qed
    qed
    then have "hi s a \<noteq> lo b" using D(10) [OF afs, of b] infs [of b] ab(3,4) by (cases "b = bp") (auto split: if_splits)
    then show ?thesis using False by auto
  qed
qed

lemma free_merged:
  assumes ok: "heap_ok base s fs A" and bp: "bp \<in> A" and L: "base # fs = xs @ p # ys"
    and lt: "\<forall>x\<in>set (xs @ [p]). x < bp" and gt: "\<forall>x\<in>set ys. bp < x"
  shows "\<exists>fs'. freed_block base s fs A bp (free_at bp p s) fs'"
proof -
  note D = heap_okD [OF ok]
  let ?H = "insert base (set fs \<union> A)"
  have so: "sorted_wrt (<) (xs @ p # ys)" and c: "cyc s (xs @ p # ys)" using D(6,7) L by simp_all
  have setL: "insert base (set fs) = insert p (set xs \<union> set ys)" using arg_cong [OF L, of set] by simp
  have hd: "hd (xs @ [p]) = base" using L by (cases xs) auto
  have np: "hptr s p \<in> ?H" using cyc_split [OF c] setL hd_in_set [of "ys @ xs @ [p]"] by auto
  have pH: "p \<in> ?H" "bp \<in> ?H" using setL bp by auto
  obtain s1 s2 where fa: "free_at bp p s = s2\<lparr>freep := p\<rparr>"
    and p1: "header_put ?H bp (if bp + hsize s bp * 8 = hptr s p then hptr s (hptr s p) else hptr s p)
       (if bp + hsize s bp * 8 = hptr s p then hsize s bp + hsize s (hptr s p) else hsize s bp) s s1"
    and p2: "header_put ?H p (if p + hsize s1 p * 8 = bp then hptr s1 bp else bp)
       (if p + hsize s1 p * 8 = bp then hsize s1 p + hsize s1 bp else hsize s1 p) s1 s2"
    by (rule free_at_steps [OF heap_separate [OF ok] pH(2) pH(1) np])
  define m1 where "m1 = (bp + hsize s bp * 8 = hptr s p)"
  define m2 where "m2 = (p + hsize s1 p * 8 = bp)"
  define ys' where "ys' = (if m1 then tl ys else ys)"
  define fs' where "fs' = tl (xs @ p # (if m2 then [] else [bp]) @ ys')"
  have bpB: "bp \<in> set fs \<union> A" using bp by simp
  have m1: "m1 \<longleftrightarrow> hi s bp = lo (hptr s p)"
    using block_end_eq [of s bp "hptr s p"] blocksD(3) [OF D(8) bpB] D(3) by (simp add: m1_def)
  note N = free_merge_next [OF ok bp L gt p1 [folded m1_def] m1, folded ys'_def]
  have "ys = (if m1 then [hptr s p] else []) @ ys'" using N(2) by (cases m1) (simp, simp add: ys'_def)
  then obtain us where us: "ys = us @ ys'" ..
  have bpL: "bp \<notin> set (xs @ p # ys)" using lt gt by auto
  have pbp: "p < bp" using lt by simp
  have hp: "hi s1 p = hi s p" using N(6) pH(1) pbp by auto
  have hpb: "hi s p < 2 ^ 32"
  proof (cases "p = base")
    case True then show ?thesis using D(2-4) by (simp add: hi_def)
  next
    case False
    then have "p \<in> set fs \<union> A" using setL by auto
    then show ?thesis using blocksD(3) [OF D(8)] D(3) by fastforce
  qed
  have m2: "m2 \<longleftrightarrow> hi s1 p = lo bp" using block_end_eq [of s1 p bp] hp hpb by (simp add: m2_def)
  let ?B = "set fs \<union> A - (set ys - set ys')"
  have brk1: "brk s1 = brk s" "brk s2 = brk s" using p1 p2 by (simp_all add: header_put_def)
  have b0: "hsize s1 base = 0" using header_putD(2) [OF p1, of base] D(4) lt hd by (cases xs) auto
  have dist: "distinct (xs @ p # ys)" using so by (simp add: strict_sorted_iff)
  have pB: "p = base \<or> p \<in> ?B" using setL dist by auto
  have bpB1: "bp \<in> ?B" using bp gt by auto
  note P = free_merge_prev [OF N(1) _ pB pbp bpB1 b0 p2 [folded m2_def] _ m2]
  have P': "blocks_ok base s2 (?B - (if m2 then {bp} else {}))" "m2 \<Longrightarrow> p \<in> ?B" "hi s2 p = (if m2 then hi s1 bp else hi s1 p)"
    "\<And>a. a \<in> insert base ?B \<Longrightarrow> a \<noteq> p \<Longrightarrow> hi s2 a = hi s1 a" using P brk1 D(3) by auto
  have L': "base # fs' = xs @ p # (if m2 then [] else [bp]) @ ys'" using hd by (cases xs) (auto simp: fs'_def)
  have so': "sorted_wrt (<) (base # fs')" unfolding L' by (rule sorted_insert [of xs p us]) (use so lt gt us in auto)
  have cy: "cyc s2 (base # fs')" unfolding L'
    by (rule free_list_linked [OF c dist hd bpL _ p1 N(5) p2 [folded m2_def] us]) (use setL bp in auto)
  have nb: "base \<notin> set fs" "base \<notin> set fs'" "base \<notin> A" using D(7) so' blocksD(1) [OF D(8), of base] by (auto simp: lo_def)
  have sfs: "set fs = insert p (set xs \<union> set ys) - {base}" using setL nb by blast
  have sfs': "set fs' = insert p (set xs \<union> set ys' \<union> (if m2 then {} else {bp})) - {base}"
  proof -
    have "set (base # fs') = set (xs @ p # (if m2 then [] else [bp]) @ ys')" by (simp only: L')
    then have "insert base (set fs') = insert p (set xs \<union> set ys' \<union> (if m2 then {} else {bp}))" by (cases m2) auto
    then show ?thesis using nb(2) by blast
  qed
  have B': "set fs' \<union> (A - {bp}) = ?B - (if m2 then {bp} else {})"
  proof -
    have d: "set us \<inter> set ys' = {}" "p \<notin> set us" "set us \<inter> set xs = {}" using dist us by auto
    have y: "set ys - set ys' = set us" "set ys = set us \<union> set ys'" using us d(1) by auto
    have n: "bp \<noteq> p" "bp \<notin> set xs" "bp \<notin> set ys'" "base \<noteq> bp" using bpL us nb(3) bp by auto
    have "base \<notin> set us" using hd d(2,3) by (cases xs) auto
    then show ?thesis unfolding sfs' sfs y using d n nb(3) bp D(9) [unfolded sfs y] by (cases m2) (simp_all, blast+)
  qed
  have hs2: "hsize s2 a = hsize s a" if "a \<in> A - {bp}" for a
    using header_putD(2) [OF p1, of a] header_putD(2) [OF p2, of a] that sfs D(9) nb by auto
  have hi2: "hi s2 a = (if a = bp \<or> a = p \<and> m2 then hi s1 bp else hi s a)" if "a \<in> set fs'" for a
  proof -
    have "a \<in> ?B" using B' that by blast
    then show ?thesis using P'(3) P'(4) [of a] N(6) [of a] hp pbp by (cases "a = p"; cases "a = bp") auto
  qed
  have touch: "hi s2 a \<noteq> lo b" if "a \<in> set fs'" "b \<in> set fs'" for a b
    unfolding hi2 [OF that(1)]
    by (rule free_no_touch [OF ok bp L [unfolded us] lt _ N(4,3) m2 [unfolded hp]])
      (use gt us that sfs' nb in auto)
  have "heap_ok base (s2\<lparr>freep := p\<rparr>) fs' (A - {bp})"
    unfolding heap_ok_def
  proof (intro conjI ballI)
    show "hsize (s2\<lparr>freep := p\<rparr>) base = 0" using header_putD(2) [OF p2, of base] b0 P'(2) m2_def nb(1,3) by auto
    show "blocks_ok base (s2\<lparr>freep := p\<rparr>) (set fs' \<union> (A - {bp}))" unfolding B' using P'(1) by simp
    show "freep (s2\<lparr>freep := p\<rparr>) \<in> set (base # fs')" unfolding L' by simp
    show "set fs' \<inter> (A - {bp}) = {}" using sfs sfs' D(9) us by auto
  qed (use D(1-3) brk1 cy so' touch in simp_all)
  moreover have "\<exists>x\<in>set fs'. lo x \<le> lo bp \<and> hi s bp \<le> hi s2 x"
  proof (rule bexI [of _ "if m2 then p else bp"])
    show "(if m2 then p else bp) \<in> set fs'" using sfs' nb P'(2) bp by auto
    then show "lo (if m2 then p else bp) \<le> lo bp \<and> hi s bp \<le> hi s2 (if m2 then p else bp)"
      using hi2 [of "if m2 then p else bp"] N(3) pbp by (auto simp: lo_def word_less_nat_alt)
  qed
  moreover have "same_but (insert base (insert bp (set fs))) s s2"
    by (rule same_but_trans [OF header_put_same [OF p1] header_put_same [OF p2]]) (use setL in blast)+
  ultimately show ?thesis unfolding freed_block_def fa using hs2 brk1 by auto
qed

text \<open>The bytes of a block behind its header, which belong to the program.\<close>

definition payload :: "uheap \<Rightarrow> u32 \<Rightarrow> u32 \<Rightarrow> bool" where
  "payload s a y \<longleftrightarrow> lo a + 8 \<le> unat y \<and> unat y < hi s a"

definition data_same :: "u32 set \<Rightarrow> uheap \<Rightarrow> uheap \<Rightarrow> bool" where
  "data_same A s t \<longleftrightarrow> (\<forall>a\<in>A. hsize t a = hsize s a \<and> (\<forall>y. payload s a y \<longrightarrow> um t y = um s y))"

lemma data_same_refl: "data_same A s s"
  by (simp add: data_same_def)

lemma data_same_trans: "data_same A s t \<Longrightarrow> data_same A t u \<Longrightarrow> data_same A s u"
  by (simp add: data_same_def payload_def hi_def)

lemma data_sameI:
  assumes "same_but X s t" and "\<And>a. a \<in> A \<Longrightarrow> hsize t a = hsize s a"
    and X: "\<And>x a. x \<in> X \<Longrightarrow> a \<in> A \<Longrightarrow> unat x < 0x80000000 \<and> (unat x + 8 \<le> lo a + 8 \<or> hi s a \<le> unat x)"
  shows "data_same A s t"
  unfolding data_same_def
proof (intro ballI conjI allI impI)
  fix a y
  assume a: "a \<in> A" and y: "payload s a y"
  have "y \<noteq> x \<and> y \<noteq> x + 4" if "x \<in> X" for x
    using X [OF that a] y lo_plus4 [of x] by (auto simp: payload_def)
  then have "y \<notin> X" "y \<notin> (\<lambda>h. h + 4) ` X" by auto
  then show "um t y = um s y" using assms(1) unfolding same_but_def by blast
qed (use assms(2) in blast)

lemma free_exec:
  assumes ok: "heap_ok base s fs A" and bp: "bp \<in> A"
  shows "\<exists>t fs'. free (bp + 8) s = Some t \<and> freed_block base s fs A bp t fs'"
proof -
  note D = heap_okD [OF ok]
  have "base < bp" "bp \<notin> set fs" using block_above_base [OF D(8), of bp] bp D(9) by auto
  then obtain xs p ys where L: "base # fs = xs @ p # ys" "\<forall>x\<in>set (xs @ [p]). x < bp" "\<forall>x\<in>set ys. bp < x"
    using split_at [OF D(7)] by metis
  have "free_find s bp (freep s) = Some p" using free_find_pred [OF D(6,7) L D(5)] .
  then have "free (bp + 8) s = Some (free_at bp p s)" by (simp add: free_def header_size_def)
  then show ?thesis using free_merged [OF ok bp L] by blast
qed

lemma free_data:
  assumes ok: "heap_ok base s fs A" and fb: "freed_block base s fs A bp t fs'" and bp: "bp \<in> A"
  shows "data_same (A - {bp}) s t"
proof (rule data_sameI)
  show "same_but (insert base (insert bp (set fs))) s t" using fb by (simp add: freed_block_def)
  show "hsize t a = hsize s a" if "a \<in> A - {bp}" for a using fb that by (simp add: freed_block_def)
  fix x a
  assume x: "x \<in> insert base (insert bp (set fs))" and a: "a \<in> A - {bp}"
  note D = heap_okD [OF ok]
  have aB: "a \<in> set fs \<union> A" using a by simp
  show "unat x < 0x80000000 \<and> (unat x + 8 \<le> lo a + 8 \<or> hi s a \<le> unat x)"
  proof (cases "x = base")
    case True then show ?thesis using blocksD(1) [OF D(8) aB] D(2,3) by simp
  next
    case False
    then have xB: "x \<in> set fs \<union> A" "x \<noteq> a" using x bp a D(9) by auto
    then show ?thesis using blocksD(2,3) [OF D(8) xB(1)] blocksD(4) [OF D(8) xB(1) aB xB(2)] D(3) by (auto simp: apart_def lo_def)
  qed
qed

section \<open>Growing the heap\<close>

lemma heap_grow:
  assumes ok: "heap_ok base s fs A" and n: "unat (brk s) + unat n < 0x80000000"
  shows "heap_ok base (s\<lparr>brk := brk s + n\<rparr>) fs A"
proof -
  note D = heap_okD [OF ok]
  let ?t = "s\<lparr>brk := brk s + n\<rparr>"
  have b: "unat (brk ?t) = unat (brk s) + unat n" using n by (simp add: unat_word_ariths)
  have "hi ?t a = hi s a" for a by (simp add: hi_def)
  moreover have "seg ?t xs e = seg s xs e" for xs e by (rule seg_cong) simp
  ultimately show ?thesis using ok b n unfolding heap_ok_def cyc_def blocks_ok_def apart_def by (auto intro!: trans_le_add1)
qed

lemma heap_new_block:
  assumes ok: "heap_ok base s fs A" and nu: "0 < unat nu" "unat (brk s) + 8 * unat nu < 0x80000000"
  defines "t \<equiv> set_hsize (brk s) nu (s\<lparr>brk := brk s + nu * 8\<rparr>)"
  shows "heap_ok base t fs (insert (brk s) A)" "brk s \<notin> A" "hi t (brk s) = unat (brk s) + 8 * unat nu" "data_same A s t"
    "unat (brk t) = unat (brk s) + 8 * unat nu"
proof -
  note D = heap_okD [OF ok]
  let ?p = "brk s" and ?u = "s\<lparr>brk := brk s + nu * 8\<rparr>"
  have m: "unat (nu * 8) = 8 * unat nu" using nu by (simp add: unat_word_ariths)
  have u: "heap_ok base ?u fs A" using heap_grow [OF ok, of "nu * 8"] m nu by simp
  note U = heap_okD [OF u]
  show bu: "unat (brk t) = unat (brk s) + 8 * unat nu" using nu m by (simp add: t_def unat_word_ariths)
  have low: "hi s a \<le> unat ?p" "unat a < unat ?p" if "a \<in> set fs \<union> A" for a using blocksD(2,3) [OF D(8) that] by (auto simp: lo_def)
  show pA: "?p \<notin> A" using low(2) by auto
  have hs: "hsize t a = (if a = ?p then nu else hsize s a)" for a by (simp add: t_def)
  have hip: "hi t a = (if a = ?p then unat ?p + 8 * unat nu else hi s a)" for a by (simp add: hi_def hs)
  then show "hi t ?p = unat ?p + 8 * unat nu" by simp
  have lt: "unat a < unat ?p" if "a \<in> insert base (set fs)" for a using that low(2) [of a] D(2) by auto
  have hp: "hptr t a = hptr s a" if "a \<in> insert base (set fs)" for a
    using lt [OF that] lo_plus4 [of ?p] D(3) by (auto simp: t_def)
  have "seg t (base # fs) base = seg s (base # fs) base" by (rule seg_cong) (use hp in auto)
  then have cy: "cyc t (base # fs)" using D(6) by (simp add: cyc_def)
  have bl: "blocks_ok base t (set fs \<union> insert ?p A)"
    unfolding blocks_ok_def
  proof (intro conjI ballI impI)
    fix a
    assume a: "a \<in> set fs \<union> insert ?p A"
    show "unat base + 8 \<le> lo a" "lo a + 8 \<le> hi t a" "hi t a \<le> unat (brk t)"
      using a blocksD(1-3) [OF D(8), of a] low(1) [of a] D(2) nu bu hip by (auto simp: lo_def)
    fix b
    assume "b \<in> set fs \<union> insert ?p A" "a \<noteq> b"
    then show "apart t a b" using a blocksD(4) [OF D(8), of a b] low(1) [of a] low(1) [of b] hip by (auto simp: apart_def lo_def)
  qed
  have ne: "base \<noteq> ?p" "?p \<notin> set fs" using lt [of base] low(2) [of ?p] by auto
  show "heap_ok base t fs (insert ?p A)"
    unfolding heap_ok_def
  proof (intro conjI ballI)
    show "hi t a \<noteq> lo b" if "a \<in> set fs" "b \<in> set fs" for a b using D(10) [OF that] hip ne that by auto
  qed (use D bu nu cy bl ne hs in \<open>auto simp: t_def\<close>)
  have "same_but {?p} s t" by (auto simp: same_but_def t_def set_hsize_def)
  then show "data_same A s t" by (rule data_sameI) (use hs pA low D(3) in auto)
qed

text \<open>What the kernel promises of \<^verbatim>\<open>sbrk\<close>: a granted growth stays below the kernel's addresses.\<close>

definition grant_ok :: "(u32 \<Rightarrow> u32 \<Rightarrow> bool) \<Rightarrow> bool" where
  "grant_ok grant \<longleftrightarrow> (\<forall>b n. grant b n \<longrightarrow> unat n < 0x80000000 \<longrightarrow> unat b + unat n < 0x80000000)"

lemma morecore_exec:
  assumes ok: "heap_ok base s fs A" and g: "grant_ok grant" and nu: "0 < unat nu" "8 * unat nu < 0x80000000"
  shows "morecore grant nu s = Some (0, s) \<and> (\<exists>m. nu \<le> m \<and> \<not> grant (brk s) (m * 8)) \<or>
    (\<exists>t fs'. morecore grant nu s = Some (freep t, t) \<and> freep t \<noteq> 0 \<and> heap_ok base t fs' A \<and> data_same A s t \<and>
       unat (brk s) \<le> unat (brk t) \<and> (\<exists>x\<in>set (base # fs'). nu \<le> hsize t x))"
proof -
  note D = heap_okD [OF ok]
  define n where "n = (if nu < 4096 then 4096 else nu)"
  have n: "0 < unat n" "8 * unat n < 0x80000000" "nu \<le> n" "unat (n * 8) = 8 * unat n"
    using nu by (auto simp: n_def unat_word_ariths)
  have mc: "morecore grant nu s = (if grant (brk s) (n * 8) then
      map_option (\<lambda>t. (freep t, t)) (free (brk s + 8) (set_hsize (brk s) n (s\<lparr>brk := brk s + n * 8\<rparr>))) else Some (0, s))"
  proof -
    have "brk s \<noteq> - 1" using D(3) by (auto simp: word_less_nat_alt [symmetric] unsigned_minus_1_eq_mask mask_eq_exp_minus_1)
    then show ?thesis by (simp add: morecore_def sbrk_def n_def header_size_def Let_def)
  qed
  show ?thesis
  proof (cases "grant (brk s) (n * 8)")
    case True
    then have lim: "unat (brk s) + 8 * unat n < 0x80000000" using g n unfolding grant_ok_def by metis
    let ?u = "set_hsize (brk s) n (s\<lparr>brk := brk s + n * 8\<rparr>)"
    note N = heap_new_block [OF ok n(1) lim]
    obtain t fs' where t: "free (brk s + 8) ?u = Some t" and fb: "freed_block base ?u fs (insert (brk s) A) (brk s) t fs'"
      using free_exec [OF N(1)] by blast
    have A: "insert (brk s) A - {brk s} = A" using N(2) by auto
    have tok: "heap_ok base t fs' A" using fb A by (simp add: freed_block_def)
    obtain x where x: "x \<in> set fs'" "lo x \<le> lo (brk s)" "hi ?u (brk s) \<le> hi t x" using fb by (auto simp: freed_block_def)
    have "unat n \<le> unat (hsize t x)" using x N(3) by (simp add: hi_def lo_def)
    then have "nu \<le> hsize t x" using n(3) by (meson order_trans word_le_nat_alt)
    moreover have "freep t \<noteq> 0"
      using heap_okD(1,5) [OF tok] block_above_base [OF heap_okD(8) [OF tok], of "freep t"] by auto
    moreover have "data_same A s t" using data_same_trans [OF N(4)] free_data [OF N(1) fb] A by simp
    moreover have "unat (brk s) \<le> unat (brk t)" using fb N(5) by (simp add: freed_block_def)
    ultimately show ?thesis using mc True t tok x(1) by auto
  qed (use mc n(3) in auto)
qed

section \<open>Taking a block\<close>

text \<open>What \<^verbatim>\<open>malloc\<close> leaves when it returns a block with header \<open>h\<close>.\<close>

definition took_block :: "u32 \<Rightarrow> uheap \<Rightarrow> u32 set \<Rightarrow> u32 \<Rightarrow> u32 \<Rightarrow> uheap \<Rightarrow> bool" where
  "took_block base s A nunits h t \<longleftrightarrow> h \<notin> A \<and> hsize t h = nunits \<and> (\<exists>fs. heap_ok base t fs (insert h A)) \<and> data_same A s t \<and>
     unat (brk s) \<le> unat (brk t)"

lemma free_headers_data:
  assumes ok: "heap_ok base s fs A" and sb: "same_but X s t" and X: "X \<subseteq> {x. \<exists>a\<in>insert base (set fs). lo a \<le> unat x \<and> unat x + 8 \<le> max (hi s a) (unat a + 8)}"
    and hs: "\<And>a. a \<in> A \<Longrightarrow> hsize t a = hsize s a"
  shows "data_same A s t"
proof (rule data_sameI [OF sb hs])
  fix x a
  assume "x \<in> X" and a: "a \<in> A"
  then obtain b where b: "b \<in> insert base (set fs)" "lo b \<le> unat x" "unat x + 8 \<le> max (hi s b) (unat b + 8)" using X by auto
  note D = heap_okD [OF ok]
  have aB: "a \<in> set fs \<union> A" using a by simp
  show "unat x < 0x80000000 \<and> (unat x + 8 \<le> lo a + 8 \<or> hi s a \<le> unat x)"
  proof (cases "b = base")
    case True then show ?thesis using b blocksD(1) [OF D(8) aB] D(2-4) by (simp add: hi_def lo_def)
  next
    case False
    then have "b \<in> set fs \<union> A" "b \<noteq> a" using b D(9) a by auto
    then show ?thesis using b blocksD(2,3) [OF D(8), of b] blocksD(4) [OF D(8) _ aB, of b] D(3) by (auto simp: apart_def lo_def)
  qed
qed simp

lemma carve_exact:
  assumes ok: "heap_ok base s fs A" and L: "base # fs = us @ prevp # p # vs"
  shows "took_block base s A (hsize s p) p ((set_hptr prevp (hptr s p) s)\<lparr>freep := prevp\<rparr>)"
proof -
  note D = heap_okD [OF ok]
  let ?t = "(set_hptr prevp (hptr s p) s)\<lparr>freep := prevp\<rparr>" and ?fs = "tl (us @ prevp # vs)"
  have so: "sorted_wrt (<) (us @ prevp # p # vs)" and c: "cyc s (us @ prevp # p # vs)" using D(6,7) L by simp_all
  then have dist: "distinct (us @ prevp # p # vs)" by (simp add: strict_sorted_iff)
  have e: "hd (us @ prevp # zs) = base" for zs using L by (cases us) auto
  have L': "base # ?fs = us @ prevp # vs" using L by (cases us) auto
  have nb: "base \<notin> set fs" "base \<notin> A" using D(7) blocksD(1) [OF D(8), of base] by (auto simp: lo_def)
  have setL: "insert base (set fs) = insert prevp (insert p (set us \<union> set vs))" using arg_cong [OF L, of set] by simp
  have setL': "insert base (set ?fs) = insert prevp (set us \<union> set vs)" using arg_cong [OF L', of set] by simp
  have so': "sorted_wrt (<) (base # ?fs)" unfolding L' using so by (auto simp: sorted_wrt_append)
  have pfs: "p \<in> set fs" using setL dist e [of "p # vs"] by (cases us) auto
  have sfs: "set fs = insert p (set ?fs)" "p \<notin> set ?fs" using setL setL' nb(1) so' dist pfs by auto
  have sep: "a + 4 \<noteq> prevp" if "a \<in> insert base (set fs \<union> A)" for a
    using separateD [OF heap_separate [OF ok], of prevp a] that setL by auto
  have hs: "hsize ?t a = hsize s a" if "a \<in> insert base (set fs \<union> A)" for a using sep [OF that] by simp
  have sg: "seg s us prevp" "seg s vs base" "hptr s p = hd (vs @ [base])"
    using c unfolding cyc_def e by (simp_all add: seg_append)
  have hp: "hptr ?t a = (if a = prevp then hd (vs @ [base]) else hptr s a)" for a using sg(3) by simp
  have "seg ?t us prevp = seg s us prevp" by (rule seg_cong) (use dist in auto)
  moreover have "seg ?t vs base = seg s vs base" by (rule seg_cong) (use dist in auto)
  ultimately have cy: "cyc ?t (base # ?fs)" unfolding L' cyc_def e using sg hp [of prevp] by (simp add: seg_append)
  have B: "set ?fs \<union> insert p A = set fs \<union> A" using sfs by auto
  have "heap_ok base ?t ?fs (insert p A)"
    unfolding heap_ok_def
  proof (intro conjI ballI)
    show "blocks_ok base ?t (set ?fs \<union> insert p A)" unfolding B using blocks_cong [of "set fs \<union> A" ?t s base] hs D(8) by auto
    show "hi ?t a \<noteq> lo b" if "a \<in> set ?fs" "b \<in> set ?fs" for a b using D(10) [of a b] that sfs hs [of a] by (auto simp: hi_def)
    show "freep ?t \<in> set (base # ?fs)" unfolding L' by simp
    show "set ?fs \<inter> insert p A = {}" using D(9) sfs by auto
  qed (use D(1-4) cy so' hs in auto)
  moreover have "same_but {prevp} s ?t" by (simp add: same_but_def set_hptr_def)
  then have "data_same A s ?t" by (rule free_headers_data [OF ok]) (use setL hs in \<open>auto simp: lo_def\<close>)
  ultimately show ?thesis using D(9) pfs hs [of p] by (auto simp: took_block_def)
qed

lemma blocks_split:
  assumes ok: "blocks_ok base s B" and p: "p \<in> B" and t: "brk t = brk s"
    and q: "lo p + 8 \<le> lo q" "lo q + 8 \<le> hi s p" "hi t p = lo q" "hi t q = hi s p"
    and rest: "\<And>a. a \<in> B \<Longrightarrow> a \<noteq> p \<Longrightarrow> a \<noteq> q \<Longrightarrow> hi t a = hi s a"
  shows "blocks_ok base t (insert q B)" "q \<notin> B"
proof -
  have in_p: "a = p" if "a \<in> B" "lo p \<le> lo a" "lo a < hi s p" for a
    using blocksD(2) [OF ok that(1)] blocksD(4) [OF ok p that(1)] that by (auto simp: apart_def)
  show qB: "q \<notin> B" using in_p [of q] q by auto
  have rest': "hi t a = hi s a" if "a \<in> B" "a \<noteq> p" for a using rest that qB by auto
  have ap: "apart t a b" if "a \<in> B" "b \<in> insert q B" "a \<noteq> b" for a b
  proof -
    consider "b = q" "a = p" | "b = q" "a \<noteq> p" | "b \<noteq> q" "a = p" | "b \<noteq> q" "b = p" | "b \<noteq> q" "a \<noteq> p" "b \<noteq> p" by blast
    then show ?thesis
    proof cases
      case 1 then show ?thesis using q by (simp add: apart_def)
    next
      case 2
      then show ?thesis using blocksD(4) [OF ok that(1) p] q rest' [of a] that qB by (auto simp: apart_def)
    next
      case 3
      then show ?thesis using blocksD(4) [OF ok p, of b] q rest' [of b] that by (auto simp: apart_def)
    next
      case 4
      then show ?thesis using blocksD(4) [OF ok that(1) p] q rest' [of a] that qB by (auto simp: apart_def)
    next
      case 5
      then show ?thesis using blocksD(4) [OF ok that(1), of b] rest' [of a] rest' [of b] that qB by (auto simp: apart_def)
    qed
  qed
  have sym: "apart t q a" if "a \<in> B" "a \<noteq> q" for a using ap [of a q] that by (auto simp: apart_def)
  have "unat base + 8 \<le> lo a \<and> lo a + 8 \<le> hi t a \<and> hi t a \<le> unat (brk t)" if "a \<in> insert q B" for a
    using that blocksD(1-3) [OF ok, of a] blocksD(1-3) [OF ok p] q rest' [of a] t by (cases "a = q"; cases "a = p") auto
  then show "blocks_ok base t (insert q B)" unfolding blocks_ok_def using ap sym by blast
qed

lemma carve_split:
  assumes ok: "heap_ok base s fs A" and p: "p \<in> set fs" and n: "0 < unat n" "unat n < unat (hsize s p)" and prevp: "prevp \<in> set (base # fs)"
  defines "q \<equiv> p + (hsize s p - n) * 8"
  shows "took_block base s A n q ((set_hsize q n (set_hsize p (hsize s p - n) s))\<lparr>freep := prevp\<rparr>)"
proof -
  note D = heap_okD [OF ok]
  let ?t = "(set_hsize q n (set_hsize p (hsize s p - n) s))\<lparr>freep := prevp\<rparr>"
  have pB: "p \<in> set fs \<union> A" using p by simp
  note P = blocksD [OF D(8) pB]
  have sz: "unat (hsize s p - n) = unat (hsize s p) - unat n" using n by (simp add: unat_sub word_le_nat_alt)
  have top: "hi s p < 0x80000000" using P(3) D(3) by simp
  have "hsize (set_hsize p (hsize s p - n) s) p = hsize s p - n" by simp
  then have uq: "unat q = unat p + 8 * (unat (hsize s p) - unat n)"
    using block_end [of "set_hsize p (hsize s p - n) s" p] top sz by (simp add: q_def hi_def)
  have q: "lo p + 8 \<le> lo q" "lo q + 8 \<le> hi s p" using uq n by (auto simp: lo_def hi_def)
  then have qp: "q \<noteq> p" by auto
  have hs: "hsize ?t a = (if a = q then n else if a = p then hsize s p - n else hsize s a)" for a by simp
  have hiq: "hi ?t p = lo q" "hi ?t q = hi s p" using uq sz hs n qp by (auto simp: hi_def lo_def)
  have hir: "hi ?t a = hi s a" if "a \<noteq> p" "a \<noteq> q" for a using hs that by (simp add: hi_def)
  note B = blocks_split [OF D(8) pB _ q hiq hir, simplified]
  have hp: "hptr ?t a = hptr s a" if a: "a \<in> insert base (set fs)" for a
  proof -
    have "a \<noteq> p + 4" using separateD [OF heap_separate [OF ok], of a p] a p by auto
    moreover have "a \<noteq> q + 4"
    proof
      assume "a = q + 4"
      then have u: "unat a = unat q + 4" using lo_plus4 [of q] top q by (simp add: lo_def)
      then have "a \<noteq> base" "a \<noteq> p" using q P(1) by (auto simp: lo_def)
      then show False using a P(4) [of a] blocksD(2) [OF D(8), of a] u q by (auto simp: apart_def lo_def)
    qed
    ultimately show ?thesis by simp
  qed
  have "seg ?t (base # fs) base = seg s (base # fs) base" by (rule seg_cong) (use hp in auto)
  then have cy: "cyc ?t (base # fs)" using D(6) by (simp add: cyc_def)
  have nb: "base \<noteq> q" "base \<noteq> p" using P(1) q by (auto simp: lo_def)
  have qB: "q \<notin> set fs" "q \<notin> A" using B(2) by auto
  have "heap_ok base ?t fs (insert q A)"
    unfolding heap_ok_def
  proof (intro conjI ballI)
    show "blocks_ok base ?t (set fs \<union> insert q A)" using B(1) by simp
    show "hi ?t a \<noteq> lo b" if "a \<in> set fs" "b \<in> set fs" for a b
    proof -
      have "a \<noteq> q" "b \<noteq> q" using that qB(1) by auto
      then have "a \<noteq> q" "lo q \<noteq> lo b" by (simp_all add: lo_def word_unat_eq_iff)
      then show ?thesis using D(10) [OF that] hiq(1) hir [of a] by (cases "a = p") auto
    qed
  qed (use D(1-7,9) prevp cy qB hs nb in auto)
  moreover have "same_but {p, q} s ?t" by (simp add: same_but_def set_hsize_def)
  then have "data_same A s ?t"
  proof (rule free_headers_data [OF ok])
    show "{p, q} \<subseteq> {x. \<exists>a\<in>insert base (set fs). lo a \<le> unat x \<and> unat x + 8 \<le> max (hi s a) (unat a + 8)}"
      using p q by (auto simp: lo_def intro!: bexI [of _ p])
    show "hsize ?t a = hsize s a" if "a \<in> A" for a using that hs [of a] qB(2) p D(9) by auto
  qed
  ultimately show ?thesis using qB hs by (auto simp: took_block_def)
qed

lemma carve_exec:
  assumes ok: "heap_ok base s fs A" and prevp: "prevp \<in> set (base # fs)" "hptr s prevp = p" and n: "0 < unat n" "n \<le> hsize s p"
  shows "\<exists>h t. carve n prevp p s = (h + 8, t) \<and> took_block base s A n h t"
proof -
  note D = heap_okD [OF ok]
  obtain us ws where L: "base # fs = us @ prevp # ws" using prevp(1) by (meson split_list)
  have pb: "p \<noteq> base" using n D(4) by auto
  have "hptr s prevp = hd (ws @ us @ [prevp])" using cyc_split D(6) L by metis
  then have "p = hd (ws @ us @ [prevp])" using prevp(2) by simp
  moreover have "hd (us @ [prevp]) = base" using L by (cases us) auto
  ultimately obtain vs where ws: "ws = p # vs" using pb by (cases ws) auto
  then have L: "base # fs = us @ prevp # p # vs" using L by simp
  have pfs: "p \<in> set fs" using arg_cong [OF L, of set] pb by auto
  show ?thesis
  proof (cases "hsize s p = n")
    case True
    then show ?thesis using carve_exact [OF ok L] by (auto simp: carve_def header_size_def)
  next
    case False
    then have "unat n < unat (hsize s p)" using n(2) by (simp add: word_le_nat_alt order_less_le word_unat_eq_iff)
    then show ?thesis using carve_split [OF ok pfs n(1) _ prevp(1)] False by (auto simp: carve_def header_size_def Let_def)
  qed
qed

section \<open>The search of \<^verbatim>\<open>malloc\<close>\<close>

definition refill :: "(u32 \<Rightarrow> u32 \<Rightarrow> bool) \<Rightarrow> u32 \<Rightarrow> uheap \<Rightarrow> (u32 \<times> uheap) option" where
  "refill grant n s = Option.bind (morecore grant n s) (\<lambda>(q, t). if q = 0 then Some (0, t) else malloc_loop grant n q (hptr t q) t)"

lemma malloc_walk:
  assumes "seg s (q # R) (freep s)" and "freep s \<notin> set R"
  shows "(\<forall>x\<in>set (R @ [freep s]). hsize s x < n) \<and> malloc_loop grant n q (hptr s q) s = refill grant n s \<or>
    (\<exists>u\<in>set (q # R). n \<le> hsize s (hptr s u) \<and> malloc_loop grant n q (hptr s q) s = Some (carve n u (hptr s u) s))"
  using assms
proof (induction R arbitrary: q)
  case Nil
  then show ?case by (subst (1 2) malloc_loop.simps) (auto simp: refill_def)
next
  case (Cons r R)
  have q: "hptr s q = r" "r \<noteq> freep s" using Cons.prems by auto
  show ?case
  proof (cases "n \<le> hsize s r")
    case True
    then show ?thesis using q by (subst (1 2) malloc_loop.simps) auto
  next
    case False
    have "malloc_loop grant n q r s = malloc_loop grant n r (hptr s r) s" using False q by (subst malloc_loop.simps) simp
    then show ?thesis using Cons.IH [of r] Cons.prems q False by auto
  qed
qed

lemma malloc_search:
  assumes ok: "heap_ok base s fs A"
  shows "(\<forall>x\<in>set (base # fs). hsize s x < n) \<and> malloc_loop grant n (freep s) (hptr s (freep s)) s = refill grant n s \<or>
    (\<exists>u\<in>set (base # fs). n \<le> hsize s (hptr s u) \<and> malloc_loop grant n (freep s) (hptr s (freep s)) s = Some (carve n u (hptr s u) s))"
proof -
  note D = heap_okD [OF ok]
  obtain us vs where L: "base # fs = us @ freep s # vs" using D(5) by (meson split_list)
  have "cyc s ((freep s # vs) @ us)" using cyc_rotate [of s us "freep s # vs"] D(6) L by simp
  then have sg: "seg s (freep s # (vs @ us)) (freep s)" by (simp add: cyc_def)
  have "distinct (us @ freep s # vs)" using D(7) L by (metis strict_sorted_iff)
  then have nf: "freep s \<notin> set (vs @ us)" by auto
  have sets: "set (vs @ us @ [freep s]) = set (base # fs)" "set (freep s # vs @ us) = set (base # fs)" unfolding L by auto
  show ?thesis using malloc_walk [OF sg nf, of n grant] unfolding sets append_assoc .
qed

definition units :: "u32 \<Rightarrow> u32" where
  "units nbytes = (nbytes + header_size - 1) div header_size + 1"

lemma units_unat:
  assumes "unat n < 0x7FFFFFF0"
  shows "unat (units n) = (unat n + 7) div 8 + 1"
proof -
  have "unat (n + 7) = unat n + 7" using assms by (simp add: unat_word_ariths)
  then have "unat ((n + 7) div 8) = (unat n + 7) div 8" by (simp add: unat_div)
  moreover have "(unat n + 7) div 8 + 1 < 2 ^ 32" using assms by simp
  moreover have "n + 8 - 1 = n + 7" by simp
  ultimately show ?thesis unfolding units_def header_size_def by (simp only: unat_word_ariths) simp
qed

text \<open>A malloc on an initialised heap either takes a block or is refused by \<^verbatim>\<open>sbrk\<close>.\<close>

definition refused :: "(u32 \<Rightarrow> u32 \<Rightarrow> bool) \<Rightarrow> u32 \<Rightarrow> uheap \<Rightarrow> bool" where
  "refused grant nunits s \<longleftrightarrow> (\<exists>m. nunits \<le> m \<and> \<not> grant (brk s) (m * 8))"

lemma freep_nonzero: "heap_ok base s fs A \<Longrightarrow> freep s \<noteq> 0"
  using heap_okD(1,5) block_above_base [OF heap_okD(8), of base s fs A "freep s"] by fastforce

lemma malloc_exec:
  assumes ok: "heap_ok base s fs A" and g: "grant_ok grant" and n: "unat nbytes < 0x7FFFFFF0"
  shows "malloc grant base nbytes s = Some (0, s) \<and> refused grant (units nbytes) s \<or>
    (\<exists>h t. malloc grant base nbytes s = Some (h + 8, t) \<and> took_block base s A (units nbytes) h t)"
proof -
  let ?n = "units nbytes"
  have u: "0 < unat ?n" "8 * unat ?n < 0x80000000" using units_unat [OF n] n by auto
  have m: "malloc grant base nbytes s = malloc_loop grant ?n (freep s) (hptr s (freep s)) s"
    using freep_nonzero [OF ok] by (simp add: malloc_def units_def Let_def)
  have took: "\<exists>h t'. malloc_loop grant ?n (freep t) (hptr t (freep t)) t = Some (h + 8, t') \<and> took_block base t A ?n h t'"
    if tok: "heap_ok base t fs' A" and fit: "\<exists>x\<in>set (base # fs'). ?n \<le> hsize t x" for t fs'
  proof -
    obtain w where w: "w \<in> set (base # fs')" "?n \<le> hsize t (hptr t w)"
      "malloc_loop grant ?n (freep t) (hptr t (freep t)) t = Some (carve ?n w (hptr t w) t)"
      using malloc_search [OF tok, of ?n grant] fit by (auto simp: not_le [symmetric])
    then show ?thesis using carve_exec [OF tok w(1) refl u(1) w(2)] by auto
  qed
  from malloc_search [OF ok, of ?n grant] show ?thesis
  proof (elim disjE conjE bexE)
    assume r: "malloc_loop grant ?n (freep s) (hptr s (freep s)) s = refill grant ?n s"
    from morecore_exec [OF ok g u] show ?thesis
    proof (elim disjE conjE exE)
      assume "morecore grant ?n s = Some (0, s)"
      then show ?thesis if "?n \<le> k" "\<not> grant (brk s) (k * 8)" for k using m r that by (auto simp: refill_def refused_def)
    next
      fix t fs'
      assume mc: "morecore grant ?n s = Some (freep t, t)" "freep t \<noteq> 0" and tok: "heap_ok base t fs' A"
        and dat: "data_same A s t" "unat (brk s) \<le> unat (brk t)" and fit: "\<exists>x\<in>set (base # fs'). ?n \<le> hsize t x"
      obtain h t' where "malloc_loop grant ?n (freep t) (hptr t (freep t)) t = Some (h + 8, t')" and tk: "took_block base t A ?n h t'"
        using took [OF tok fit] by blast
      moreover have "took_block base s A ?n h t'" using tk data_same_trans [OF dat(1)] dat(2) by (auto simp: took_block_def)
      ultimately show ?thesis using m r mc by (auto simp: refill_def)
    qed
  next
    fix w
    assume w: "w \<in> set (base # fs)" "?n \<le> hsize s (hptr s w)" "malloc_loop grant ?n (freep s) (hptr s (freep s)) s = Some (carve ?n w (hptr s w) s)"
    then show ?thesis using carve_exec [OF ok w(1) refl u(1) w(2)] m by auto
  qed
qed

text \<open>The first call sets up the empty list.\<close>

definition fresh_heap :: "u32 \<Rightarrow> uheap \<Rightarrow> bool" where
  "fresh_heap base s \<longleftrightarrow> freep s = 0 \<and> base \<noteq> 0 \<and> unat base + 8 \<le> unat (brk s) \<and> unat (brk s) < 0x80000000"

definition first_use :: "u32 \<Rightarrow> uheap \<Rightarrow> uheap" where
  "first_use base s = set_hsize base 0 (set_hptr base base s\<lparr>freep := base\<rparr>)"

lemma first_use_ok:
  assumes "fresh_heap base s"
  shows "heap_ok base (first_use base s) [] {}" "malloc grant base n s = malloc grant base n (first_use base s)" "brk (first_use base s) = brk s"
proof -
  have "hptr (first_use base s) base = base" "hsize (first_use base s) base = 0" by (simp_all add: first_use_def)
  then show "heap_ok base (first_use base s) [] {}"
    using assms by (auto simp: heap_ok_def fresh_heap_def cyc_def blocks_ok_def) (simp_all add: first_use_def)
  have "freep (first_use base s) = base" by (simp add: first_use_def)
  then show "malloc grant base n s = malloc grant base n (first_use base s)"
    using assms by (simp add: malloc_def fresh_heap_def first_use_def Let_def)
  show "brk (first_use base s) = brk s" by (simp add: first_use_def)
qed

section \<open>A program using the allocator\<close>

text \<open>
  The blocks the program holds, by their address and the size it asked for.  It may call
  \<^verbatim>\<open>malloc\<close> for less than two gigabytes, free a block it holds, store words into its blocks and
  grow the process itself.
\<close>

type_synonym live = "u32 \<Rightarrow> u32 option"

inductive heap_step :: "(u32 \<Rightarrow> u32 \<Rightarrow> bool) \<Rightarrow> u32 \<Rightarrow> uheap \<times> live \<Rightarrow> uheap \<times> live \<Rightarrow> bool" for grant base where
  alloc: "unat n < 0x7FFFFFF0 \<Longrightarrow> malloc grant base n s = Some (r, t) \<Longrightarrow>
    heap_step grant base (s, L) (t, if r = 0 then L else L(r \<mapsto> n))"
| release: "r \<in> dom L \<Longrightarrow> free r s = Some t \<Longrightarrow> heap_step grant base (s, L) (t, L(r := None))"
| store: "L r = Some n \<Longrightarrow> unat r \<le> unat x \<Longrightarrow> unat x + 4 \<le> unat r + unat n \<Longrightarrow>
    heap_step grant base (s, L) (s\<lparr>um := (um s)(x := w)\<rparr>, L)"
| grow: "grant (brk s) n \<Longrightarrow> unat n < 0x80000000 \<Longrightarrow> heap_step grant base (s, L) (s\<lparr>brk := brk s + n\<rparr>, L)"

inductive_cases heap_stepE: "heap_step grant base (s, L) (t, L')"

definition heap_start :: "u32 \<Rightarrow> uheap \<times> live \<Rightarrow> bool" where
  "heap_start base x \<longleftrightarrow> fresh_heap base (fst x) \<and> snd x = Map.empty"

definition headers :: "live \<Rightarrow> u32 set" where
  "headers L = (\<lambda>r. r - 8) ` dom L"

definition sized :: "uheap \<Rightarrow> live \<Rightarrow> bool" where
  "sized s L \<longleftrightarrow> (\<forall>r n. L r = Some n \<longrightarrow> unat r + unat n \<le> hi s (r - 8))"

definition heap_inv :: "u32 \<Rightarrow> uheap \<times> live \<Rightarrow> bool" where
  "heap_inv base x \<longleftrightarrow> heap_start base x \<or> (\<exists>fs. heap_ok base (fst x) fs (headers (snd x))) \<and> sized (fst x) (snd x)"

lemma headers_upd: "headers (L(r \<mapsto> n)) = insert (r - 8) (headers L)" "headers (L(r := None)) = headers L - {r - 8}"
  by (auto simp: headers_def)

lemma user_pointer: "heap_ok base s fs A \<Longrightarrow> a \<in> A \<Longrightarrow> unat (a + 8) = lo a + 8"
  using blocksD(2,3) [OF heap_okD(8), of base s fs A a] heap_okD(3) [of base s fs A]
  by (simp add: unat_word_ariths lo_def)

lemma live_pointer:
  assumes "heap_ok base s fs (headers L)" and "r \<in> dom L"
  shows "r - 8 \<in> headers L" "unat r = lo (r - 8) + 8"
  using user_pointer [OF assms(1), of "r - 8"] assms(2) by (auto simp: headers_def)

lemma sized_data: "sized s L \<Longrightarrow> data_same (headers L) s t \<Longrightarrow> sized t L"
  unfolding sized_def data_same_def headers_def hi_def by (metis domI imageI)

lemma took_inv:
  assumes tk: "took_block base s (headers L) (units n) h t" and sz: "sized s L" and n: "unat n < 0x7FFFFFF0"
  shows "h + 8 \<noteq> 0" "heap_inv base (t, L(h + 8 \<mapsto> n))" "h + 8 \<notin> dom L"
proof -
  obtain fs where ok: "heap_ok base t fs (insert h (headers L))" using tk by (auto simp: took_block_def)
  have u: "unat (h + 8) = lo h + 8" using user_pointer [OF ok] by simp
  then show "h + 8 \<noteq> 0" by auto
  show "h + 8 \<notin> dom L" using tk by (force simp: took_block_def headers_def)
  have "hi t h = lo h + 8 * ((unat n + 7) div 8 + 1)" using tk units_unat [OF n] by (simp add: took_block_def hi_def lo_def)
  then have "unat (h + 8) + unat n \<le> hi t h" using u by simp
  then have "sized t (L(h + 8 \<mapsto> n))" using sized_data [OF sz] tk by (simp add: sized_def took_block_def)
  then show "heap_inv base (t, L(h + 8 \<mapsto> n))" using ok by (auto simp: heap_inv_def headers_upd)
qed

lemma malloc_inv:
  assumes inv: "heap_inv base (s, L)" and g: "grant_ok grant" and n: "unat n < 0x7FFFFFF0"
  shows "\<exists>r t. malloc grant base n s = Some (r, t) \<and> (r = 0 \<longrightarrow> heap_inv base (t, L) \<and> refused grant (units n) s) \<and>
    (r \<noteq> 0 \<longrightarrow> heap_inv base (t, L(r \<mapsto> n)) \<and> r \<notin> dom L) \<and> data_same (headers L) s t"
proof -
  have init: ?thesis if ok: "heap_ok base u fs (headers L)" and sz: "sized u L" and m: "malloc grant base n s = malloc grant base n u"
    "brk u = brk s" "data_same (headers L) s u" for u fs
    using malloc_exec [OF ok g n]
  proof (elim disjE conjE exE)
    assume "malloc grant base n u = Some (0, u)" "refused grant (units n) u"
    then show ?thesis using ok sz m by (auto simp: heap_inv_def refused_def)
  next
    fix h t
    assume "malloc grant base n u = Some (h + 8, t)" and tk: "took_block base u (headers L) (units n) h t"
    moreover have "data_same (headers L) s t" using data_same_trans [OF m(3)] tk by (simp add: took_block_def)
    ultimately show ?thesis using took_inv [OF tk sz n] m by auto
  qed
  show ?thesis
  proof (cases "heap_start base (s, L)")
    case True
    then have f: "fresh_heap base s" "L = Map.empty" by (simp_all add: heap_start_def)
    then show ?thesis using init [of "first_use base s" "[]"] first_use_ok [OF f(1)] by (simp add: headers_def sized_def data_same_def)
  next
    case False
    then show ?thesis using inv init [of s] data_same_refl by (auto simp: heap_inv_def)
  qed
qed

lemma free_inv:
  assumes inv: "heap_inv base (s, L)" and r: "r \<in> dom L"
  shows "\<exists>t. free r s = Some t \<and> heap_inv base (t, L(r := None)) \<and> data_same (headers L - {r - 8}) s t"
proof -
  have "\<not> heap_start base (s, L)" using r by (auto simp: heap_start_def)
  then obtain fs where ok: "heap_ok base s fs (headers L)" and sz: "sized s L" using inv by (auto simp: heap_inv_def)
  have a: "r - 8 \<in> headers L" using live_pointer [OF ok r] by simp
  obtain t fs' where t: "free r s = Some t" and fb: "freed_block base s fs (headers L) (r - 8) t fs'"
    using free_exec [OF ok a] by auto
  have dat: "data_same (headers L - {r - 8}) s t" using free_data [OF ok fb a] .
  have "sized t (L(r := None))"
    by (rule sized_data [of s]) (use sz dat in \<open>simp_all add: sized_def headers_upd\<close>)
  then show ?thesis using t fb dat by (auto simp: heap_inv_def freed_block_def headers_upd)
qed

lemma heap_ok_cong:
  assumes ok: "heap_ok base s fs A" and eq: "\<And>a. a \<in> insert base (set fs \<union> A) \<Longrightarrow> um t a = um s a \<and> um t (a + 4) = um s (a + 4)"
    and "brk t = brk s" "freep t = freep s"
  shows "heap_ok base t fs A"
proof -
  have hs: "hsize t a = hsize s a" "hptr t a = hptr s a" if "a \<in> insert base (set fs \<union> A)" for a
    using eq [OF that] by (simp_all add: hsize_def hptr_def)
  have "seg t (base # fs) base = seg s (base # fs) base" by (rule seg_cong) (use hs in auto)
  moreover have "blocks_ok base t (set fs \<union> A) = blocks_ok base s (set fs \<union> A)" by (rule blocks_cong) (use assms hs in auto)
  moreover have "hi t a = hi s a" if "a \<in> set fs" for a using hs [of a] that by (simp add: hi_def)
  ultimately show ?thesis using ok hs(1) [of base] assms(3,4) by (simp add: heap_ok_def cyc_def)
qed

lemma heap_store_inv:
  assumes inv: "heap_inv base (s, L)" and r: "L r = Some n" and x: "unat r \<le> unat x" "unat x + 4 \<le> unat r + unat n"
  shows "heap_inv base (s\<lparr>um := (um s)(x := w)\<rparr>, L)"
proof -
  have "\<not> heap_start base (s, L)" using r by (auto simp: heap_start_def)
  then obtain fs where ok: "heap_ok base s fs (headers L)" and sz: "sized s L" using inv by (auto simp: heap_inv_def)
  have "r \<in> dom L" using r by blast
  note D = heap_okD [OF ok] and P = live_pointer [OF ok this]
  let ?a = "r - 8" and ?t = "s\<lparr>um := (um s)(x := w)\<rparr>"
  have xa: "lo ?a + 8 \<le> unat x" "unat x + 4 \<le> hi s ?a" using x P(2) sz r unfolding sized_def by fastforce+
  have away: "x \<noteq> b \<and> x \<noteq> b + 4" if b: "b \<in> insert base (set fs \<union> headers L)" for b
  proof -
    have "unat b + 8 \<le> unat x \<or> unat x + 4 \<le> unat b" "unat b < 0x80000000"
      using b P(1) xa D(2,3) blocksD(1) [OF D(8), of ?a] blocksD(2,3) [OF D(8), of b] blocksD(4) [OF D(8), of ?a b]
      by (cases "b = ?a"; auto simp: apart_def lo_def)+
    then show ?thesis using lo_plus4 [of b] by auto
  qed
  have tok: "heap_ok base ?t fs (headers L)" by (rule heap_ok_cong [OF ok]) (use away in auto)
  have "hi ?t b = hi s b" if "b \<in> headers L" for b using away [of b] that by (auto simp: hi_def hsize_def)
  then have "sized ?t L" using sz live_pointer(1) [OF ok] by (auto simp: sized_def domI)
  then show ?thesis using tok by (auto simp: heap_inv_def)
qed

lemma grow_inv:
  assumes inv: "heap_inv base (s, L)" and g: "grant_ok grant" "grant (brk s) n" "unat n < 0x80000000"
  shows "heap_inv base (s\<lparr>brk := brk s + n\<rparr>, L)"
proof -
  have lim: "unat (brk s) + unat n < 0x80000000" using g unfolding grant_ok_def by blast
  show ?thesis
  proof (cases "heap_start base (s, L)")
    case True
    have "unat (brk s + n) = unat (brk s) + unat n" using lim by (simp add: unat_word_ariths)
    then show ?thesis using True lim by (simp add: heap_inv_def heap_start_def fresh_heap_def)
  next
    case False
    then obtain fs where ok: "heap_ok base s fs (headers L)" and "sized s L" using inv by (auto simp: heap_inv_def)
    then show ?thesis using heap_grow [OF ok lim] by (auto simp: heap_inv_def sized_def hi_def)
  qed
qed

lemma heap_inv_step:
  assumes "heap_inv base x" and "heap_step grant base x y" and g: "grant_ok grant"
  shows "heap_inv base y"
  using assms(2)
proof (cases rule: heap_step.cases)
  case (alloc n s r t L)
  have "heap_inv base (s, L)" using assms(1) alloc by simp
  then show ?thesis using malloc_inv [OF _ g alloc(3), of base s L] alloc by (cases "r = 0") auto
next
  case (release r L s t)
  then show ?thesis using free_inv [of base s L r] assms(1) by auto
next
  case (store L r n x s w)
  then show ?thesis using heap_store_inv assms(1) by simp
next
  case (grow s n L)
  then show ?thesis using grow_inv [of base s L grant n] assms(1) g by simp
qed

definition malloc_start :: "(u32 \<Rightarrow> u32 \<Rightarrow> bool) \<Rightarrow> u32 \<Rightarrow> uheap \<times> live \<Rightarrow> bool" where
  "malloc_start grant base x \<longleftrightarrow> grant_ok grant \<and> heap_start base x"

interpretation hm: state_machine "malloc_start grant base" "heap_step grant base" "\<lambda>x. grant_ok grant \<and> heap_inv base x" for grant base
proof
  show "malloc_start grant base x \<Longrightarrow> grant_ok grant \<and> heap_inv base x" for x by (simp add: malloc_start_def heap_inv_def)
qed (blast intro: heap_inv_step)

lemma live_bounds:
  assumes inv: "heap_inv base (s, L)" and r: "L r = Some n"
  shows "unat base + 8 \<le> unat r \<and> unat r + unat n \<le> unat (brk s)"
    "L q = Some m \<Longrightarrow> q \<noteq> r \<Longrightarrow> unat r + unat n \<le> unat q \<or> unat q + unat m \<le> unat r"
    "unat r \<le> unat y \<Longrightarrow> unat y < unat r + unat n \<Longrightarrow> payload s (r - 8) y"
proof -
  have rd: "r \<in> dom L" using r by blast
  then have "\<not> heap_start base (s, L)" by (auto simp: heap_start_def)
  then obtain fs where ok: "heap_ok base s fs (headers L)" and sz: "sized s L" using inv by (auto simp: heap_inv_def)
  note D = heap_okD [OF ok] and P = live_pointer [OF ok rd]
  have in_block: "unat r + unat n \<le> hi s (r - 8)" using sz r by (simp add: sized_def)
  then show "unat base + 8 \<le> unat r \<and> unat r + unat n \<le> unat (brk s)"
    using blocksD(1,3) [OF D(8), of "r - 8"] P by simp
  show "unat r \<le> unat y \<Longrightarrow> unat y < unat r + unat n \<Longrightarrow> payload s (r - 8) y" using P(2) in_block by (simp add: payload_def)
  assume q: "L q = Some m" "q \<noteq> r"
  have qd: "q \<in> dom L" using q by blast
  have "apart s (r - 8) (q - 8)" using blocksD(4) [OF D(8), of "r - 8" "q - 8"] P(1) live_pointer(1) [OF ok qd] q(2) by simp
  moreover have "unat q + unat m \<le> hi s (q - 8)" using sz q by (simp add: sized_def)
  ultimately show "unat r + unat n \<le> unat q \<or> unat q + unat m \<le> unat r"
    using P(2) live_pointer(2) [OF ok qd] in_block by (auto simp: apart_def)
qed

text \<open>The contents of the live blocks of \<open>L\<close>, word by word.\<close>

definition keeps :: "live \<Rightarrow> uheap \<Rightarrow> uheap \<Rightarrow> bool" where
  "keeps L s t \<longleftrightarrow> (\<forall>r n y. L r = Some n \<and> unat r \<le> unat y \<and> unat y < unat r + unat n \<longrightarrow> um t y = um s y)"

lemma data_same_keeps:
  assumes inv: "heap_inv base (s, L)" and d: "data_same A s t" and A: "headers M \<subseteq> A" and M: "\<And>r n. M r = Some n \<Longrightarrow> L r = Some n"
  shows "keeps M s t"
  unfolding keeps_def
proof (intro allI impI, elim conjE)
  fix r n and y :: u32
  assume r: "M r = Some n" "unat r \<le> unat y" "unat y < unat r + unat n"
  have "r - 8 \<in> A" using A r(1) by (auto simp: headers_def)
  then show "um t y = um s y" using live_bounds(3) [OF inv M [OF r(1)] r(2,3)] d by (simp add: data_same_def)
qed

lemma malloc_size_wraps: "malloc grant base 0xFFFFFFFF s = malloc grant base 0 s"
  by (simp add: malloc_def header_size_def Let_def)

definition ex_heap :: uheap where
  "ex_heap = \<lparr>um = (\<lambda>_. 0), freep = 0, brk = 0x4000\<rparr>"

definition ex_grant :: "u32 \<Rightarrow> u32 \<Rightarrow> bool" where
  "ex_grant b n \<longleftrightarrow> b < 0x10000 \<and> n < 0x10000"

lemma ex_malloc: "map_option fst (malloc ex_grant 0x3000 100 ex_heap) = Some 0xBF98"
  by (simp add: malloc_def malloc_loop.simps morecore_def sbrk_def free_def free_find.simps free_at_def carve_def
     ex_heap_def ex_grant_def header_size_def Let_def hptr_def hsize_def set_hptr_def set_hsize_def)

section \<open>Property\<close>



end
