(* ===== verification/Text_Tools.thy ===== *)
theory Text_Tools
  imports Kernel_Prelude
begin

text \<open>
  Text tools of the user level: the pattern matcher and the line loop of \<^verbatim>\<open>grep.c\<close>, the counters of
  \<^verbatim>\<open>wc.c\<close>.

  A C string is the list of its bytes before the terminating zero.  The data a program reads is the
  list of the non-empty results of \<^verbatim>\<open>read\<close>, up to the first result that ends the loop.
\<close>

section \<open>The matcher\<close>

definition re_star :: u8 where [const_defs]: "re_star = 0x2A"
definition re_dot :: u8 where [const_defs]: "re_dot = 0x2E"
definition re_end :: u8 where [const_defs]: "re_end = 0x24"
definition re_begin :: u8 where [const_defs]: "re_begin = 0x5E"
definition newline :: u8 where [const_defs]: "newline = 0x0A"

function matchhere :: "u8 list \<Rightarrow> u8 list \<Rightarrow> bool"
  and matchstar :: "u8 \<Rightarrow> u8 list \<Rightarrow> u8 list \<Rightarrow> bool" where
  "matchhere re tx =
     (case re of
        [] \<Rightarrow> True
      | c # re' \<Rightarrow>
          if re' \<noteq> [] \<and> hd re' = re_star then matchstar c (tl re') tx
          else if c = re_end \<and> re' = [] then tx = []
          else if tx \<noteq> [] \<and> (c = re_dot \<or> c = hd tx) then matchhere re' (tl tx)
          else False)"
| "matchstar c re tx =
     (if matchhere re tx then True
      else if tx \<noteq> [] \<and> (hd tx = c \<or> c = re_dot) then matchstar c re (tl tx)
      else False)"
  by pat_completeness auto
termination
  by (relation "measure (\<lambda>x. case x of Inl (re, t) \<Rightarrow> 2 * length re + length t | Inr (c, re, t) \<Rightarrow> 2 * length re + length t + 1)")
    auto

declare matchhere.simps [simp del] matchstar.simps [simp del]

fun match_loop :: "u8 list \<Rightarrow> u8 list \<Rightarrow> bool" where
  "match_loop re tx =
     (if matchhere re tx then True
      else case tx of [] \<Rightarrow> False | _ # rest \<Rightarrow> match_loop re rest)"

declare match_loop.simps [simp del]

definition match :: "u8 list \<Rightarrow> u8 list \<Rightarrow> bool" where
  "match re tx = (if re \<noteq> [] \<and> hd re = re_begin then matchhere (tl re) tx else match_loop re tx)"

section \<open>The language of a pattern\<close>

text \<open>
  A pattern is a sequence of pieces, an atom once or any number of times, which may be tied to the
  beginning and to the end of the text.
\<close>

datatype atom = Any | Byte u8

datatype piece = Once atom | Many atom

fun accepts :: "atom \<Rightarrow> u8 \<Rightarrow> bool" where
  "accepts Any c \<longleftrightarrow> True"
| "accepts (Byte b) c \<longleftrightarrow> b = c"

fun lang :: "piece list \<Rightarrow> u8 list set" where
  "lang [] = {[]}"
| "lang (Once a # ps) = {c # w |c w. accepts a c \<and> w \<in> lang ps}"
| "lang (Many a # ps) = {v @ w |v w. list_all (accepts a) v \<and> w \<in> lang ps}"

definition atom_of :: "u8 \<Rightarrow> atom" where
  "atom_of c = (if c = re_dot then Any else Byte c)"

fun pieces :: "u8 list \<Rightarrow> piece list \<times> bool" where
  "pieces [] = ([], False)"
| "pieces [c] = (if c = re_end then ([], True) else ([Once (atom_of c)], False))"
| "pieces (c # d # re) =
     (if d = re_star then apfst ((#) (Many (atom_of c))) (pieces re)
      else apfst ((#) (Once (atom_of c))) (pieces (d # re)))"

definition prefix_of :: "piece list \<times> bool \<Rightarrow> u8 list \<Rightarrow> bool" where
  "prefix_of p tx \<longleftrightarrow> (\<exists>u v. tx = u @ v \<and> u \<in> lang (fst p) \<and> (snd p \<longrightarrow> v = []))"

lemma accepts_atom: "accepts (atom_of c) x \<longleftrightarrow> c = re_dot \<or> c = x"
  by (auto simp: atom_of_def)

lemma prefix_ofI: "u \<in> lang ps \<Longrightarrow> (e \<longrightarrow> v = []) \<Longrightarrow> prefix_of (ps, e) (u @ v)"
  by (auto simp: prefix_of_def)

lemma prefix_of_all: "u \<in> lang ps \<Longrightarrow> prefix_of (ps, e) u"
  using prefix_ofI [of u ps e "[]"] by simp

lemma prefix_ofE:
  assumes "prefix_of (ps, e) tx"
  obtains u v where "tx = u @ v" "u \<in> lang ps" "e \<longrightarrow> v = []"
  using assms unfolding prefix_of_def fst_conv snd_conv by blast

lemma prefix_Once:
  "prefix_of (Once a # ps, e) tx \<longleftrightarrow> (\<exists>x xs. tx = x # xs \<and> accepts a x \<and> prefix_of (ps, e) xs)"
proof
  assume "prefix_of (Once a # ps, e) tx"
  then show "\<exists>x xs. tx = x # xs \<and> accepts a x \<and> prefix_of (ps, e) xs"
    by (rule prefix_ofE) (auto intro: prefix_ofI prefix_of_all)
next
  assume "\<exists>x xs. tx = x # xs \<and> accepts a x \<and> prefix_of (ps, e) xs"
  then obtain x xs where x: "tx = x # xs" "accepts a x" "prefix_of (ps, e) xs" by blast
  from x(3) show "prefix_of (Once a # ps, e) tx"
  proof (rule prefix_ofE)
    fix u v
    assume "xs = u @ v" "u \<in> lang ps" "e \<longrightarrow> v = []"
    then show ?thesis using x prefix_ofI [of "x # u" "Once a # ps" e v] by auto
  qed
qed

lemma prefix_Many:
  "prefix_of (Many a # ps, e) tx \<longleftrightarrow>
    prefix_of (ps, e) tx \<or> (\<exists>x xs. tx = x # xs \<and> accepts a x \<and> prefix_of (Many a # ps, e) xs)"
proof
  assume "prefix_of (Many a # ps, e) tx"
  then show "prefix_of (ps, e) tx \<or> (\<exists>x xs. tx = x # xs \<and> accepts a x \<and> prefix_of (Many a # ps, e) xs)"
  proof (rule prefix_ofE)
    fix u z
    assume u: "tx = u @ z" "u \<in> lang (Many a # ps)" "e \<longrightarrow> z = []"
    then obtain v w where v: "u = v @ w" "list_all (accepts a) v" "w \<in> lang ps" by auto
    show ?thesis
    proof (cases v)
      case Nil
      then show ?thesis using u v prefix_ofI [of w ps e z] by auto
    next
      case (Cons x v')
      then have "v' @ w \<in> lang (Many a # ps)" using v by auto
      then show ?thesis using u v Cons prefix_ofI [of "v' @ w" "Many a # ps" e z] by auto
    qed
  qed
next
  assume "prefix_of (ps, e) tx \<or> (\<exists>x xs. tx = x # xs \<and> accepts a x \<and> prefix_of (Many a # ps, e) xs)"
  then show "prefix_of (Many a # ps, e) tx"
  proof (elim disjE exE conjE)
    assume "prefix_of (ps, e) tx"
    moreover have "lang ps \<subseteq> lang (Many a # ps)" by (force intro: exI [of _ "[]"])
    ultimately show ?thesis unfolding prefix_of_def fst_conv snd_conv by blast
  next
    fix x xs
    assume x: "tx = x # xs" "accepts a x" "prefix_of (Many a # ps, e) xs"
    from x(3) show ?thesis
    proof (rule prefix_ofE)
      fix u z
      assume u: "xs = u @ z" "u \<in> lang (Many a # ps)" "e \<longrightarrow> z = []"
      then obtain v w where v: "u = v @ w" "list_all (accepts a) v" "w \<in> lang ps" by auto
      have "(x # v) @ w \<in> lang (Many a # ps)" unfolding lang.simps mem_Collect_eq
        by (intro exI [of _ "x # v"] exI [of _ w]) (use v x in auto)
      then show ?thesis using u v x prefix_ofI [of "(x # v) @ w" "Many a # ps" e z] by auto
    qed
  qed
qed

lemma matchhere_cases:
  "matchhere [] t"
  "matchhere [c] t \<longleftrightarrow> (if c = re_end then t = [] else t \<noteq> [] \<and> accepts (atom_of c) (hd t))"
  "matchhere (c # re_star # re) t \<longleftrightarrow> matchstar c re t"
  "d \<noteq> re_star \<Longrightarrow> matchhere (c # d # re) t \<longleftrightarrow> t \<noteq> [] \<and> accepts (atom_of c) (hd t) \<and> matchhere (d # re) (tl t)"
proof -
  show nil: "matchhere [] t" for t by (subst matchhere.simps) simp
  show "matchhere [c] t \<longleftrightarrow> (if c = re_end then t = [] else t \<noteq> [] \<and> accepts (atom_of c) (hd t))"
    by (subst matchhere.simps) (simp add: nil accepts_atom)
  show "matchhere (c # re_star # re) t \<longleftrightarrow> matchstar c re t" by (subst matchhere.simps) simp
  assume "d \<noteq> re_star"
  then show "matchhere (c # d # re) t \<longleftrightarrow> t \<noteq> [] \<and> accepts (atom_of c) (hd t) \<and> matchhere (d # re) (tl t)"
    by (subst matchhere.simps) (simp add: accepts_atom)
qed

lemma matchstar_prefix:
  assumes "\<And>t. matchhere re t \<longleftrightarrow> prefix_of (ps, e) t"
  shows "matchstar c re t \<longleftrightarrow> prefix_of (Many (atom_of c) # ps, e) t"
proof (induction t)
  case Nil
  show ?case by (subst matchstar.simps, subst prefix_Many) (simp add: assms)
next
  case (Cons x t)
  then show ?case by (subst matchstar.simps, subst prefix_Many) (auto simp: assms accepts_atom)
qed

lemma match_prefix: "matchhere re t \<longleftrightarrow> prefix_of (pieces re) t"
proof (induction re arbitrary: t rule: pieces.induct)
  case 1
  show ?case by (simp add: matchhere_cases prefix_of_def)
next
  case (2 c)
  show ?case
    by (cases t) (auto simp: matchhere_cases prefix_Once prefix_of_def [of "([], _)"])
next
  case (3 c d re)
  show ?case
  proof (cases "d = re_star")
    case True
    obtain ps e where ps: "pieces re = (ps, e)" by (cases "pieces re")
    show ?thesis using matchstar_prefix [of re ps e c t] 3(1) True ps by (simp add: matchhere_cases)
  next
    case False
    obtain ps e where ps: "pieces (d # re) = (ps, e)" by (cases "pieces (d # re)")
    show ?thesis using 3(2) [OF False] False ps by (cases t) (auto simp: matchhere_cases prefix_Once)
  qed
qed

lemma match_loop_suffix: "match_loop re tx \<longleftrightarrow> (\<exists>x y. tx = x @ y \<and> matchhere re y)"
proof (induction tx)
  case (Cons a tx)
  then show ?case by (subst match_loop.simps) (auto simp: Cons_eq_append_conv)
qed (simp add: match_loop.simps)

section \<open>The line loop of grep\<close>

text \<open>
  \<^verbatim>\<open>strchr(p, '\n')\<close>: the line at \<open>p\<close> and what follows its newline.  The search ends at a zero byte,
  as the data in the buffer is terminated by one.
\<close>

definition split_line :: "u8 list \<Rightarrow> (u8 list \<times> u8 list) option" where
  "split_line p =
     (let l = takeWhile (\<lambda>c. c \<noteq> 0 \<and> c \<noteq> newline) p; rest = drop (length l) p
      in if rest \<noteq> [] \<and> hd rest = newline then Some (l, tl rest) else None)"

lemma split_line_smaller: "split_line p = Some (l, r) \<Longrightarrow> length r < length p"
proof -
  assume "split_line p = Some (l, r)"
  then have "drop (length l) p \<noteq> []" "r = tl (drop (length l) p)" by (auto simp: split_line_def Let_def split: if_splits)
  then show "length r < length p" by (cases p) auto
qed

text \<open>The inner loop: the lines it writes, and the position \<open>p\<close> where it ends.\<close>

function grep_lines :: "u8 list \<Rightarrow> u8 list \<Rightarrow> u8 list \<times> u8 list" where
  "grep_lines pat p =
     (case split_line p of
        None \<Rightarrow> (p, [])
      | Some (l, r) \<Rightarrow>
          (let (q, out) = grep_lines pat r in (q, (if match pat l then l @ [newline] else []) @ out)))"
  by pat_completeness auto
termination
  by (relation "measure (\<lambda>(pat, p). length p)") (auto dest: split_line_smaller)

declare grep_lines.simps [simp del]

text \<open>One round of the outer loop: the bytes left in the buffer and the output.\<close>

definition grep_round :: "u8 list \<Rightarrow> u8 list \<Rightarrow> u8 list \<Rightarrow> u8 list \<times> u8 list" where
  "grep_round pat pending chunk =
     (let data = pending @ chunk; (p, out) = grep_lines pat data
      in (if length p = length data then [] else p, out))"

fun grep_loop :: "u8 list \<Rightarrow> u8 list \<Rightarrow> u8 list list \<Rightarrow> u8 list" where
  "grep_loop pat pending [] = []"
| "grep_loop pat pending (chunk # chunks) =
     (let (pending', out) = grep_round pat pending chunk in out @ grep_loop pat pending' chunks)"

definition grep :: "u8 list \<Rightarrow> u8 list list \<Rightarrow> u8 list" where
  "grep pat chunks = grep_loop pat [] chunks"

text \<open>The reference: the complete lines of the whole input.\<close>

fun cut_lines :: "u8 list \<Rightarrow> u8 list \<Rightarrow> u8 list list" where
  "cut_lines acc [] = []"
| "cut_lines acc (x # xs) = (if x = newline then acc # cut_lines [] xs else cut_lines (acc @ [x]) xs)"

definition matching_lines :: "u8 list \<Rightarrow> u8 list \<Rightarrow> u8 list" where
  "matching_lines pat data = concat (map (\<lambda>l. l @ [newline]) (filter (match pat) (cut_lines [] data)))"

definition last_part :: "u8 list \<Rightarrow> u8 list" where
  "last_part data = rev (takeWhile (\<lambda>c. c \<noteq> newline) (rev data))"

text \<open>
  What \<^verbatim>\<open>grep\<close> needs of the reads: each fits into the buffer behind the pending part of a line, and
  brings a newline into it.
\<close>

fun good_reads :: "u8 list \<Rightarrow> u8 list list \<Rightarrow> bool" where
  "good_reads pending [] \<longleftrightarrow> True"
| "good_reads pending (chunk # chunks) \<longleftrightarrow> length (pending @ chunk) < 1024 \<and> newline \<in> set (pending @ chunk) \<and>
     0 \<notin> set (pending @ chunk) \<and> good_reads (last_part (pending @ chunk)) chunks"

lemma cut_line: "newline \<notin> set l \<Longrightarrow> cut_lines acc (l @ newline # r) = (acc @ l) # cut_lines [] r"
  by (induction l arbitrary: acc) auto

lemma cut_none: "newline \<notin> set l \<Longrightarrow> cut_lines acc l = []"
  by (induction l arbitrary: acc) auto

lemma last_part_line: "last_part (l @ newline # r) = last_part r"
  by (simp add: last_part_def takeWhile_tail)

lemma takeWhile_line: "newline \<notin> set l \<Longrightarrow> takeWhile (\<lambda>c. c \<noteq> newline) l = l"
  by (induction l) auto

lemma last_part_none: "newline \<notin> set l \<Longrightarrow> last_part l = l"
  by (simp add: last_part_def takeWhile_line)

lemma split_line_eq:
  assumes "0 \<notin> set p"
  shows "split_line p = (if newline \<in> set p then Some (takeWhile (\<lambda>c. c \<noteq> newline) p, tl (dropWhile (\<lambda>c. c \<noteq> newline) p)) else None)"
proof -
  have tw: "takeWhile (\<lambda>c. c \<noteq> 0 \<and> c \<noteq> newline) p = takeWhile (\<lambda>c. c \<noteq> newline) p"
    by (rule takeWhile_cong) (use assms in auto)
  have d: "drop (length (takeWhile (\<lambda>c. c \<noteq> newline) p)) p = dropWhile (\<lambda>c. c \<noteq> newline) p"
    by (simp add: dropWhile_eq_drop)
  have "newline \<in> set p \<longleftrightarrow> dropWhile (\<lambda>c. c \<noteq> newline) p \<noteq> []" by auto
  moreover have "dropWhile (\<lambda>c. c \<noteq> newline) p \<noteq> [] \<Longrightarrow> hd (dropWhile (\<lambda>c. c \<noteq> newline) p) = newline"
    using hd_dropWhile [of "\<lambda>c. c \<noteq> newline" p] by blast
  ultimately show ?thesis unfolding split_line_def Let_def tw d by auto
qed

lemma grep_lines_spec: "0 \<notin> set p \<Longrightarrow> grep_lines pat p = (last_part p, matching_lines pat p)"
proof (induction pat p rule: grep_lines.induct)
  case (1 pat p)
  show ?case
  proof (cases "newline \<in> set p")
    case False
    then show ?thesis using 1(2) split_line_eq [of p] last_part_none cut_none
      by (subst grep_lines.simps) (simp add: matching_lines_def)
  next
    case True
    then obtain l r where p: "p = l @ newline # r" "newline \<notin> set l" by (meson split_list_first)
    have tw: "takeWhile (\<lambda>c. c \<noteq> newline) p = l" using p by (simp add: takeWhile_tail takeWhile_line)
    moreover have "dropWhile (\<lambda>c. c \<noteq> newline) p = newline # r" using p by (induction l arbitrary: p) auto
    ultimately have s: "split_line p = Some (l, r)" using split_line_eq [of p] 1(2) True by simp
    have "grep_lines pat r = (last_part r, matching_lines pat r)" using 1(1) [OF s refl] 1(2) p by simp
    then show ?thesis using s p cut_line [of l "[]" r] last_part_line [of l r]
      by (subst grep_lines.simps) (simp add: matching_lines_def)
  qed
qed

lemma cut_append: "cut_lines acc (xs @ ys) = cut_lines acc xs @ cut_lines (if newline \<in> set xs then last_part xs else acc @ xs) ys"
proof (induction xs arbitrary: acc)
  case (Cons x xs)
  have l: "last_part (newline # xs) = last_part xs" using last_part_line [of "[]" xs] by simp
  have l2: "newline \<in> set xs \<Longrightarrow> last_part (x # xs) = last_part xs"
    by (simp add: last_part_def takeWhile_append1)
  show ?case using Cons.IH [of "[]"] Cons.IH [of "acc @ [x]"] l l2 last_part_none [of xs] by auto
qed simp

lemma cut_newline: "newline \<notin> set acc \<Longrightarrow> cut_lines [] (acc @ xs) = cut_lines acc xs"
  using cut_append [of "[]" acc xs] by (simp add: cut_none)

lemma matching_append:
  "newline \<in> set xs \<Longrightarrow> matching_lines pat (xs @ ys) = matching_lines pat xs @ matching_lines pat (last_part xs @ ys)"
proof -
  assume "newline \<in> set xs"
  moreover have "newline \<notin> set (last_part xs)" by (auto simp: last_part_def dest: set_takeWhileD)
  ultimately show ?thesis by (simp add: matching_lines_def cut_append [of _ xs ys] cut_newline)
qed

lemma last_part_shorter: "newline \<in> set xs \<Longrightarrow> length (last_part xs) < length xs"
proof -
  assume "newline \<in> set xs"
  then obtain l r where "xs = l @ newline # r" "newline \<notin> set r" by (meson split_list_last)
  then show ?thesis using last_part_line [of l r] last_part_none [of r] by simp
qed

lemma grep_round_spec:
  assumes "newline \<in> set (pending @ chunk)" and "0 \<notin> set (pending @ chunk)"
  shows "grep_round pat pending chunk = (last_part (pending @ chunk), matching_lines pat (pending @ chunk))"
  using last_part_shorter [OF assms(1)] grep_lines_spec [OF assms(2), of pat] by (simp add: grep_round_def Let_def)

lemma grep_loop_spec:
  "good_reads pending chunks \<Longrightarrow> newline \<notin> set pending \<Longrightarrow> grep_loop pat pending chunks = matching_lines pat (pending @ concat chunks)"
proof (induction pending chunks rule: good_reads.induct)
  case (1 pending)
  then show ?case by (simp add: matching_lines_def cut_none)
next
  case (2 pending chunk chunks)
  have "newline \<notin> set (last_part (pending @ chunk))" by (auto simp: last_part_def dest: set_takeWhileD)
  then show ?case using 2 grep_round_spec [of pending chunk pat] matching_append [of "pending @ chunk" pat "concat chunks"] by simp
qed

section \<open>Counting words\<close>

record wc_state =
  wc_l :: u32
  wc_w :: u32
  wc_c :: u32
  wc_inword :: bool

definition wc_space :: "u8 \<Rightarrow> bool" where
  "wc_space b \<longleftrightarrow> b = 0x20 \<or> b = 0x0D \<or> b = 0x09 \<or> b = 0x0A \<or> b = 0x0B"

definition wc_byte :: "u8 \<Rightarrow> wc_state \<Rightarrow> wc_state" where
  "wc_byte b s =
     (let s = s\<lparr>wc_c := wc_c s + 1\<rparr>;
          s = (if b = newline then s\<lparr>wc_l := wc_l s + 1\<rparr> else s)
      in if wc_space b then s\<lparr>wc_inword := False\<rparr>
         else if \<not> wc_inword s then s\<lparr>wc_w := wc_w s + 1, wc_inword := True\<rparr> else s)"

definition wc :: "u8 list list \<Rightarrow> wc_state" where
  "wc chunks = fold (fold wc_byte) chunks \<lparr>wc_l = 0, wc_w = 0, wc_c = 0, wc_inword = False\<rparr>"

text \<open>A word starts at a byte that is not a space and does not follow another such byte.\<close>

definition word_starts :: "bool \<Rightarrow> u8 list \<Rightarrow> nat" where
  "word_starts inword bs = length (filter (\<lambda>(p, b). \<not> p \<and> \<not> wc_space b) (zip (inword # map (\<lambda>b. \<not> wc_space b) bs) bs))"

lemma word_starts_Cons: "word_starts p (b # bs) = (if \<not> p \<and> \<not> wc_space b then 1 else 0) + word_starts (\<not> wc_space b) bs"
  by (simp add: word_starts_def)

lemma wc_fold: "fold wc_byte bs s = \<lparr>wc_l = wc_l s + of_nat (count_list bs newline), wc_w = wc_w s + of_nat (word_starts (wc_inword s) bs),
    wc_c = wc_c s + of_nat (length bs), wc_inword = (if bs = [] then wc_inword s else \<not> wc_space (last bs))\<rparr>"
proof (induction bs arbitrary: s)
  case Nil
  then show ?case by (simp add: word_starts_def)
next
  case (Cons b bs)
  have "wc_space newline" by (simp add: wc_space_def newline_def)
  then show ?case unfolding fold_Cons comp_def Cons.IH
    by (auto simp: wc_byte_def Let_def word_starts_Cons)
qed

text \<open>\<^verbatim>\<open>fmtname\<close> of \<^verbatim>\<open>ls.c\<close>: the last element of a path, padded with blanks to the width of a name.\<close>

definition fmtname :: "u8 list \<Rightarrow> u8 list" where
  "fmtname path =
     (let p = rev (takeWhile (\<lambda>c. c \<noteq> 0x2F) (rev path))
      in if 14 \<le> length p then p else p @ replicate (14 - length p) 0x20)"

section \<open>Properties\<close>

text \<open>
  C19. The pattern matcher of \<^verbatim>\<open>grep\<close> decides the language of the pattern: a text matches exactly if
  some part of it is a word of the pattern, at the beginning of the text if the pattern starts
  with a circumflex and reaching its end if it ends with a dollar sign.
\<close>

theorem match_correct:
  "match re tx \<longleftrightarrow>
    (let front = (re \<noteq> [] \<and> hd re = re_begin); (ps, atend) = pieces (if front then tl re else re) in
     \<exists>x u y. tx = x @ u @ y \<and> u \<in> lang ps \<and> (front \<longrightarrow> x = []) \<and> (atend \<longrightarrow> y = []))"
proof (cases "re \<noteq> [] \<and> hd re = re_begin")
  case True
  obtain ps atend where "pieces (tl re) = (ps, atend)" by (cases "pieces (tl re)")
  then show ?thesis using True by (simp add: match_def match_prefix prefix_of_def)
next
  case False
  obtain ps atend where ps: "pieces re = (ps, atend)" by (cases "pieces re")
  have "match re tx \<longleftrightarrow> (\<exists>x u y. tx = x @ u @ y \<and> u \<in> lang ps \<and> (atend \<longrightarrow> y = []))"
    using False ps by (auto simp: match_def match_loop_suffix match_prefix prefix_of_def)
  then show ?thesis using False ps by auto
qed

theorem match_correct_witness:
  "match [0x5E, 0x61, 0x2A, 0x2E, 0x24] [0x61, 0x61, 0x62] \<and> \<not> match [0x5E, 0x62] [0x61, 0x62]"
proof
  have "[0x61, 0x61, 0x62] \<in> lang [Many (Byte 0x61), Once Any]"
    unfolding lang.simps(3) mem_Collect_eq by (intro exI [of _ "[0x61, 0x61]"] exI [of _ "[0x62]"]) simp
  then show "match [0x5E, 0x61, 0x2A, 0x2E, 0x24] [0x61, 0x61, 0x62]"
    unfolding match_correct by (simp add: const_defs atom_of_def)
  show "\<not> match [0x5E, 0x62] [0x61, 0x62]" unfolding match_correct by (simp add: const_defs atom_of_def)
qed

text \<open>
  C38. The line loop of \<^verbatim>\<open>grep\<close>.  If every read leaves room in the buffer, brings a newline and no
  zero byte, then \<^verbatim>\<open>grep\<close> writes exactly the lines of the whole input that match, in order, however
  the reads cut the input.
\<close>

theorem grep_correct:
  assumes "good_reads [] chunks"
  shows "grep pat chunks = matching_lines pat (concat chunks)"
  using grep_loop_spec [OF assms, of pat] by (simp add: grep_def)

theorem grep_correct_witness:
  "good_reads [] [[0x61, 0x62, 0x0A, 0x63], [0x64, 0x0A]] \<and>
   grep [0x63] [[0x61, 0x62, 0x0A, 0x63], [0x64, 0x0A]] = matching_lines [0x63] [0x61, 0x62, 0x0A, 0x63, 0x64, 0x0A]"
proof -
  have "good_reads [] [[0x61, 0x62, 0x0A, 0x63], [0x64, 0x0A]]" by (simp add: newline_def last_part_def)
  then show ?thesis using grep_correct by fastforce
qed

text \<open>A read without a newline drops what it read: \<^verbatim>\<open>grep ^c\<close> prints the end of a line that it should not print.\<close>

lemma grep_drops_part:
  "grep [0x5E, 0x63] [[0x61, 0x62], [0x63, 0x0A]] = [0x63, 0x0A]"
  "matching_lines [0x5E, 0x63] (concat [[0x61, 0x62], [0x63, 0x0A]]) = []"
proof -
  have m: "match [0x5E, 0x63] [0x63]" "\<not> match [0x5E, 0x63] [0x61, 0x62, 0x63]"
    by (simp_all add: match_def matchhere.simps const_defs)
  have s: "split_line [0x61, 0x62] = None" "split_line [0x63, 0x0A] = Some ([0x63], [])" "split_line [] = None"
    by (simp_all add: split_line_def newline_def)
  show "grep [0x5E, 0x63] [[0x61, 0x62], [0x63, 0x0A]] = [0x63, 0x0A]"
    using m by (simp add: grep_def grep_round_def grep_lines.simps s newline_def)
  show "matching_lines [0x5E, 0x63] (concat [[0x61, 0x62], [0x63, 0x0A]]) = []"
    using m by (simp add: matching_lines_def newline_def)
qed

text \<open>
  C39. \<^verbatim>\<open>wc\<close> counts modulo \<open>2 ^ 32\<close> the newlines, the maximal runs of bytes that are not spaces, and
  the bytes of the whole input, however the reads cut it.
\<close>

theorem wc_correct:
  "wc chunks = (let bs = concat chunks in
     \<lparr>wc_l = of_nat (count_list bs newline), wc_w = of_nat (word_starts False bs), wc_c = of_nat (length bs),
      wc_inword = (bs \<noteq> [] \<and> \<not> wc_space (last bs))\<rparr>)"
proof -
  have "fold (fold wc_byte) chunks s = fold wc_byte (concat chunks) s" for s
    by (induction chunks arbitrary: s) simp_all
  then show ?thesis by (simp add: wc_def wc_fold Let_def)
qed

end
