(* ===== verification/Fs.thy ===== *)
theory Fs
  imports Log_Recovery C_String Console
begin

text \<open>
  The file system proper (\<^verbatim>\<open>fs.c\<close>): block allocation, the inode cache, inode contents kept in
  a linked list of pointer blocks, directories and path names.

  Everything reads and writes blocks through the buffer cache and the log.  A pointer to a cached
  inode is its index in \<open>icache\<close>; \<open>me\<close> is the pid of the running process.  The record also has
  the device table \<^verbatim>\<open>devsw\<close> of \<^verbatim>\<open>file.c\<close>, whose only entries are the console's routines, and the
  console they work on.  The channels on which sleepers were woken up are collected in
  \<open>fs_wake\<close>.  The spin lock \<^verbatim>\<open>icache.lock\<close> makes the short updates of reference counts single steps.
\<close>

section \<open>Constants, inodes, state\<close>

definition ROOTINO :: u32 where [const_defs]: "ROOTINO = 1"
definition ROOTDEV :: u32 where [const_defs]: "ROOTDEV = 1"
definition NINODE :: nat where [const_defs]: "NINODE = 50"
definition NDEV :: int where [const_defs]: "NDEV = 10"
definition NDIRECT :: nat where [const_defs]: "NDIRECT = 12"
definition NINDIRECT :: nat where [const_defs]: "NINDIRECT = BSIZE div 4"
definition MAXFILE :: u32 where [const_defs]: "MAXFILE = 128 * 2048"
definition IPB :: u32 where [const_defs]: "IPB = of_nat BSIZE div 64"
definition BPB :: nat where [const_defs]: "BPB = BSIZE * 8"
definition DIRSIZ :: nat where [const_defs]: "DIRSIZ = 14"
definition T_DIR :: u16 where [const_defs]: "T_DIR = 1"
definition T_FILE :: u16 where [const_defs]: "T_FILE = 2"
definition T_DEV :: u16 where [const_defs]: "T_DEV = 3"
definition CONSOLE :: nat where [const_defs]: "CONSOLE = 1"

definition IBLOCK :: "u32 \<Rightarrow> superblock \<Rightarrow> u32" where
  "IBLOCK i sb = i div IPB + sb_inodestart sb"

definition BBLOCK :: "u32 \<Rightarrow> superblock \<Rightarrow> u32" where
  "BBLOCK b sb = b div of_nat BPB + sb_bmapstart sb"

record inode =
  i_dev :: u32
  i_inum :: u32
  i_ref :: int
  i_lock :: sleeplock
  i_valid :: bool
  i_type :: u16
  i_major :: u16
  i_minor :: u16
  i_nlink :: u16
  i_size :: u32
  i_addrs :: "u32 list"

datatype dev_reader = Consoleread

datatype dev_writer = Consolewrite

record fsys =
  fs_ld :: ldisk
  fs_sb :: superblock
  icache :: "inode list"
  devsw :: "(dev_reader option \<times> dev_writer option) list"
  fs_cons :: console
  fs_wake :: "chan list"

definition inld :: "(ldisk, 'a) kop \<Rightarrow> (fsys, 'a) kop" where
  "inld m = zoom fs_ld (\<lambda>l s. s\<lparr>fs_ld := l\<rparr>) m"

definition incons :: "(console, 'a) kop \<Rightarrow> (fsys, 'a) kop" where
  "incons m = zoom fs_cons (\<lambda>c s. s\<lparr>fs_cons := c\<rparr>) m"

definition upd_inode :: "nat \<Rightarrow> (inode \<Rightarrow> inode) \<Rightarrow> (fsys, unit) kop" where
  "upd_inode ip f = kmod (\<lambda>s. s\<lparr>icache := (icache s)[ip := f (icache s ! ip)]\<rparr>)"

definition the_inode :: "nat \<Rightarrow> (fsys, inode) kop" where
  "the_inode ip = kget (\<lambda>s. icache s ! ip)"

definition fwakeup :: "chan list \<Rightarrow> (fsys, unit) kop" where
  "fwakeup cs = kmod (\<lambda>s. s\<lparr>fs_wake := fs_wake s @ cs\<rparr>)"

definition dread :: "nat \<Rightarrow> u32 \<Rightarrow> u32 \<Rightarrow> (fsys, nat) kop" where
  "dread me dev n = inld (inbc (bread me dev n))"

definition drelse :: "nat \<Rightarrow> nat \<Rightarrow> (fsys, unit) kop" where
  "drelse me b = inld (inbc (brelse me b))"

definition ddata :: "nat \<Rightarrow> (fsys, block) kop" where
  "ddata b = inld (buf_data b)"

definition dset :: "nat \<Rightarrow> (block \<Rightarrow> block) \<Rightarrow> (fsys, unit) kop" where
  "dset b f = inld (inbc (bset b f))"

definition dlog :: "nat \<Rightarrow> (fsys, unit) kop" where
  "dlog b = inld (log_write b)"

section \<open>Blocks\<close>

definition zero_block :: "block \<Rightarrow> block" where
  "zero_block d = (\<lambda>i. if i < BSIZE then 0 else d i)"

definition bzero :: "nat \<Rightarrow> u32 \<Rightarrow> u32 \<Rightarrow> (fsys, unit) kop" where
  "bzero me dev bno =
     kbind (dread me dev bno) (\<lambda>bp.
     kseq (dset bp zero_block) (
     kseq (dlog bp) (
     drelse me bp)))"

definition bit_mask :: "nat \<Rightarrow> u8" where
  "bit_mask bi = push_bit (bi mod 8) 1"

definition bit_clear :: "block \<Rightarrow> nat \<Rightarrow> bool" where
  "bit_clear d bi \<longleftrightarrow> d (bi div 8) AND bit_mask bi = 0"

definition mark_used :: "nat \<Rightarrow> block \<Rightarrow> block" where
  "mark_used bi d = d(bi div 8 := d (bi div 8) OR bit_mask bi)"

definition mark_free :: "nat \<Rightarrow> block \<Rightarrow> block" where
  "mark_free bi d = d(bi div 8 := d (bi div 8) AND NOT (bit_mask bi))"

text \<open>The inner loop of \<^verbatim>\<open>balloc\<close>, at most \<open>k\<close> more bits from bit \<open>bi\<close>.\<close>

fun balloc_bit :: "nat \<Rightarrow> nat \<Rightarrow> block \<Rightarrow> u32 \<Rightarrow> u32 \<Rightarrow> nat option" where
  "balloc_bit 0 bi d b n = None"
| "balloc_bit (Suc k) bi d b n =
     (if b + of_nat bi < n then if bit_clear d bi then Some bi else balloc_bit k (Suc bi) d b n
      else None)"

fun balloc_loop :: "nat \<Rightarrow> u32 \<Rightarrow> u32 list \<Rightarrow> (fsys, u32) kop" where
  "balloc_loop me dev [] = panic ''balloc: out of blocks''"
| "balloc_loop me dev (b # bs) =
     kbind (kget fs_sb) (\<lambda>sb.
     kbind (dread me dev (BBLOCK b sb)) (\<lambda>bp.
     kbind (ddata bp) (\<lambda>d.
     case balloc_bit BPB 0 d b (sb_size sb) of
       Some bi \<Rightarrow>
         kseq (dset bp (mark_used bi)) (
         kseq (dlog bp) (
         kseq (drelse me bp) (
         kseq (bzero me dev (b + of_nat bi)) (
         kret (b + of_nat bi)))))
     | None \<Rightarrow> kseq (drelse me bp) (balloc_loop me dev bs))))"

text \<open>The values of the counter of the outer loop: the multiples of \<open>BPB\<close> below the size.\<close>

definition bitmap_starts :: "u32 \<Rightarrow> u32 list" where
  "bitmap_starts n = map (\<lambda>k. of_nat (k * BPB)) [0..<(unat n + BPB - 1) div BPB]"

definition balloc :: "nat \<Rightarrow> u32 \<Rightarrow> (fsys, u32) kop" where
  "balloc me dev = kbind (kget fs_sb) (\<lambda>sb. balloc_loop me dev (bitmap_starts (sb_size sb)))"

definition bfree :: "nat \<Rightarrow> u32 \<Rightarrow> u32 \<Rightarrow> (fsys, unit) kop" where
  "bfree me dev b =
     kbind (inld (readsb me dev)) (\<lambda>sb.
     kseq (kmod (\<lambda>s. s\<lparr>fs_sb := sb\<rparr>)) (
     kbind (dread me dev (BBLOCK b sb)) (\<lambda>bp.
     kbind (ddata bp) (\<lambda>d.
     let bi = unat b mod BPB in
     if bit_clear d bi then panic ''freeing free block''
     else kseq (dset bp (mark_free bi)) (
          kseq (dlog bp) (
          drelse me bp))))))"

section \<open>Inodes\<close>

definition iinit :: "nat \<Rightarrow> u32 \<Rightarrow> (fsys, unit) kop" where
  "iinit me dev =
     kseq (kmod (\<lambda>s. s\<lparr>icache := map (\<lambda>i. i\<lparr>i_lock := initsleeplock\<rparr>) (icache s)\<rparr>)) (
     kbind (inld (readsb me dev)) (\<lambda>sb.
     kmod (\<lambda>s. s\<lparr>fs_sb := sb\<rparr>)))"

definition iget :: "u32 \<Rightarrow> u32 \<Rightarrow> (fsys, nat) kop" where
  "iget dev inum = (\<lambda>s.
     case first_idx (\<lambda>i. 0 < i_ref i \<and> i_dev i = dev \<and> i_inum i = inum) (icache s) of
       Some ip \<Rightarrow> kseq (upd_inode ip (\<lambda>i. i\<lparr>i_ref := i_ref i + 1\<rparr>)) (kret ip) s
     | None \<Rightarrow>
         (case first_idx (\<lambda>i. i_ref i = 0) (icache s) of
            None \<Rightarrow> (Panic ''iget: no inodes'', s)
          | Some ip \<Rightarrow>
              kseq (upd_inode ip (\<lambda>i. i\<lparr>i_dev := dev, i_inum := inum, i_ref := 1, i_valid := False\<rparr>)) (kret ip) s))"

text \<open>The \<open>k\<close>-th on-disk inode of a block: 64 bytes each.\<close>

definition dinode_off :: "u32 \<Rightarrow> nat" where
  "dinode_off inum = 64 * unat (inum mod IPB)"

definition load_dinode :: "block \<Rightarrow> nat \<Rightarrow> inode \<Rightarrow> inode" where
  "load_dinode d k i = i\<lparr>i_type := get16 d k, i_major := get16 d (k + 2), i_minor := get16 d (k + 4),
     i_nlink := get16 d (k + 6), i_size := get32 d (k + 8), i_addrs := get_words d (k + 12) (NDIRECT + 1)\<rparr>"

definition store_dinode :: "nat \<Rightarrow> inode \<Rightarrow> block \<Rightarrow> block" where
  "store_dinode k i d = put_words (k + 12) (i_addrs i) (put32 (k + 8) (i_size i) (put16 (k + 6) (i_nlink i)
     (put16 (k + 4) (i_minor i) (put16 (k + 2) (i_major i) (put16 k (i_type i) d)))))"

definition fresh_dinode :: "nat \<Rightarrow> u16 \<Rightarrow> block \<Rightarrow> block" where
  "fresh_dinode k type d = put16 k type (\<lambda>j. if k \<le> j \<and> j < k + 64 then 0 else d j)"

fun ialloc_loop :: "nat \<Rightarrow> u32 \<Rightarrow> u16 \<Rightarrow> u32 list \<Rightarrow> (fsys, nat) kop" where
  "ialloc_loop me dev type [] = panic ''ialloc: no inodes''"
| "ialloc_loop me dev type (inum # inums) =
     kbind (kget fs_sb) (\<lambda>sb.
     kbind (dread me dev (IBLOCK inum sb)) (\<lambda>bp.
     kbind (ddata bp) (\<lambda>d.
     if get16 d (dinode_off inum) = 0 then
       kseq (dset bp (fresh_dinode (dinode_off inum) type)) (
       kseq (dlog bp) (
       kseq (drelse me bp) (
       iget dev inum)))
     else kseq (drelse me bp) (ialloc_loop me dev type inums))))"

definition ialloc :: "nat \<Rightarrow> u32 \<Rightarrow> u16 \<Rightarrow> (fsys, nat) kop" where
  "ialloc me dev type = kbind (kget fs_sb) (\<lambda>sb.
     ialloc_loop me dev type (map of_nat [1..<unat (sb_ninodes sb)]))"

definition iupdate :: "nat \<Rightarrow> nat \<Rightarrow> (fsys, unit) kop" where
  "iupdate me ip =
     kbind (the_inode ip) (\<lambda>i.
     kbind (kget fs_sb) (\<lambda>sb.
     kbind (dread me (i_dev i) (IBLOCK (i_inum i) sb)) (\<lambda>bp.
     kseq (dset bp (store_dinode (dinode_off (i_inum i)) i)) (
     kseq (dlog bp) (
     drelse me bp)))))"

definition idup :: "nat \<Rightarrow> (fsys, nat) kop" where
  "idup ip = kseq (upd_inode ip (\<lambda>i. i\<lparr>i_ref := i_ref i + 1\<rparr>)) (kret ip)"

text \<open>The sleep lock of inode \<open>ip\<close>; its channel comes after those of the buffers.\<close>

definition ichan :: "nat \<Rightarrow> nat" where
  "ichan ip = NBUF + ip"

definition ilock_acquire :: "nat \<Rightarrow> nat \<Rightarrow> (fsys, unit) kop" where
  "ilock_acquire me ip = zoom (\<lambda>s. i_lock (icache s ! ip))
     (\<lambda>l s. s\<lparr>icache := (icache s)[ip := (icache s ! ip)\<lparr>i_lock := l\<rparr>]\<rparr>) (acquiresleep (ichan ip) me)"

definition ilock_release :: "nat \<Rightarrow> (fsys, unit) kop" where
  "ilock_release ip = kbind (zoom (\<lambda>s. i_lock (icache s ! ip))
     (\<lambda>l s. s\<lparr>icache := (icache s)[ip := (icache s ! ip)\<lparr>i_lock := l\<rparr>]\<rparr>) (releasesleep (ichan ip))) fwakeup"

definition ilock :: "nat \<Rightarrow> nat \<Rightarrow> (fsys, unit) kop" where
  "ilock me ip =
     kbind (the_inode ip) (\<lambda>i0.
     if i_ref i0 < 1 then panic ''ilock''
     else kseq (ilock_acquire me ip) (
       kbind (the_inode ip) (\<lambda>i.
       if i_valid i then kret ()
       else kbind (kget fs_sb) (\<lambda>sb.
         kbind (dread me (i_dev i) (IBLOCK (i_inum i) sb)) (\<lambda>bp.
         kbind (ddata bp) (\<lambda>d.
         kseq (upd_inode ip (load_dinode d (dinode_off (i_inum i)))) (
         kseq (drelse me bp) (
         kseq (upd_inode ip (\<lambda>i. i\<lparr>i_valid := True\<rparr>)) (
         kbind (the_inode ip) (\<lambda>j.
         if i_type j = 0 then panic ''ilock: no type'' else kret ()))))))))))"

definition holding_inode :: "nat \<Rightarrow> inode \<Rightarrow> bool" where
  "holding_inode me i \<longleftrightarrow> fst (holdingsleep me (i_lock i)) = Ret True"

definition iunlock :: "nat \<Rightarrow> nat \<Rightarrow> (fsys, unit) kop" where
  "iunlock me ip =
     kbind (the_inode ip) (\<lambda>i.
     if \<not> holding_inode me i \<or> i_ref i < 1 then panic ''iunlock'' else ilock_release ip)"

text \<open>\<^verbatim>\<open>itrunc\<close> frees the first \<open>NDIRECT\<close> addresses and the block list of the last one.\<close>

fun itrunc_direct :: "nat \<Rightarrow> nat \<Rightarrow> nat list \<Rightarrow> (fsys, unit) kop" where
  "itrunc_direct me ip [] = kret ()"
| "itrunc_direct me ip (i # js) =
     kbind (the_inode ip) (\<lambda>n.
     kseq (if i_addrs n ! i \<noteq> 0
           then kseq (bfree me (i_dev n) (i_addrs n ! i)) (upd_inode ip (\<lambda>n. n\<lparr>i_addrs := (i_addrs n)[i := 0]\<rparr>))
           else kret ())
       (itrunc_direct me ip js))"

fun itrunc_indirect :: "nat \<Rightarrow> u32 \<Rightarrow> u32 list \<Rightarrow> (fsys, unit) kop" where
  "itrunc_indirect me dev [] = kret ()"
| "itrunc_indirect me dev (a # as) =
     kseq (if a \<noteq> 0 then bfree me dev a else kret ()) (itrunc_indirect me dev as)"

definition itrunc :: "nat \<Rightarrow> nat \<Rightarrow> (fsys, unit) kop" where
  "itrunc me ip =
     kseq (itrunc_direct me ip [0..<NDIRECT]) (
     kbind (the_inode ip) (\<lambda>n.
     kseq (if i_addrs n ! NDIRECT \<noteq> 0 then
             kbind (dread me (i_dev n) (i_addrs n ! NDIRECT)) (\<lambda>bp.
             kbind (ddata bp) (\<lambda>d.
             kseq (itrunc_indirect me (i_dev n) (get_words d 0 NINDIRECT)) (
             kseq (drelse me bp) (
             kseq (bfree me (i_dev n) (i_addrs n ! NDIRECT)) (
             upd_inode ip (\<lambda>n. n\<lparr>i_addrs := (i_addrs n)[NDIRECT := 0]\<rparr>))))))
           else kret ()) (
     kseq (upd_inode ip (\<lambda>n. n\<lparr>i_size := 0\<rparr>)) (
     iupdate me ip))))"

definition iput :: "nat \<Rightarrow> nat \<Rightarrow> (fsys, unit) kop" where
  "iput me ip =
     kseq (ilock_acquire me ip) (
     kbind (the_inode ip) (\<lambda>i.
     kseq (if i_valid i \<and> i_nlink i = 0 \<and> i_ref i = 1 then
             kseq (itrunc me ip) (
             kseq (upd_inode ip (\<lambda>i. i\<lparr>i_type := 0\<rparr>)) (
             kseq (iupdate me ip) (
             upd_inode ip (\<lambda>i. i\<lparr>i_valid := False\<rparr>))))
           else kret ()) (
     kseq (ilock_release ip) (
     upd_inode ip (\<lambda>i. i\<lparr>i_ref := i_ref i - 1\<rparr>)))))"

definition iunlockput :: "nat \<Rightarrow> nat \<Rightarrow> (fsys, unit) kop" where
  "iunlockput me ip = kseq (iunlock me ip) (iput me ip)"

section \<open>Inode contents\<close>

text \<open>
  A file's blocks are listed in pointer blocks of \<open>NINDIRECT\<close> words: \<open>NINDIRECT - 1\<close> data blocks
  and, in the last word, the next pointer block.  The first pointer block is \<^verbatim>\<open>addrs[0]\<close>.
\<close>

function bmap_split :: "nat \<Rightarrow> nat \<Rightarrow> nat \<times> nat" where
  "bmap_split k bn = (if NINDIRECT - 1 \<le> bn then bmap_split (Suc k) (bn - (NINDIRECT - 1)) else (k, bn))"
  by pat_completeness auto
termination by (relation "measure snd") (auto simp: const_defs)

declare bmap_split.simps [simp del]

definition next_ptr :: nat where
  "next_ptr = 4 * (NINDIRECT - 1)"

definition open_ptr_block :: "nat \<Rightarrow> u32 \<Rightarrow> u32 \<Rightarrow> bool \<Rightarrow> (fsys, nat) kop" where
  "open_ptr_block me dev addr is_new =
     kbind (dread me dev addr) (\<lambda>bp.
     kseq (if is_new then dset bp (put32 next_ptr 0) else kret ()) (kret bp))"

fun bmap_walk :: "nat \<Rightarrow> u32 \<Rightarrow> nat \<Rightarrow> nat \<Rightarrow> (fsys, nat) kop" where
  "bmap_walk me dev 0 bp = kret bp"
| "bmap_walk me dev (Suc k) bp =
     kbind (ddata bp) (\<lambda>a.
     if get32 a next_ptr = 0 then
       kbind (balloc me dev) (\<lambda>addr.
       kseq (dset bp (put32 next_ptr addr)) (
       kseq (dlog bp) (
       kseq (drelse me bp) (
       kbind (open_ptr_block me dev addr True) (\<lambda>bp'. bmap_walk me dev k bp')))))
     else
       kseq (drelse me bp) (
       kbind (open_ptr_block me dev (get32 a next_ptr) False) (\<lambda>bp'. bmap_walk me dev k bp')))"

definition bmap :: "nat \<Rightarrow> nat \<Rightarrow> u32 \<Rightarrow> (fsys, u32) kop" where
  "bmap me ip bn0 = (let (indirect_bno, bn) = bmap_split 0 (unat bn0) in
     kbind (the_inode ip) (\<lambda>i.
     kbind (if i_addrs i ! 0 = 0
            then kbind (balloc me (i_dev i)) (\<lambda>addr.
                 kseq (upd_inode ip (\<lambda>i. i\<lparr>i_addrs := (i_addrs i)[0 := addr]\<rparr>)) (kret (addr, True)))
            else kret (i_addrs i ! 0, False)) (\<lambda>(addr, is_new).
     kbind (open_ptr_block me (i_dev i) addr is_new) (\<lambda>bp0.
     kbind (bmap_walk me (i_dev i) indirect_bno bp0) (\<lambda>bp.
     kbind (ddata bp) (\<lambda>a.
     if get32 a (4 * bn) = 0 then
       kbind (balloc me (i_dev i)) (\<lambda>addr.
       kseq (dset bp (put32 (4 * bn) addr)) (
       kseq (dlog bp) (
       kseq (drelse me bp) (kret addr))))
     else kseq (drelse me bp) (kret (get32 a (4 * bn)))))))))"

record stat =
  st_type :: u16
  st_dev :: u32
  st_ino :: u32
  st_nlink :: u16
  st_size :: u32

definition stati :: "nat \<Rightarrow> (fsys, stat) kop" where
  "stati ip = kbind (the_inode ip) (\<lambda>i.
     kret \<lparr>st_type = i_type i, st_dev = i_dev i, st_ino = i_inum i, st_nlink = i_nlink i, st_size = i_size i\<rparr>)"

text \<open>The console's entries of \<^verbatim>\<open>devsw\<close>; the result of a read is the return value and the bytes.\<close>

definition consoleread :: "nat \<Rightarrow> bool \<Rightarrow> nat \<Rightarrow> u32 \<Rightarrow> (fsys, int \<times> u8 list) kop" where
  "consoleread me killed ip n =
     kseq (iunlock me ip) (
     kbind (incons (consoleread_loop killed (nat (sint n)) [])) (\<lambda>r.
     case r of
       CDone bs \<Rightarrow> kseq (ilock me ip) (kret (int (length bs), bs))
     | CKilled \<Rightarrow> kseq (ilock me ip) (kret (- 1, []))
     | CSleep bs \<Rightarrow> ksleep ChanInput))"

definition consolewrite :: "nat \<Rightarrow> nat \<Rightarrow> u8 list \<Rightarrow> (fsys, int) kop" where
  "consolewrite me ip buf =
     kseq (iunlock me ip) (
     kseq (incons (consolewrite_loop buf)) (
     kseq (ilock me ip) (
     kret (int (length buf)))))"

definition dev_entry :: "('a option \<times> 'b option) list \<Rightarrow> u16 \<Rightarrow> 'a option \<times> 'b option" where
  "dev_entry sw major = (if sint major < 0 \<or> NDEV \<le> sint major then (None, None) else sw ! nat (sint major))"

text \<open>How much one round copies: up to the end of the block, at most what is left.\<close>

definition chunk :: "u32 \<Rightarrow> nat \<Rightarrow> nat" where
  "chunk off left = min left (BSIZE - unat off mod BSIZE)"

lemma chunk_pos: "0 < left \<Longrightarrow> 0 < chunk off left"
  by (simp add: chunk_def const_defs)

function readi_loop :: "nat \<Rightarrow> nat \<Rightarrow> u32 \<Rightarrow> nat \<Rightarrow> u8 list \<Rightarrow> (fsys, u8 list) kop" where
  "readi_loop me ip off left acc =
     (if left = 0 then kret acc
      else kbind (the_inode ip) (\<lambda>i.
        kbind (bmap me ip (off div of_nat BSIZE)) (\<lambda>a.
        kbind (dread me (i_dev i) a) (\<lambda>bp.
        kbind (ddata bp) (\<lambda>d.
        let m = chunk off left in
        kseq (drelse me bp) (
        readi_loop me ip (off + of_nat m) (left - m) (acc @ map (\<lambda>j. d (unat off mod BSIZE + j)) [0..<m])))))))"
  by pat_completeness auto
termination by (relation "measure (\<lambda>(me, ip, off, left, acc). left)") (simp_all add: chunk_pos)

declare readi_loop.simps [simp del]

definition readi :: "nat \<Rightarrow> bool \<Rightarrow> nat \<Rightarrow> u32 \<Rightarrow> u32 \<Rightarrow> (fsys, int \<times> u8 list) kop" where
  "readi me killed ip off n =
     kbind (the_inode ip) (\<lambda>i.
     if i_type i = T_DEV then
       kbind (kget devsw) (\<lambda>sw.
       case fst (dev_entry sw (i_major i)) of
         None \<Rightarrow> kret (- 1, [])
       | Some Consoleread \<Rightarrow> consoleread me killed ip n)
     else if i_size i < off \<or> off + n < off then kret (- 1, [])
     else
       (let n' = if i_size i < off + n then i_size i - off else n in
        kbind (readi_loop me ip off (unat n') []) (\<lambda>bs. kret (sint n', bs))))"

definition overwrite :: "nat \<Rightarrow> u8 list \<Rightarrow> block \<Rightarrow> block" where
  "overwrite k bs d = (\<lambda>j. if k \<le> j \<and> j < k + length bs then bs ! (j - k) else d j)"

function writei_loop :: "nat \<Rightarrow> nat \<Rightarrow> u32 \<Rightarrow> u8 list \<Rightarrow> (fsys, u32) kop" where
  "writei_loop me ip off src =
     (if src = [] then kret off
      else kbind (the_inode ip) (\<lambda>i.
        kbind (bmap me ip (off div of_nat BSIZE)) (\<lambda>a.
        kbind (dread me (i_dev i) a) (\<lambda>bp.
        let m = chunk off (length src) in
        kseq (dset bp (overwrite (unat off mod BSIZE) (take m src))) (
        kseq (dlog bp) (
        kseq (drelse me bp) (
        writei_loop me ip (off + of_nat m) (drop m src))))))))"
  by pat_completeness auto
termination by (relation "measure (\<lambda>(me, ip, off, src). length src)") (simp_all add: chunk_pos)

declare writei_loop.simps [simp del]

definition writei :: "nat \<Rightarrow> nat \<Rightarrow> u8 list \<Rightarrow> u32 \<Rightarrow> (fsys, int) kop" where
  "writei me ip src off = (let n = of_nat (length src) in
     kbind (the_inode ip) (\<lambda>i.
     if i_type i = T_DEV then
       kbind (kget devsw) (\<lambda>sw.
       case snd (dev_entry sw (i_major i)) of
         None \<Rightarrow> kret (- 1)
       | Some Consolewrite \<Rightarrow> consolewrite me ip src)
     else if i_size i < off \<or> off + n < off then kret (- 1)
     else if MAXFILE * of_nat BSIZE < off + n then kret (- 1)
     else
       kbind (writei_loop me ip off src) (\<lambda>off'.
       kbind (the_inode ip) (\<lambda>j.
       kseq (if 0 < n \<and> i_size j < off'
             then kseq (upd_inode ip (\<lambda>i. i\<lparr>i_size := off'\<rparr>)) (iupdate me ip) else kret ()) (
       kret (sint n))))))"

section \<open>Directories\<close>

definition namecmp :: "cstr \<Rightarrow> cstr \<Rightarrow> int" where
  "namecmp s t = strncmp DIRSIZ s t"

text \<open>A directory entry: a 16-bit inode number and \<open>DIRSIZ\<close> bytes of name.\<close>

definition dirent_size :: nat where
  "dirent_size = 2 + DIRSIZ"

definition de_inum :: "u8 list \<Rightarrow> u16" where
  "de_inum bs = get16 (pad0 bs) 0"

definition de_name :: "u8 list \<Rightarrow> cstr" where
  "de_name bs = (\<lambda>i. pad0 bs (i + 2))"

definition make_dirent :: "u8 list \<Rightarrow> cstr \<Rightarrow> u32 \<Rightarrow> u8 list" where
  "make_dirent de name inum =
     (let nm = strncpy (de_name de) name (int DIRSIZ); no = ucast inum :: u16
      in [ucast no, ucast (drop_bit 8 no)] @ map nm [0..<DIRSIZ])"

text \<open>The offsets of the entries of a directory of a given size.\<close>

definition dir_offs :: "u32 \<Rightarrow> u32 list" where
  "dir_offs n = map (\<lambda>k. of_nat (k * dirent_size)) [0..<(unat n + dirent_size - 1) div dirent_size]"

definition read_dirent :: "nat \<Rightarrow> nat \<Rightarrow> u32 \<Rightarrow> string \<Rightarrow> (fsys, u8 list) kop" where
  "read_dirent me dp off msg =
     kbind (readi me False dp off (of_nat dirent_size)) (\<lambda>(r, bs).
     if r \<noteq> int dirent_size then panic msg else kret bs)"

fun dirlookup_loop :: "nat \<Rightarrow> nat \<Rightarrow> cstr \<Rightarrow> u32 list \<Rightarrow> (fsys, (nat \<times> u32) option) kop" where
  "dirlookup_loop me dp name [] = kret None"
| "dirlookup_loop me dp name (off # offs) =
     kbind (read_dirent me dp off ''dirlookup read'') (\<lambda>de.
     if de_inum de = 0 then dirlookup_loop me dp name offs
     else if namecmp name (de_name de) = 0 then
       kbind (the_inode dp) (\<lambda>d.
       kbind (iget (i_dev d) (ucast (de_inum de))) (\<lambda>ip.
       kret (Some (ip, off))))
     else dirlookup_loop me dp name offs)"

definition dirlookup :: "nat \<Rightarrow> nat \<Rightarrow> cstr \<Rightarrow> (fsys, (nat \<times> u32) option) kop" where
  "dirlookup me dp name =
     kbind (the_inode dp) (\<lambda>d.
     if i_type d \<noteq> T_DIR then panic ''dirlookup not DIR''
     else dirlookup_loop me dp name (dir_offs (i_size d)))"

text \<open>The search for an empty entry; the result is its offset, or the size, and what was read last.\<close>

fun dirlink_loop :: "nat \<Rightarrow> nat \<Rightarrow> u32 \<Rightarrow> u8 list \<Rightarrow> u32 list \<Rightarrow> (fsys, u32 \<times> u8 list) kop" where
  "dirlink_loop me dp endoff de [] = kret (endoff, de)"
| "dirlink_loop me dp endoff de (off # offs) =
     kbind (read_dirent me dp off ''dirlink read'') (\<lambda>de.
     if de_inum de = 0 then kret (off, de) else dirlink_loop me dp endoff de offs)"

definition dirlink :: "nat \<Rightarrow> nat \<Rightarrow> cstr \<Rightarrow> u32 \<Rightarrow> u8 list \<Rightarrow> (fsys, int) kop" where
  "dirlink me dp name inum junk =
     kbind (dirlookup me dp name) (\<lambda>r.
     case r of
       Some (ip, _) \<Rightarrow> kseq (iput me ip) (kret (- 1))
     | None \<Rightarrow>
         kbind (the_inode dp) (\<lambda>d.
         kbind (dirlink_loop me dp (of_nat (length (dir_offs (i_size d)) * dirent_size)) junk (dir_offs (i_size d))) (\<lambda>(off, de).
         kbind (writei me dp (make_dirent de name inum) off) (\<lambda>r.
         if r \<noteq> int dirent_size then panic ''dirlink'' else kret 0))))"

section \<open>Paths\<close>

text \<open>
  A path is the list of its bytes before the terminating zero.  \<open>skipelem\<close> returns the element,
  cut to \<open>DIRSIZ\<close> bytes, and the rest of the path.
\<close>

definition slash :: u8 where [const_defs]: "slash = 0x2F"

fun skip_slashes :: "u8 list \<Rightarrow> u8 list" where
  "skip_slashes [] = []"
| "skip_slashes (c # cs) = (if c = slash then skip_slashes cs else c # cs)"

fun take_elem :: "u8 list \<Rightarrow> u8 list \<times> u8 list" where
  "take_elem [] = ([], [])"
| "take_elem (c # cs) = (if c = slash then ([], c # cs) else let (e, r) = take_elem cs in (c # e, r))"

definition skipelem :: "u8 list \<Rightarrow> (u8 list \<times> u8 list) option" where
  "skipelem path0 = (let path = skip_slashes path0 in
     if path = [] then None
     else let (s, rest) = take_elem path;
              name = (if DIRSIZ \<le> length s then take DIRSIZ s else s)
          in Some (name, skip_slashes rest))"

lemma length_skip_slashes: "length (skip_slashes p) \<le> length p"
  by (induction p) auto

lemma length_take_elem: "length (snd (take_elem p)) \<le> length p"
  by (induction p) (auto simp: Let_def split: prod.splits)

lemma skip_slashes_head: "skip_slashes p = c # cs \<Longrightarrow> c \<noteq> slash"
  by (induction p) (auto split: if_splits)

lemma skipelem_shorter: "skipelem p = Some (nm, rest) \<Longrightarrow> length rest < length p"
proof -
  assume a: "skipelem p = Some (nm, rest)"
  then obtain c cs where p: "skip_slashes p = c # cs" by (cases "skip_slashes p") (auto simp: skipelem_def)
  obtain e r where t: "take_elem cs = (e, r)" by fastforce
  have "rest = skip_slashes r" using a p t skip_slashes_head [OF p] by (simp add: skipelem_def Let_def)
  then have "length rest \<le> length cs" using length_skip_slashes [of r] length_take_elem [of cs] t by simp
  then show ?thesis using p length_skip_slashes [of p] by simp
qed

function namex_loop :: "nat \<Rightarrow> bool \<Rightarrow> nat \<Rightarrow> u8 list \<Rightarrow> u8 list \<Rightarrow> (fsys, (nat \<times> u8 list) option) kop" where
  "namex_loop me parent ip path name =
     (case skipelem path of
        None \<Rightarrow> if parent then kseq (iput me ip) (kret None) else kret (Some (ip, name))
      | Some (nm, rest) \<Rightarrow>
          kseq (ilock me ip) (
          kbind (the_inode ip) (\<lambda>i.
          if i_type i \<noteq> T_DIR then kseq (iunlockput me ip) (kret None)
          else if parent \<and> rest = [] then kseq (iunlock me ip) (kret (Some (ip, nm)))
          else kbind (dirlookup me ip (pad0 nm)) (\<lambda>r.
            case r of
              None \<Rightarrow> kseq (iunlockput me ip) (kret None)
            | Some (nx, _) \<Rightarrow> kseq (iunlockput me ip) (namex_loop me parent nx rest nm)))))"
  by pat_completeness auto
termination by (relation "measure (\<lambda>(me, parent, ip, path, name). length path)") (auto dest: skipelem_shorter)

declare namex_loop.simps [simp del]

definition namex :: "nat \<Rightarrow> nat \<Rightarrow> u8 list \<Rightarrow> bool \<Rightarrow> (fsys, (nat \<times> u8 list) option) kop" where
  "namex me cwd path parent =
     kbind (if path \<noteq> [] \<and> hd path = slash then iget ROOTDEV ROOTINO else idup cwd) (\<lambda>ip.
     namex_loop me parent ip path [])"

definition namei :: "nat \<Rightarrow> nat \<Rightarrow> u8 list \<Rightarrow> (fsys, nat option) kop" where
  "namei me cwd path = kbind (namex me cwd path False) (\<lambda>r. kret (map_option fst r))"

definition nameiparent :: "nat \<Rightarrow> nat \<Rightarrow> u8 list \<Rightarrow> (fsys, (nat \<times> u8 list) option) kop" where
  "nameiparent me cwd path = namex me cwd path True"

end
