(* ===== verification/Files.thy ===== *)
theory Files
  imports Fs Pipe_Ring Vm_Copy
begin

text \<open>
  Open files (\<^verbatim>\<open>file.c\<close>) and the allocation of pipes (\<^verbatim>\<open>pipe.c\<close>).

  A pointer to an open file is its index in \<open>ftable\<close>.  A pipe lives in a page of the page
  allocator and is named by the page's address; \<open>pipes\<close> gives the structure stored there.  The
  result of a read is the return value with the bytes stored at the caller's address.
\<close>

datatype ftype = FD_NONE | FD_PIPE | FD_INODE

record open_file =
  f_type :: ftype
  f_ref :: int
  f_readable :: bool
  f_writable :: bool
  f_pipe :: u32
  f_ip :: nat
  f_off :: u32

definition NFILE :: nat where [const_defs]: "NFILE = 100"

record files =
  ff_fs :: fsys
  ff_mem :: kmem
  ftable :: "open_file list"
  pipes :: "u32 \<Rightarrow> pipe"

definition onfs :: "(fsys, 'a) kop \<Rightarrow> (files, 'a) kop" where
  "onfs m = zoom ff_fs (\<lambda>x s. s\<lparr>ff_fs := x\<rparr>) m"

definition onmem :: "(kmem, 'a) kop \<Rightarrow> (files, 'a) kop" where
  "onmem m = zoom ff_mem (\<lambda>x s. s\<lparr>ff_mem := x\<rparr>) m"

text \<open>A pipe routine runs on the pipe at \<open>p\<close>; its wakeups join those of the file system.\<close>

definition onpipe :: "u32 \<Rightarrow> (pcall, 'a) kop \<Rightarrow> (files, 'a) kop" where
  "onpipe p m = (\<lambda>s. case m \<lparr>pc_pipe = pipes s p, pc_i = 0, pc_wake = []\<rparr> of (r, c) \<Rightarrow>
     (r, s\<lparr>pipes := (pipes s)(p := pc_pipe c),
           ff_fs := (ff_fs s)\<lparr>fs_wake := fs_wake (ff_fs s) @ pc_wake c\<rparr>\<rparr>))"

definition upd_file :: "nat \<Rightarrow> (open_file \<Rightarrow> open_file) \<Rightarrow> (files, unit) kop" where
  "upd_file f g = kmod (\<lambda>s. s\<lparr>ftable := (ftable s)[f := g (ftable s ! f)]\<rparr>)"

definition the_file :: "nat \<Rightarrow> (files, open_file) kop" where
  "the_file f = kget (\<lambda>s. ftable s ! f)"

section \<open>The file table\<close>

definition file_slot :: "open_file list \<Rightarrow> (nat \<times> open_file list) option" where
  "file_slot fs = (case first_idx (\<lambda>f. f_ref f = 0) fs of
     None \<Rightarrow> None | Some i \<Rightarrow> Some (i, fs[i := (fs ! i)\<lparr>f_ref := 1\<rparr>]))"

interpretation flt: slot_table "\<lambda>f. f_ref f = 0" "\<lambda>f. f\<lparr>f_ref := 1\<rparr>" file_slot
  by unfold_locales (auto simp: file_slot_def split: option.splits)

definition filealloc :: "(files, nat option) kop" where
  "filealloc = (\<lambda>s. case file_slot (ftable s) of
     None \<Rightarrow> (Ret None, s) | Some (f, fs) \<Rightarrow> (Ret (Some f), s\<lparr>ftable := fs\<rparr>))"

definition filedup :: "nat \<Rightarrow> (files, nat) kop" where
  "filedup f = kbind (the_file f) (\<lambda>x.
     if f_ref x < 1 then panic ''filedup''
     else kseq (upd_file f (\<lambda>x. x\<lparr>f_ref := f_ref x + 1\<rparr>)) (kret f))"

text \<open>\<^verbatim>\<open>end_op\<close> wakes up the calls that wait for the log.\<close>

definition op_begin :: "(files, unit) kop" where
  "op_begin = onfs (inld begin_op)"

definition op_end :: "nat \<Rightarrow> (files, unit) kop" where
  "op_end me = onfs (kbind (inld (end_op me)) fwakeup)"

definition close_pipe :: "u32 \<Rightarrow> u32 \<Rightarrow> bool \<Rightarrow> (files, unit) kop" where
  "close_pipe kend p writable =
     kbind (onpipe p (pipeclose (unat p) writable)) (\<lambda>gone.
     if gone then onmem (kfree kend p) else kret ())"

definition fileclose :: "u32 \<Rightarrow> nat \<Rightarrow> nat \<Rightarrow> (files, unit) kop" where
  "fileclose kend me f = kbind (the_file f) (\<lambda>x.
     if f_ref x < 1 then panic ''fileclose''
     else if 0 < f_ref x - 1 then upd_file f (\<lambda>x. x\<lparr>f_ref := f_ref x - 1\<rparr>)
     else kseq (upd_file f (\<lambda>x. x\<lparr>f_ref := 0, f_type := FD_NONE\<rparr>)) (
       case f_type x of
         FD_PIPE \<Rightarrow> close_pipe kend (f_pipe x) (f_writable x)
       | FD_INODE \<Rightarrow> kseq op_begin (kseq (onfs (iput me (f_ip x))) (op_end me))
       | FD_NONE \<Rightarrow> kret ()))"

definition filestat :: "nat \<Rightarrow> nat \<Rightarrow> (files, stat option) kop" where
  "filestat me f = kbind (the_file f) (\<lambda>x.
     if f_type x = FD_INODE then
       kseq (onfs (ilock me (f_ip x))) (
       kbind (onfs (stati (f_ip x))) (\<lambda>st.
       kseq (onfs (iunlock me (f_ip x))) (
       kret (Some st))))
     else kret None)"

section \<open>Reading and writing\<close>

definition fileread :: "nat \<Rightarrow> bool \<Rightarrow> nat \<Rightarrow> u32 \<Rightarrow> (files, int \<times> u8 list) kop" where
  "fileread me killed f n = kbind (the_file f) (\<lambda>x.
     if \<not> f_readable x then kret (- 1, [])
     else case f_type x of
       FD_PIPE \<Rightarrow> onpipe (f_pipe x) (piperead (unat (f_pipe x)) killed (sint n))
     | FD_INODE \<Rightarrow>
         kseq (onfs (ilock me (f_ip x))) (
         kbind (onfs (readi me killed (f_ip x) (f_off x) n)) (\<lambda>(r, bs).
         kseq (if 0 < r then upd_file f (\<lambda>x. x\<lparr>f_off := f_off x + of_int r\<rparr>) else kret ()) (
         kseq (onfs (iunlock me (f_ip x))) (
         kret (r, bs)))))
     | FD_NONE \<Rightarrow> panic ''fileread'')"

text \<open>The most bytes one transaction of \<^verbatim>\<open>filewrite\<close> writes.\<close>

definition write_max :: nat where
  "write_max = nat ((MAXOPBLOCKS - 1 - 1 - 2) div 2) * 512"

lemma write_max_eq: "write_max = 1536"
  by (simp add: write_max_def MAXOPBLOCKS_def)

function filewrite_loop :: "nat \<Rightarrow> nat \<Rightarrow> nat \<Rightarrow> u8 list \<Rightarrow> (files, int) kop" where
  "filewrite_loop me f ip src =
     (if src = [] then kret 0
      else let n1 = min (length src) write_max in
        kseq op_begin (
        kseq (onfs (ilock me ip)) (
        kbind (the_file f) (\<lambda>x.
        kbind (onfs (writei me ip (take n1 src) (f_off x))) (\<lambda>r.
        kseq (if 0 < r then upd_file f (\<lambda>x. x\<lparr>f_off := f_off x + of_int r\<rparr>) else kret ()) (
        kseq (onfs (iunlock me ip)) (
        kseq (op_end me) (
        if r < 0 then kret (int (length src))
        else if r \<noteq> int n1 then panic ''short filewrite''
        else filewrite_loop me f ip (drop n1 src)))))))))"
  by pat_completeness auto
termination by (relation "measure (\<lambda>(me, f, ip, src). length src)") (auto simp: write_max_eq)

declare filewrite_loop.simps [simp del]

text \<open>The loop returns how many bytes are left; \<^verbatim>\<open>filewrite\<close> succeeds when none are.\<close>

definition filewrite :: "nat \<Rightarrow> bool \<Rightarrow> nat \<Rightarrow> u8 list \<Rightarrow> (files, int) kop" where
  "filewrite me killed f src = kbind (the_file f) (\<lambda>x.
     if \<not> f_writable x then kret (- 1)
     else case f_type x of
       FD_PIPE \<Rightarrow> onpipe (f_pipe x) (pipewrite (unat (f_pipe x)) killed (pad0 src) (int (length src)))
     | FD_INODE \<Rightarrow> kbind (filewrite_loop me f (f_ip x) src) (\<lambda>left. kret (if left = 0 then int (length src) else - 1))
     | FD_NONE \<Rightarrow> panic ''filewrite'')"

section \<open>Allocating pipes\<close>

definition pipealloc :: "u32 \<Rightarrow> nat \<Rightarrow> (files, (nat \<times> nat) option) kop" where
  "pipealloc kend me =
     kbind filealloc (\<lambda>r0.
     case r0 of
       None \<Rightarrow> kret None
     | Some f0 \<Rightarrow>
         kbind filealloc (\<lambda>r1.
         case r1 of
           None \<Rightarrow> kseq (fileclose kend me f0) (kret None)
         | Some f1 \<Rightarrow>
             kbind (onmem kalloc) (\<lambda>p.
             if p = 0 then kseq (fileclose kend me f0) (kseq (fileclose kend me f1) (kret None))
             else
               kseq (kmod (\<lambda>s. s\<lparr>pipes := (pipes s)(p := pipe_init (pdata (pipes s p)))\<rparr>)) (
               kseq (upd_file f0 (\<lambda>x. x\<lparr>f_type := FD_PIPE, f_readable := True, f_writable := False, f_pipe := p\<rparr>)) (
               kseq (upd_file f1 (\<lambda>x. x\<lparr>f_type := FD_PIPE, f_readable := False, f_writable := True, f_pipe := p\<rparr>)) (
               kret (Some (f0, f1))))))))"

end
