(* ===== verification/Proc.thy ===== *)
theory Proc
  imports Files
begin

text \<open>
  Processes and threads (\<^verbatim>\<open>proc.c\<close>).

  A process is an index into \<open>ptable\<close>; \<open>cur\<close> is the running one, the result of
  \<^verbatim>\<open>myproc()\<close>.  Its trap frame and kernel context, which the code keeps at the top of the kernel
  stack page, are fields here.  Every routine runs under \<^verbatim>\<open>ptable.lock\<close> or on fields only its
  own process uses, and is one step up to the point where it gives up the processor: a routine
  that sleeps has the outcome \<open>Sleep\<close>.  Addresses that come from the linker are the fields of
  \<open>konf\<close>.  Wakeups requested by the file layer take effect on the table when its call ends.
\<close>

datatype procstate = UNUSED | EMBRYO | SLEEPING | RUNNABLE | RUNNING | ZOMBIE

record trapframe =
  tf_edi :: u32
  tf_esi :: u32
  tf_ebp :: u32
  tf_oesp :: u32
  tf_ebx :: u32
  tf_edx :: u32
  tf_ecx :: u32
  tf_eax :: u32
  tf_gs :: u16
  tf_fs :: u16
  tf_es :: u16
  tf_ds :: u16
  tf_trapno :: u32
  tf_err :: u32
  tf_eip :: u32
  tf_cs :: u16
  tf_eflags :: u32
  tf_esp :: u32
  tf_ss :: u16

record kcontext =
  cx_edi :: u32
  cx_esi :: u32
  cx_ebx :: u32
  cx_ebp :: u32
  cx_eip :: u32

record proc =
  p_sz :: u32
  p_pgdir :: u32
  p_kstack :: u32
  p_state :: procstate
  p_pid :: u32
  p_parent :: "nat option"
  p_tf :: trapframe
  p_context :: kcontext
  p_chan :: chan
  p_killed :: bool
  p_ofile :: "nat option list"
  p_cwd :: nat
  p_name :: cstr
  p_isthread :: bool

record konf =
  k_end :: u32
  k_data :: u32
  k_forkret :: u32

record kern =
  k_ff :: files
  ptable :: "proc list"
  nextpid :: u32
  initproc :: nat
  ticks :: u32
  fork_first :: bool
  cpu_proc :: "nat \<Rightarrow> nat option"

definition NPROC :: nat where [const_defs]: "NPROC = 64"
definition NOFILE :: nat where [const_defs]: "NOFILE = 16"

definition upd_proc :: "nat \<Rightarrow> (proc \<Rightarrow> proc) \<Rightarrow> (kern, unit) kop" where
  "upd_proc p f = kmod (\<lambda>s. s\<lparr>ptable := (ptable s)[p := f (ptable s ! p)]\<rparr>)"

definition the_proc :: "nat \<Rightarrow> (kern, proc) kop" where
  "the_proc p = kget (\<lambda>s. ptable s ! p)"

definition pid_of :: "proc \<Rightarrow> nat" where
  "pid_of p = unat (p_pid p)"

section \<open>Wakeups\<close>

definition wake_proc :: "chan \<Rightarrow> proc \<Rightarrow> proc" where
  "wake_proc c p = (if p_state p = SLEEPING \<and> p_chan p = c then p\<lparr>p_state := RUNNABLE\<rparr> else p)"

definition wakeup1 :: "chan \<Rightarrow> (kern, unit) kop" where
  "wakeup1 c = kmod (\<lambda>s. s\<lparr>ptable := map (wake_proc c) (ptable s)\<rparr>)"

definition wakeup :: "chan \<Rightarrow> (kern, unit) kop" where
  "wakeup c = wakeup1 c"

definition wake_list :: "chan list \<Rightarrow> proc list \<Rightarrow> proc list" where
  "wake_list cs ps = fold (\<lambda>c. map (wake_proc c)) cs ps"

definition inff :: "(files, 'a) kop \<Rightarrow> (kern, 'a) kop" where
  "inff m = (\<lambda>s. case m (k_ff s) of (r, x) \<Rightarrow>
     (r, s\<lparr>k_ff := x\<lparr>ff_fs := (ff_fs x)\<lparr>fs_wake := []\<rparr>\<rparr>, ptable := wake_list (fs_wake (ff_fs x)) (ptable s)\<rparr>))"

definition inmem :: "(kmem, 'a) kop \<Rightarrow> (kern, 'a) kop" where
  "inmem m = inff (onmem m)"

definition infs :: "(fsys, 'a) kop \<Rightarrow> (kern, 'a) kop" where
  "infs m = inff (onfs m)"

section \<open>Creating processes\<close>

definition claim_proc :: "u32 \<Rightarrow> proc \<Rightarrow> proc" where
  "claim_proc pid p = p\<lparr>p_state := EMBRYO, p_pid := pid\<rparr>"

definition proc_slot :: "u32 \<Rightarrow> proc list \<Rightarrow> (nat \<times> proc list) option" where
  "proc_slot pid ps = (case first_idx (\<lambda>p. p_state p = UNUSED) ps of
     None \<Rightarrow> None | Some i \<Rightarrow> Some (i, ps[i := claim_proc pid (ps ! i)]))"

interpretation pst: slot_table "\<lambda>p. p_state p = UNUSED" "claim_proc pid" "proc_slot pid" for pid
  by unfold_locales (auto simp: proc_slot_def claim_proc_def split: option.splits)

definition allocproc :: "konf \<Rightarrow> (kern, nat option) kop" where
  "allocproc k = (\<lambda>s. case proc_slot (nextpid s) (ptable s) of
     None \<Rightarrow> (Ret None, s)
   | Some (p, ps) \<Rightarrow>
       kbind (inmem kalloc) (\<lambda>st.
       kseq (upd_proc p (\<lambda>x. x\<lparr>p_kstack := st\<rparr>)) (
       if st = 0 then kseq (upd_proc p (\<lambda>x. x\<lparr>p_state := UNUSED\<rparr>)) (kret None)
       else kseq (upd_proc p (\<lambda>x. x\<lparr>p_context := \<lparr>cx_edi = 0, cx_esi = 0, cx_ebx = 0, cx_ebp = 0, cx_eip = k_forkret k\<rparr>\<rparr>))
              (kret (Some p))))
       (s\<lparr>ptable := ps, nextpid := nextpid s + 1\<rparr>))"

definition SEG_UCODE :: u16 where [const_defs]: "SEG_UCODE = 3"
definition SEG_UDATA :: u16 where [const_defs]: "SEG_UDATA = 4"
definition DPL_USER :: u16 where [const_defs]: "DPL_USER = 3"
definition FL_IF :: u32 where [const_defs]: "FL_IF = 0x200"

definition init_frame :: trapframe where
  "init_frame = \<lparr>tf_edi = 0, tf_esi = 0, tf_ebp = 0, tf_oesp = 0, tf_ebx = 0, tf_edx = 0, tf_ecx = 0, tf_eax = 0,
     tf_gs = 0, tf_fs = 0, tf_es = push_bit 3 SEG_UDATA OR DPL_USER, tf_ds = push_bit 3 SEG_UDATA OR DPL_USER,
     tf_trapno = 0, tf_err = 0, tf_eip = 0, tf_cs = push_bit 3 SEG_UCODE OR DPL_USER, tf_eflags = FL_IF,
     tf_esp = PGSIZE, tf_ss = push_bit 3 SEG_UDATA OR DPL_USER\<rparr>"

definition cstring :: "string \<Rightarrow> cstr" where
  "cstring x = pad0 (map (\<lambda>c. of_nat (of_char c)) x)"

definition name_size :: int where
  "name_size = 16"

definition userinit :: "konf \<Rightarrow> u8 list \<Rightarrow> (kern, unit) kop" where
  "userinit k initcode =
     kbind (allocproc k) (\<lambda>r.
     case r of
       None \<Rightarrow> panic ''trap''
     | Some p \<Rightarrow>
         kseq (kmod (\<lambda>s. s\<lparr>initproc := p\<rparr>)) (
         kbind (inmem (setupkvm (k_end k) (k_data k))) (\<lambda>pgdir.
         kseq (upd_proc p (\<lambda>x. x\<lparr>p_pgdir := pgdir\<rparr>)) (
         if pgdir = 0 then panic ''userinit: out of memory?''
         else
           kseq (inmem (inituvm pgdir initcode)) (
           kseq (upd_proc p (\<lambda>x. x\<lparr>p_sz := PGSIZE, p_tf := init_frame, p_name := safestrcpy (p_name x) (cstring ''initcode'') name_size\<rparr>)) (
           kbind (infs (namei 0 0 [slash])) (\<lambda>root.
           case root of
             None \<Rightarrow> panic ''trap''
           | Some ip \<Rightarrow>
               kseq (upd_proc p (\<lambda>x. x\<lparr>p_cwd := ip\<rparr>)) (
               upd_proc p (\<lambda>x. x\<lparr>p_state := RUNNABLE\<rparr>)))))))))"

text \<open>The descriptors and the directory a child takes over.\<close>

fun dup_files :: "nat \<Rightarrow> nat \<Rightarrow> nat list \<Rightarrow> (kern, unit) kop" where
  "dup_files cur np [] = kret ()"
| "dup_files cur np (i # is) =
     kbind (the_proc cur) (\<lambda>c.
     kseq (case p_ofile c ! i of
             None \<Rightarrow> kret ()
           | Some f \<Rightarrow> kbind (inff (filedup f)) (\<lambda>g. upd_proc np (\<lambda>x. x\<lparr>p_ofile := (p_ofile x)[i := Some g]\<rparr>))) (
     dup_files cur np is))"

definition fork :: "konf \<Rightarrow> nat \<Rightarrow> (kern, int) kop" where
  "fork k cur =
     kbind (allocproc k) (\<lambda>r.
     case r of
       None \<Rightarrow> kret (- 1)
     | Some np \<Rightarrow>
         kbind (the_proc cur) (\<lambda>c.
         kbind (inmem (copyuvm (k_end k) (k_data k) (p_pgdir c) (p_sz c))) (\<lambda>pgdir.
         kseq (upd_proc np (\<lambda>x. x\<lparr>p_pgdir := pgdir\<rparr>)) (
         kbind (the_proc np) (\<lambda>n.
         if pgdir = 0 then
           kseq (inmem (kfree (k_end k) (p_kstack n))) (
           kseq (upd_proc np (\<lambda>x. x\<lparr>p_kstack := 0, p_state := UNUSED\<rparr>)) (
           kret (- 1)))
         else
           kseq (upd_proc np (\<lambda>x. x\<lparr>p_sz := p_sz c, p_parent := Some cur, p_tf := (p_tf c)\<lparr>tf_eax := 0\<rparr>\<rparr>)) (
           kseq (dup_files cur np [0..<NOFILE]) (
           kbind (infs (idup (p_cwd c))) (\<lambda>cwd.
           kseq (upd_proc np (\<lambda>x. x\<lparr>p_cwd := cwd, p_name := safestrcpy (p_name x) (p_name c) name_size\<rparr>)) (
           kseq (upd_proc np (\<lambda>x. x\<lparr>p_state := RUNNABLE\<rparr>)) (
           kret (sint (p_pid n))))))))))))"

section \<open>Changing the size of a process\<close>

definition share_size :: "nat \<Rightarrow> proc list \<Rightarrow> proc list" where
  "share_size cur ps = map (\<lambda>p. if p_isthread p \<and> (p_parent p = p_parent (ps ! cur) \<or> p_parent p = Some cur)
     then p\<lparr>p_sz := p_sz (ps ! cur)\<rparr> else p) ps"

definition set_size :: "nat \<Rightarrow> u32 \<Rightarrow> (kern, unit) kop" where
  "set_size cur sz =
     kseq (upd_proc cur (\<lambda>x. x\<lparr>p_sz := sz\<rparr>)) (
     kbind (the_proc cur) (\<lambda>c.
     kseq (if p_isthread c then (case p_parent c of None \<Rightarrow> panic ''trap'' | Some q \<Rightarrow> upd_proc q (\<lambda>x. x\<lparr>p_sz := sz\<rparr>)) else kret ()) (
     kmod (\<lambda>s. s\<lparr>ptable := share_size cur (ptable s)\<rparr>))))"

definition growproc :: "konf \<Rightarrow> nat \<Rightarrow> u32 \<Rightarrow> (kern, int) kop" where
  "growproc k cur n =
     kbind (the_proc cur) (\<lambda>c.
     let oldsz = p_sz c in
     if 0 < sint n then
       kbind (inmem (allocuvm (k_end k) (p_pgdir c) oldsz (oldsz + n))) (\<lambda>sz.
       if sz = 0 then kret (- 1) else kseq (set_size cur sz) (kret (sint oldsz)))
     else if sint n < 0 then
       if p_isthread c then kret (- 1)
       else kbind (inmem (deallocuvm (k_end k) (p_pgdir c) oldsz (oldsz + n))) (\<lambda>sz.
         if sz = 0 then kret (- 1) else kseq (set_size cur sz) (kret (sint oldsz)))
     else kseq (set_size cur oldsz) (kret (sint oldsz)))"

section \<open>Exit and wait\<close>

definition parent_chan :: "nat option \<Rightarrow> chan" where
  "parent_chan p = (case p of None \<Rightarrow> ChanNone | Some i \<Rightarrow> ChanProc i)"

fun close_files :: "konf \<Rightarrow> nat \<Rightarrow> nat list \<Rightarrow> (kern, unit) kop" where
  "close_files k cur [] = kret ()"
| "close_files k cur (fd # fds) =
     kbind (the_proc cur) (\<lambda>c.
     kseq (case p_ofile c ! fd of
             None \<Rightarrow> kret ()
           | Some f \<Rightarrow> kseq (inff (fileclose (k_end k) (pid_of c) f)) (upd_proc cur (\<lambda>x. x\<lparr>p_ofile := (p_ofile x)[fd := None]\<rparr>))) (
     close_files k cur fds))"

text \<open>The children of an exiting process go to \<^verbatim>\<open>initproc\<close>, one table entry at a time.\<close>

fun reparent_loop :: "nat \<Rightarrow> nat list \<Rightarrow> (kern, unit) kop" where
  "reparent_loop cur [] = kret ()"
| "reparent_loop cur (p # ps) =
     kbind (the_proc p) (\<lambda>x.
     kbind (kget initproc) (\<lambda>ini.
     kseq (if p_parent x = Some cur then
             kseq (upd_proc p (\<lambda>x. x\<lparr>p_parent := Some ini\<rparr>)) (
             if p_state x = ZOMBIE then wakeup1 (ChanProc ini) else kret ())
           else kret ()) (
     reparent_loop cur ps)))"

definition exit_common :: "konf \<Rightarrow> nat \<Rightarrow> (kern, unit) kop" where
  "exit_common k cur =
     kbind (kget initproc) (\<lambda>ini.
     if cur = ini then panic ''init exiting''
     else
       kseq (close_files k cur [0..<NOFILE]) (
       kbind (the_proc cur) (\<lambda>c.
       kseq (inff op_begin) (
       kseq (infs (iput (pid_of c) (p_cwd c))) (
       kseq (inff (op_end (pid_of c))) (
       kseq (upd_proc cur (\<lambda>x. x\<lparr>p_cwd := 0\<rparr>)) (
       kseq (wakeup1 (parent_chan (p_parent c))) (
       kbind (kget (\<lambda>s. length (ptable s))) (\<lambda>n.
       kseq (reparent_loop cur [0..<n]) (
       upd_proc cur (\<lambda>x. x\<lparr>p_state := ZOMBIE\<rparr>)))))))))))"

definition exit_proc :: "konf \<Rightarrow> nat \<Rightarrow> (kern, unit) kop" where
  "exit_proc k cur = exit_common k cur"

text \<open>The scan of \<^verbatim>\<open>wait\<close> and of \<^verbatim>\<open>thread_join\<close>: children of one kind, and the first zombie of them.\<close>

definition is_kid :: "bool \<Rightarrow> nat \<Rightarrow> proc \<Rightarrow> bool" where
  "is_kid thr cur p \<longleftrightarrow> p_isthread p = thr \<and> p_parent p = Some cur"

definition reap :: "proc \<Rightarrow> proc" where
  "reap p = p\<lparr>p_pid := 0, p_parent := None, p_name := (p_name p)(0 := 0), p_killed := False, p_state := UNUSED\<rparr>"

definition wait_kid :: "konf \<Rightarrow> bool \<Rightarrow> nat \<Rightarrow> (kern, int) kop" where
  "wait_kid k thr cur = (\<lambda>s.
     case first_idx (\<lambda>p. is_kid thr cur p \<and> p_state p = ZOMBIE) (ptable s) of
       Some z \<Rightarrow>
         (let p = ptable s ! z in
          kseq (inmem (kfree (k_end k) (p_kstack p))) (
          kseq (upd_proc z (\<lambda>x. x\<lparr>p_kstack := 0\<rparr>)) (
          kseq (if thr then kret () else inmem (freevm (k_end k) (p_pgdir p))) (
          kseq (upd_proc z reap) (
          kret (sint (p_pid p)))))) s)
     | None \<Rightarrow>
         if \<not> (\<exists>p\<in>set (ptable s). is_kid thr cur p) \<or> p_killed (ptable s ! cur) then (Ret (- 1), s)
         else (Sleep (ChanProc cur), s))"

definition wait_proc :: "konf \<Rightarrow> nat \<Rightarrow> (kern, int) kop" where
  "wait_proc k cur = wait_kid k False cur"

section \<open>Scheduling\<close>

text \<open>One round of the scheduler's scan at table entry \<open>i\<close>, up to the switch to the process.\<close>

definition scheduler_round :: "nat \<Rightarrow> nat \<Rightarrow> (kern, bool) kop" where
  "scheduler_round c i =
     kbind (the_proc i) (\<lambda>p.
     if p_state p \<noteq> RUNNABLE then kret False
     else kseq (kmod (\<lambda>s. s\<lparr>cpu_proc := (cpu_proc s)(c := Some i)\<rparr>)) (
          kseq (upd_proc i (\<lambda>x. x\<lparr>p_state := RUNNING\<rparr>)) (kret True)))"

text \<open>Back in the scheduler after the process has given up the processor.\<close>

definition scheduler_back :: "nat \<Rightarrow> (kern, unit) kop" where
  "scheduler_back c = kmod (\<lambda>s. s\<lparr>cpu_proc := (cpu_proc s)(c := None)\<rparr>)"

text \<open>
  \<^verbatim>\<open>sched\<close> checks the processor's locks before it switches, and restores \<^verbatim>\<open>intena\<close> on the
  processor where the process runs again; \<open>a\<close> is the processor, \<open>l\<close> the number of
  \<^verbatim>\<open>ptable.lock\<close>.
\<close>

definition sched_enter :: "u32 \<Rightarrow> nat \<Rightarrow> procstate \<Rightarrow> (mach, bool) kop" where
  "sched_enter a l st =
     kbind (holding a l) (\<lambda>h.
     if \<not> h then panic ''sched ptable.lock''
     else kbind (mycpu a) (\<lambda>i.
       kbind (kget (\<lambda>m. ncli (cpus m ! i))) (\<lambda>n.
       if n \<noteq> 1 then panic ''sched locks''
       else if st = RUNNING then panic ''sched running''
       else kbind (kget (\<lambda>m. eflags_if m a)) (\<lambda>e.
         if e then panic ''sched interruptible''
         else kget (\<lambda>m. intena (cpus m ! i))))))"

definition sched_return :: "u32 \<Rightarrow> bool \<Rightarrow> (mach, unit) kop" where
  "sched_return a ie = kbind (mycpu a) (\<lambda>i. kmod (upd_cpu i (\<lambda>c. c\<lparr>intena := ie\<rparr>)))"

definition yield :: "nat \<Rightarrow> (kern, unit) kop" where
  "yield cur = upd_proc cur (\<lambda>x. x\<lparr>p_state := RUNNABLE\<rparr>)"

definition sleep :: "nat option \<Rightarrow> chan \<Rightarrow> bool \<Rightarrow> (kern, unit) kop" where
  "sleep cur c haslock = (case cur of
     None \<Rightarrow> panic ''sleep''
   | Some p \<Rightarrow>
       if \<not> haslock then panic ''sleep without lk''
       else upd_proc p (\<lambda>x. x\<lparr>p_chan := c, p_state := SLEEPING\<rparr>))"

definition sleep_return :: "nat \<Rightarrow> (kern, unit) kop" where
  "sleep_return cur = upd_proc cur (\<lambda>x. x\<lparr>p_chan := ChanNone\<rparr>)"

text \<open>The first process to run sets up the file system.\<close>

definition forkret :: "nat \<Rightarrow> (kern, unit) kop" where
  "forkret cur =
     kbind (kget fork_first) (\<lambda>first.
     kbind (the_proc cur) (\<lambda>c.
     if first then
       kseq (kmod (\<lambda>s. s\<lparr>fork_first := False\<rparr>)) (
       kseq (infs (iinit (pid_of c) ROOTDEV)) (
       infs (inld (initlog (pid_of c) ROOTDEV))))
     else kret ()))"

definition kill :: "u32 \<Rightarrow> (kern, int) kop" where
  "kill pid = (\<lambda>s.
     case first_idx (\<lambda>p. p_pid p = pid) (ptable s) of
       None \<Rightarrow> (Ret (- 1), s)
     | Some i \<Rightarrow>
         kseq (upd_proc i (\<lambda>x. x\<lparr>p_killed := True\<rparr>)) (
         kseq (upd_proc i (\<lambda>x. if p_state x = SLEEPING then x\<lparr>p_state := RUNNABLE\<rparr> else x)) (
         kret 0)) s)"

definition state_name :: "procstate \<Rightarrow> string" where
  "state_name st = (case st of UNUSED \<Rightarrow> ''unused'' | EMBRYO \<Rightarrow> ''embryo'' | SLEEPING \<Rightarrow> ''sleep ''
     | RUNNABLE \<Rightarrow> ''runble'' | RUNNING \<Rightarrow> ''run   '' | ZOMBIE \<Rightarrow> ''zombie'')"

section \<open>User memory seen from the kernel\<close>

text \<open>
  The kernel reads and writes user memory through the page table of the running process; an
  address that is not mapped, or not writable for a write, traps in the kernel.
\<close>

definition kva :: "(u32 \<Rightarrow> u32) \<Rightarrow> u32 \<Rightarrow> u32 \<Rightarrow> u32" where
  "kva m d va = frame_of m d va + (va AND 0xFFF)"

definition user_get :: "u32 \<Rightarrow> u32 \<Rightarrow> (kmem, u8) kop" where
  "user_get d va = (\<lambda>s. if mapped (mem s) d va then (Ret (get_byte (mem s) (kva (mem s) d va)), s) else (Panic ''trap'', s))"

definition user_put :: "u32 \<Rightarrow> u32 \<Rightarrow> u8 \<Rightarrow> (kmem, unit) kop" where
  "user_put d va b = (\<lambda>s. if mapped (mem s) d va \<and> lookup (mem s) d va AND PTE_W \<noteq> 0
     then (Ret (), s\<lparr>mem := put_byte (kva (mem s) d va) b (mem s)\<rparr>) else (Panic ''trap'', s))"

fun user_puts :: "u32 \<Rightarrow> u32 \<Rightarrow> u8 list \<Rightarrow> (kmem, unit) kop" where
  "user_puts d va [] = kret ()"
| "user_puts d va (b # bs) = kseq (user_put d va b) (user_puts d (va + 1) bs)"

definition word_bytes :: "u32 \<Rightarrow> u8 list" where
  "word_bytes w = [ucast w, ucast (drop_bit 8 w), ucast (drop_bit 16 w), ucast (drop_bit 24 w)]"

definition user_get32 :: "u32 \<Rightarrow> u32 \<Rightarrow> (kmem, u32) kop" where
  "user_get32 d va =
     kbind (user_get d va) (\<lambda>a.
     kbind (user_get d (va + 1)) (\<lambda>b.
     kbind (user_get d (va + 2)) (\<lambda>c.
     kbind (user_get d (va + 3)) (\<lambda>e.
     kret (ucast a OR push_bit 8 (ucast b) OR push_bit 16 (ucast c) OR push_bit 24 (ucast e))))))"

definition user_put32 :: "u32 \<Rightarrow> u32 \<Rightarrow> u32 \<Rightarrow> (kmem, unit) kop" where
  "user_put32 d va w = user_puts d va (word_bytes w)"

definition leaf_pages :: "(u32 \<Rightarrow> u32) \<Rightarrow> u32 \<Rightarrow> nat" where
  "leaf_pages m d = length (filter (\<lambda>i. m (d + 4 * of_nat i) AND PTE_P \<noteq> 0) [0..<NPDENTRIES])"

text \<open>
  \<^verbatim>\<open>getmeminfo\<close> copies \<^verbatim>\<open>len\<close> bytes of the name whatever \<^verbatim>\<open>len\<close> is: past the 16 bytes of the
  array, \<open>p_name\<close> stands for the bytes that follow it in memory.
\<close>

definition getmeminfo :: "nat \<Rightarrow> u32 \<Rightarrow> u32 \<Rightarrow> u32 \<Rightarrow> (kern, u32) kop" where
  "getmeminfo cur pid name len = (\<lambda>s.
     case first_idx (\<lambda>p. p_pid p = pid) (ptable s) of
       None \<Rightarrow> (Ret 0, s)
     | Some i \<Rightarrow>
         (let p = ptable s ! i in
          kseq (inmem (user_puts (p_pgdir (ptable s ! cur)) name (map (p_name p) [0..<unat len]))) (
          kbind (inmem (kget (\<lambda>m. leaf_pages (mem m) (p_pgdir p)))) (\<lambda>leaf.
          kret (PGROUNDUP (p_sz p) + PGSIZE + PGSIZE + of_nat leaf * PGSIZE))) s))"

section \<open>Threads\<close>

definition thread_create :: "konf \<Rightarrow> nat \<Rightarrow> u32 \<Rightarrow> u32 \<Rightarrow> u32 \<Rightarrow> (kern, int) kop" where
  "thread_create k cur fcn arg stack =
     kbind (allocproc k) (\<lambda>r.
     case r of
       None \<Rightarrow> kret (- 1)
     | Some np \<Rightarrow>
         kbind (the_proc cur) (\<lambda>c.
         kseq (upd_proc np (\<lambda>x. x\<lparr>p_pgdir := p_pgdir c\<rparr>)) (
         kseq (dup_files cur np [0..<NOFILE]) (
         kseq (upd_proc np (\<lambda>x. x\<lparr>p_sz := p_sz c, p_parent := Some cur\<rparr>)) (
         kbind (infs (idup (p_cwd c))) (\<lambda>cwd.
         kseq (upd_proc np (\<lambda>x. x\<lparr>p_cwd := cwd, p_name := safestrcpy (p_name x) (p_name c) name_size\<rparr>)) (
         kseq (upd_proc np (\<lambda>x. x\<lparr>p_tf := (p_tf c)\<lparr>tf_eax := 0, tf_eip := fcn, tf_esp := stack + PGSIZE - 4\<rparr>\<rparr>)) (
         kseq (inmem (user_put32 (p_pgdir c) (stack + PGSIZE - 4) arg)) (
         kseq (upd_proc np (\<lambda>x. x\<lparr>p_tf := (p_tf x)\<lparr>tf_esp := tf_esp (p_tf x) - 4\<rparr>\<rparr>)) (
         kseq (inmem (user_put32 (p_pgdir c) (stack + PGSIZE - 8) 0xFFFFFFFF)) (
         kseq (upd_proc np (\<lambda>x. x\<lparr>p_isthread := True\<rparr>)) (
         kbind (the_proc np) (\<lambda>n.
         kseq (upd_proc np (\<lambda>x. x\<lparr>p_state := RUNNABLE\<rparr>)) (
         kret (sint (p_pid n))))))))))))))))"

definition thread_join :: "konf \<Rightarrow> nat \<Rightarrow> (kern, int) kop" where
  "thread_join k cur = wait_kid k True cur"

definition thread_exit :: "konf \<Rightarrow> nat \<Rightarrow> (kern, unit) kop" where
  "thread_exit k cur = exit_common k cur"

text \<open>One attempt of \<^verbatim>\<open>mutex_lock\<close>: the exchange, and \<^verbatim>\<open>yield\<close> when the mutex was taken.\<close>

definition mutex_try :: "nat \<Rightarrow> u32 \<Rightarrow> (kern, bool) kop" where
  "mutex_try cur lk =
     kbind (the_proc cur) (\<lambda>c.
     kbind (inmem (user_get32 (p_pgdir c) lk)) (\<lambda>old.
     kseq (inmem (user_put32 (p_pgdir c) lk 1)) (
     if old \<noteq> 0 then kseq (yield cur) (kret False) else kret True)))"

definition mutex_unlock :: "nat \<Rightarrow> u32 \<Rightarrow> (kern, unit) kop" where
  "mutex_unlock cur lk = kbind (the_proc cur) (\<lambda>c. inmem (user_put32 (p_pgdir c) lk 0))"

definition thread_sleep :: "nat option \<Rightarrow> u32 \<Rightarrow> u32 \<Rightarrow> (kern, unit) kop" where
  "thread_sleep cur c lk = (case cur of
     None \<Rightarrow> panic ''sleep''
   | Some p \<Rightarrow>
       if lk = 0 then panic ''sleep without lk''
       else kseq (mutex_unlock p lk) (
         upd_proc p (\<lambda>x. x\<lparr>p_chan := ChanUser c, p_state := SLEEPING\<rparr>)))"

end
