(* ===== verification/Syscall.thy ===== *)
theory Syscall
  imports Proc
begin

text \<open>
  System call arguments (\<^verbatim>\<open>syscall.c\<close>), the process system calls (\<^verbatim>\<open>sysproc.c\<close>) and the file
  system calls (\<^verbatim>\<open>sysfile.c\<close>).

  A system call runs for the process \<open>cur\<close>.  Argument fetching returns \<open>None\<close> where the code
  returns -1; a string argument is returned as the bytes before its terminating zero.
\<close>

section \<open>Fetching arguments\<close>

definition fetchint :: "nat \<Rightarrow> u32 \<Rightarrow> (kern, u32 option) kop" where
  "fetchint cur addr =
     kbind (the_proc cur) (\<lambda>c.
     if p_sz c \<le> addr \<or> p_sz c < addr + 4 then kret None
     else kbind (inmem (user_get32 (p_pgdir c) addr)) (\<lambda>w. kret (Some w)))"

text \<open>The scan for the terminating zero, with \<open>n\<close> bytes left before the end of the process.\<close>

fun fetchstr_loop :: "u32 \<Rightarrow> nat \<Rightarrow> u32 \<Rightarrow> u8 list \<Rightarrow> (kern, u8 list option) kop" where
  "fetchstr_loop d 0 va acc = kret None"
| "fetchstr_loop d (Suc n) va acc =
     kbind (inmem (user_get d va)) (\<lambda>b.
     if b = 0 then kret (Some acc) else fetchstr_loop d n (va + 1) (acc @ [b]))"

definition fetchstr :: "nat \<Rightarrow> u32 \<Rightarrow> (kern, u8 list option) kop" where
  "fetchstr cur addr =
     kbind (the_proc cur) (\<lambda>c.
     if p_sz c \<le> addr then kret None
     else fetchstr_loop (p_pgdir c) (unat (p_sz c - addr)) addr [])"

definition argint :: "nat \<Rightarrow> u32 \<Rightarrow> (kern, u32 option) kop" where
  "argint cur n = kbind (the_proc cur) (\<lambda>c. fetchint cur (tf_esp (p_tf c) + 4 + 4 * n))"

definition argptr :: "nat \<Rightarrow> u32 \<Rightarrow> u32 \<Rightarrow> (kern, u32 option) kop" where
  "argptr cur n len =
     kbind (the_proc cur) (\<lambda>c.
     kbind (argint cur n) (\<lambda>r.
     case r of
       None \<Rightarrow> kret None
     | Some i \<Rightarrow>
         if sint len < 0 \<or> p_sz c \<le> i \<or> p_sz c < i + len then kret None else kret (Some i)))"

definition argstr :: "nat \<Rightarrow> u32 \<Rightarrow> (kern, u8 list option) kop" where
  "argstr cur n = kbind (argint cur n) (\<lambda>r. case r of None \<Rightarrow> kret None | Some a \<Rightarrow> fetchstr cur a)"

text \<open>Returning -1 when an argument is missing.\<close>

definition need :: "(kern, 'a option) kop \<Rightarrow> ('a \<Rightarrow> (kern, int) kop) \<Rightarrow> (kern, int) kop" where
  "need m f = kbind m (\<lambda>r. case r of None \<Rightarrow> kret (- 1) | Some x \<Rightarrow> f x)"

section \<open>Process system calls\<close>

definition sys_fork :: "konf \<Rightarrow> nat \<Rightarrow> (kern, int) kop" where
  "sys_fork k cur = fork k cur"

definition sys_exit :: "konf \<Rightarrow> nat \<Rightarrow> (kern, int) kop" where
  "sys_exit k cur = kseq (exit_proc k cur) (kret 0)"

definition sys_wait :: "konf \<Rightarrow> nat \<Rightarrow> (kern, int) kop" where
  "sys_wait k cur = wait_proc k cur"

definition sys_kill :: "nat \<Rightarrow> (kern, int) kop" where
  "sys_kill cur = need (argint cur 0) kill"

definition sys_getpid :: "nat \<Rightarrow> (kern, int) kop" where
  "sys_getpid cur = kbind (the_proc cur) (\<lambda>c. kret (sint (p_pid c)))"

definition sys_sbrk :: "konf \<Rightarrow> nat \<Rightarrow> (kern, int) kop" where
  "sys_sbrk k cur = need (argint cur 0) (\<lambda>n.
     kbind (the_proc cur) (\<lambda>c.
     kbind (growproc k cur n) (\<lambda>r.
     if r < 0 then kret (- 1) else kret (sint (p_sz c)))))"

text \<open>The loop of \<^verbatim>\<open>sys_sleep\<close> from its test; a sleeper that is woken up enters it again with the same \<^verbatim>\<open>ticks0\<close>.\<close>

definition sleep_check :: "nat \<Rightarrow> u32 \<Rightarrow> u32 \<Rightarrow> (kern, int) kop" where
  "sleep_check cur n ticks0 =
     kbind (kget ticks) (\<lambda>t.
     kbind (the_proc cur) (\<lambda>c.
     if t - ticks0 < n then if p_killed c then kret (- 1) else ksleep ChanTicks
     else kret 0))"

definition sys_sleep :: "nat \<Rightarrow> (kern, int) kop" where
  "sys_sleep cur = need (argint cur 0) (\<lambda>n. kbind (kget ticks) (sleep_check cur n))"

definition sys_uptime :: "nat \<Rightarrow> (kern, int) kop" where
  "sys_uptime cur = kbind (kget ticks) (\<lambda>t. kret (sint t))"

text \<open>\<^verbatim>\<open>kcount\<close> may not return on a cyclic free list; then the call does not return either.\<close>

definition sys_memtop :: "nat \<Rightarrow> (kern, int option) kop" where
  "sys_memtop cur = inmem (kget (\<lambda>m. map_option (\<lambda>n. n * 4096) (kcount m)))"

text \<open>The name argument is checked as a string, and its address is what is passed on.\<close>

definition sys_getmeminfo :: "nat \<Rightarrow> (kern, int) kop" where
  "sys_getmeminfo cur =
     need (argint cur 0) (\<lambda>pid.
     need (argstr cur 1) (\<lambda>_.
     need (argint cur 1) (\<lambda>name.
     need (argint cur 2) (\<lambda>len.
     kbind (getmeminfo cur pid name len) (\<lambda>r. kret (sint r))))))"

definition sys_thread_create :: "konf \<Rightarrow> nat \<Rightarrow> (kern, int) kop" where
  "sys_thread_create k cur =
     need (argptr cur 0 4) (\<lambda>fcn.
     need (argptr cur 1 4) (\<lambda>arg.
     need (argptr cur 2 4) (\<lambda>stack.
     thread_create k cur fcn arg stack)))"

definition sys_thread_join :: "konf \<Rightarrow> nat \<Rightarrow> (kern, int) kop" where
  "sys_thread_join k cur = thread_join k cur"

definition sys_thread_exit :: "konf \<Rightarrow> nat \<Rightarrow> (kern, int) kop" where
  "sys_thread_exit k cur = kseq (thread_exit k cur) (kret 0)"

definition sys_thread_sleep :: "nat \<Rightarrow> (kern, int) kop" where
  "sys_thread_sleep cur =
     need (argptr cur 0 4) (\<lambda>c.
     need (argptr cur 1 4) (\<lambda>lk.
     kseq (thread_sleep (Some cur) c lk) (kret 0)))"

definition sys_thread_wakeup :: "nat \<Rightarrow> (kern, int) kop" where
  "sys_thread_wakeup cur = need (argptr cur 0 4) (\<lambda>c. kseq (wakeup (ChanUser c)) (kret 0))"

section \<open>Descriptors\<close>

definition argfd :: "nat \<Rightarrow> u32 \<Rightarrow> (kern, (nat \<times> nat) option) kop" where
  "argfd cur n =
     kbind (argint cur n) (\<lambda>r.
     case r of
       None \<Rightarrow> kret None
     | Some fd \<Rightarrow>
         kbind (the_proc cur) (\<lambda>c.
         if sint fd < 0 \<or> int NOFILE \<le> sint fd then kret None
         else (case p_ofile c ! unat fd of
                 None \<Rightarrow> kret None
               | Some f \<Rightarrow> kret (Some (unat fd, f)))))"

definition fd_slot :: "'a \<Rightarrow> 'a option list \<Rightarrow> (nat \<times> 'a option list) option" where
  "fd_slot f fds = (case first_idx (\<lambda>x. x = None) fds of
     None \<Rightarrow> None | Some i \<Rightarrow> Some (i, fds[i := Some f]))"

interpretation fdt: slot_table "\<lambda>x. x = None" "\<lambda>_. Some f" "fd_slot f" for f :: 'a
  by unfold_locales (auto simp: fd_slot_def split: option.splits)

definition fdalloc :: "nat \<Rightarrow> nat \<Rightarrow> (kern, int) kop" where
  "fdalloc cur f =
     kbind (the_proc cur) (\<lambda>c.
     case fd_slot f (p_ofile c) of
       None \<Rightarrow> kret (- 1)
     | Some (fd, fds) \<Rightarrow> kseq (upd_proc cur (\<lambda>x. x\<lparr>p_ofile := fds\<rparr>)) (kret (int fd)))"

fun user_gets :: "u32 \<Rightarrow> u32 \<Rightarrow> nat \<Rightarrow> u8 list \<Rightarrow> (kmem, u8 list) kop" where
  "user_gets d va 0 acc = kret acc"
| "user_gets d va (Suc n) acc = kbind (user_get d va) (\<lambda>b. user_gets d (va + 1) n (acc @ [b]))"

definition sys_dup :: "nat \<Rightarrow> (kern, int) kop" where
  "sys_dup cur = need (argfd cur 0) (\<lambda>(_, f).
     kbind (fdalloc cur f) (\<lambda>fd.
     if fd < 0 then kret (- 1)
     else kbind (inff (filedup f)) (\<lambda>_. kret fd)))"

definition sys_read :: "nat \<Rightarrow> (kern, int) kop" where
  "sys_read cur =
     need (argfd cur 0) (\<lambda>(_, f).
     need (argint cur 2) (\<lambda>n.
     need (argptr cur 1 n) (\<lambda>p.
     kbind (the_proc cur) (\<lambda>c.
     kbind (inff (fileread (pid_of c) (p_killed c) f n)) (\<lambda>(r, bs).
     kseq (inmem (user_puts (p_pgdir c) p bs)) (kret r))))))"

definition sys_write :: "nat \<Rightarrow> (kern, int) kop" where
  "sys_write cur =
     need (argfd cur 0) (\<lambda>(_, f).
     need (argint cur 2) (\<lambda>n.
     need (argptr cur 1 n) (\<lambda>p.
     kbind (the_proc cur) (\<lambda>c.
     kbind (inmem (user_gets (p_pgdir c) p (unat n) [])) (\<lambda>bs.
     inff (filewrite (pid_of c) (p_killed c) f bs))))))"

definition sys_close :: "konf \<Rightarrow> nat \<Rightarrow> (kern, int) kop" where
  "sys_close k cur = need (argfd cur 0) (\<lambda>(fd, f).
     kseq (upd_proc cur (\<lambda>x. x\<lparr>p_ofile := (p_ofile x)[fd := None]\<rparr>)) (
     kbind (the_proc cur) (\<lambda>c.
     kseq (inff (fileclose (k_end k) (pid_of c) f)) (kret 0))))"

definition half_bytes :: "u16 \<Rightarrow> u8 list" where
  "half_bytes w = [ucast w, ucast (drop_bit 8 w)]"

definition put_stat :: "u32 \<Rightarrow> u32 \<Rightarrow> stat \<Rightarrow> (kmem, unit) kop" where
  "put_stat d a st =
     kseq (user_puts d (a + 4) (word_bytes (st_dev st))) (
     kseq (user_puts d (a + 8) (word_bytes (st_ino st))) (
     kseq (user_puts d a (half_bytes (st_type st))) (
     kseq (user_puts d (a + 12) (half_bytes (st_nlink st))) (
     user_puts d (a + 16) (word_bytes (st_size st))))))"

definition sys_fstat :: "nat \<Rightarrow> (kern, int) kop" where
  "sys_fstat cur =
     need (argfd cur 0) (\<lambda>(_, f).
     need (argptr cur 1 20) (\<lambda>st.
     kbind (the_proc cur) (\<lambda>c.
     kbind (inff (filestat (pid_of c) f)) (\<lambda>r.
     case r of
       None \<Rightarrow> kret (- 1)
     | Some x \<Rightarrow> kseq (inmem (put_stat (p_pgdir c) st x)) (kret 0)))))"

section \<open>Names\<close>

definition op_fail :: "nat \<Rightarrow> (kern, int) kop" where
  "op_fail me = kseq (inff (op_end me)) (kret (- 1))"

definition add_nlink :: "nat \<Rightarrow> nat \<Rightarrow> u16 \<Rightarrow> (kern, unit) kop" where
  "add_nlink me ip d = infs (kseq (upd_inode ip (\<lambda>i. i\<lparr>i_nlink := i_nlink i + d\<rparr>)) (iupdate me ip))"

text \<open>Undoing the link count when the new name cannot be made.\<close>

definition link_bad :: "nat \<Rightarrow> nat \<Rightarrow> (kern, int) kop" where
  "link_bad me ip =
     kseq (infs (ilock me ip)) (
     kseq (add_nlink me ip (- 1)) (
     kseq (infs (iunlockput me ip)) (
     op_fail me)))"

definition sys_link :: "nat \<Rightarrow> (kern, int) kop" where
  "sys_link cur =
     need (argstr cur 0) (\<lambda>old.
     need (argstr cur 1) (\<lambda>new.
     kbind (the_proc cur) (\<lambda>c.
     let me = pid_of c in
     kseq (inff op_begin) (
     kbind (infs (namei me (p_cwd c) old)) (\<lambda>r.
     case r of
       None \<Rightarrow> op_fail me
     | Some ip \<Rightarrow>
         kseq (infs (ilock me ip)) (
         kbind (infs (the_inode ip)) (\<lambda>i.
         if i_type i = T_DIR then kseq (infs (iunlockput me ip)) (op_fail me)
         else
           kseq (add_nlink me ip 1) (
           kseq (infs (iunlock me ip)) (
           kbind (infs (nameiparent me (p_cwd c) new)) (\<lambda>q.
           case q of
             None \<Rightarrow> link_bad me ip
           | Some (dp, name) \<Rightarrow>
               kseq (infs (ilock me dp)) (
               kbind (infs (kget (\<lambda>s. i_dev (icache s ! dp) \<noteq> i_dev (icache s ! ip)))) (\<lambda>other.
               kbind (if other then kret (- 1) else infs (dirlink me dp (pad0 name) (i_inum i) [])) (\<lambda>l.
               if l < 0 then kseq (infs (iunlockput me dp)) (link_bad me ip)
               else
                 kseq (infs (iunlockput me dp)) (
                 kseq (infs (iput me ip)) (
                 kseq (inff (op_end me)) (kret 0))))))))))))))))"

fun isdirempty_loop :: "nat \<Rightarrow> nat \<Rightarrow> u32 list \<Rightarrow> (fsys, bool) kop" where
  "isdirempty_loop me dp [] = kret True"
| "isdirempty_loop me dp (off # offs) =
     kbind (read_dirent me dp off ''isdirempty: readi'') (\<lambda>de.
     if de_inum de \<noteq> 0 then kret False else isdirempty_loop me dp offs)"

definition isdirempty :: "nat \<Rightarrow> nat \<Rightarrow> (fsys, bool) kop" where
  "isdirempty me dp = kbind (the_inode dp) (\<lambda>d. isdirempty_loop me dp (drop 2 (dir_offs (i_size d))))"

definition unlink_bad :: "nat \<Rightarrow> nat \<Rightarrow> (kern, int) kop" where
  "unlink_bad me dp = kseq (infs (iunlockput me dp)) (op_fail me)"

definition sys_unlink :: "nat \<Rightarrow> (kern, int) kop" where
  "sys_unlink cur =
     need (argstr cur 0) (\<lambda>path.
     kbind (the_proc cur) (\<lambda>c.
     let me = pid_of c in
     kseq (inff op_begin) (
     kbind (infs (nameiparent me (p_cwd c) path)) (\<lambda>r.
     case r of
       None \<Rightarrow> op_fail me
     | Some (dp, name) \<Rightarrow>
         kseq (infs (ilock me dp)) (
         if namecmp (pad0 name) (cstring ''.'') = 0 \<or> namecmp (pad0 name) (cstring ''..'') = 0 then unlink_bad me dp
         else kbind (infs (dirlookup me dp (pad0 name))) (\<lambda>q.
           case q of
             None \<Rightarrow> unlink_bad me dp
           | Some (ip, off) \<Rightarrow>
               kseq (infs (ilock me ip)) (
               kbind (infs (the_inode ip)) (\<lambda>i.
               if sint (i_nlink i) < 1 then panic ''unlink: nlink < 1''
               else kbind (if i_type i = T_DIR then infs (isdirempty me ip) else kret True) (\<lambda>empty.
                 if \<not> empty then kseq (infs (iunlockput me ip)) (unlink_bad me dp)
                 else kbind (infs (writei me dp (replicate dirent_size 0) off)) (\<lambda>w.
                   if w \<noteq> int dirent_size then panic ''unlink: writei''
                   else
                     kseq (if i_type i = T_DIR then add_nlink me dp (- 1) else kret ()) (
                     kseq (infs (iunlockput me dp)) (
                     kseq (add_nlink me ip (- 1)) (
                     kseq (infs (iunlockput me ip)) (
                     kseq (inff (op_end me)) (kret 0)))))))))))))))"

definition make_dots :: "nat \<Rightarrow> nat \<Rightarrow> nat \<Rightarrow> (kern, unit) kop" where
  "make_dots me ip dp =
     kseq (add_nlink me dp 1) (
     kbind (infs (kget (\<lambda>s. (i_inum (icache s ! ip), i_inum (icache s ! dp))))) (\<lambda>(inum, dinum).
     kbind (infs (dirlink me ip (cstring ''.'') inum [])) (\<lambda>r.
     if r < 0 then panic ''create dots''
     else kbind (infs (dirlink me ip (cstring ''..'') dinum [])) (\<lambda>r.
       if r < 0 then panic ''create dots'' else kret ()))))"

definition create :: "nat \<Rightarrow> nat \<Rightarrow> u8 list \<Rightarrow> u16 \<Rightarrow> u16 \<Rightarrow> u16 \<Rightarrow> (kern, nat option) kop" where
  "create me cwd path type major minor =
     kbind (infs (nameiparent me cwd path)) (\<lambda>r.
     case r of
       None \<Rightarrow> kret None
     | Some (dp, name) \<Rightarrow>
         kseq (infs (ilock me dp)) (
         kbind (infs (dirlookup me dp (pad0 name))) (\<lambda>q.
         case q of
           Some (ip, _) \<Rightarrow>
             kseq (infs (iunlockput me dp)) (
             kseq (infs (ilock me ip)) (
             kbind (infs (the_inode ip)) (\<lambda>i.
             if type = T_FILE \<and> i_type i = T_FILE then kret (Some ip)
             else kseq (infs (iunlockput me ip)) (kret None))))
         | None \<Rightarrow>
             kbind (infs (kbind (the_inode dp) (\<lambda>d. ialloc me (i_dev d) type))) (\<lambda>ip.
             kseq (infs (ilock me ip)) (
             kseq (infs (upd_inode ip (\<lambda>i. i\<lparr>i_major := major, i_minor := minor, i_nlink := 1\<rparr>))) (
             kseq (infs (iupdate me ip)) (
             kseq (if type = T_DIR then make_dots me ip dp else kret ()) (
             kbind (infs (kbind (the_inode ip) (\<lambda>i. dirlink me dp (pad0 name) (i_inum i) []))) (\<lambda>l.
             if l < 0 then panic ''create: dirlink''
             else kseq (infs (iunlockput me dp)) (kret (Some ip)))))))))))"

definition O_RDONLY :: u32 where [const_defs]: "O_RDONLY = 0"
definition O_WRONLY :: u32 where [const_defs]: "O_WRONLY = 1"
definition O_RDWR :: u32 where [const_defs]: "O_RDWR = 2"
definition O_CREATE :: u32 where [const_defs]: "O_CREATE = 0x200"

text \<open>Finding or making the inode to open; it is locked.\<close>

definition open_inode :: "nat \<Rightarrow> nat \<Rightarrow> u8 list \<Rightarrow> u32 \<Rightarrow> (kern, nat option) kop" where
  "open_inode me cwd path omode =
     (if omode AND O_CREATE \<noteq> 0 then create me cwd path T_FILE 0 0
      else kbind (infs (namei me cwd path)) (\<lambda>r.
        case r of
          None \<Rightarrow> kret None
        | Some ip \<Rightarrow>
            kseq (infs (ilock me ip)) (
            kbind (infs (the_inode ip)) (\<lambda>i.
            if i_type i = T_DIR \<and> omode \<noteq> O_RDONLY then kseq (infs (iunlockput me ip)) (kret None)
            else kret (Some ip)))))"

definition open_fail :: "nat \<Rightarrow> nat \<Rightarrow> (kern, int) kop" where
  "open_fail me ip = kseq (infs (iunlockput me ip)) (op_fail me)"

definition sys_open :: "konf \<Rightarrow> nat \<Rightarrow> (kern, int) kop" where
  "sys_open k cur =
     need (argstr cur 0) (\<lambda>path.
     need (argint cur 1) (\<lambda>omode.
     kbind (the_proc cur) (\<lambda>c.
     let me = pid_of c in
     kseq (inff op_begin) (
     kbind (open_inode me (p_cwd c) path omode) (\<lambda>r.
     case r of
       None \<Rightarrow> op_fail me
     | Some ip \<Rightarrow>
         kbind (inff filealloc) (\<lambda>q.
         case q of
           None \<Rightarrow> open_fail me ip
         | Some f \<Rightarrow>
             kbind (fdalloc cur f) (\<lambda>fd.
             if fd < 0 then kseq (inff (fileclose (k_end k) me f)) (open_fail me ip)
             else
               kseq (infs (iunlock me ip)) (
               kseq (inff (op_end me)) (
               kseq (inff (upd_file f (\<lambda>x. x\<lparr>f_type := FD_INODE, f_ip := ip, f_off := 0,
                       f_readable := (omode AND O_WRONLY = 0),
                       f_writable := (omode AND O_WRONLY \<noteq> 0 \<or> omode AND O_RDWR \<noteq> 0)\<rparr>))) (
               kret fd))))))))))"

definition drop_inode :: "nat \<Rightarrow> nat \<Rightarrow> (kern, int) kop" where
  "drop_inode me ip = kseq (infs (iunlockput me ip)) (kseq (inff (op_end me)) (kret 0))"

definition sys_mkdir :: "nat \<Rightarrow> (kern, int) kop" where
  "sys_mkdir cur =
     kbind (the_proc cur) (\<lambda>c.
     let me = pid_of c in
     kseq (inff op_begin) (
     kbind (argstr cur 0) (\<lambda>a.
     case a of
       None \<Rightarrow> op_fail me
     | Some path \<Rightarrow>
         kbind (create me (p_cwd c) path T_DIR 0 0) (\<lambda>r.
         case r of None \<Rightarrow> op_fail me | Some ip \<Rightarrow> drop_inode me ip))))"

definition mknod_path :: "nat \<Rightarrow> (kern, (u8 list \<times> u32 \<times> u32) option) kop" where
  "mknod_path cur =
     kbind (argstr cur 0) (\<lambda>a.
     case a of
       None \<Rightarrow> kret None
     | Some path \<Rightarrow>
         kbind (argint cur 1) (\<lambda>b.
         case b of
           None \<Rightarrow> kret None
         | Some major \<Rightarrow>
             kbind (argint cur 2) (\<lambda>d.
             case d of None \<Rightarrow> kret None | Some minor \<Rightarrow> kret (Some (path, major, minor)))))"

definition sys_mknod :: "nat \<Rightarrow> (kern, int) kop" where
  "sys_mknod cur =
     kbind (the_proc cur) (\<lambda>c.
     let me = pid_of c in
     kseq (inff op_begin) (
     kbind (mknod_path cur) (\<lambda>a.
     case a of
       None \<Rightarrow> op_fail me
     | Some (path, major, minor) \<Rightarrow>
         kbind (create me (p_cwd c) path T_DEV (ucast major) (ucast minor)) (\<lambda>r.
         case r of None \<Rightarrow> op_fail me | Some ip \<Rightarrow> drop_inode me ip))))"

definition sys_chdir :: "nat \<Rightarrow> (kern, int) kop" where
  "sys_chdir cur =
     kbind (the_proc cur) (\<lambda>c.
     let me = pid_of c in
     kseq (inff op_begin) (
     kbind (argstr cur 0) (\<lambda>a.
     case a of
       None \<Rightarrow> op_fail me
     | Some path \<Rightarrow>
         kbind (infs (namei me (p_cwd c) path)) (\<lambda>r.
         case r of
           None \<Rightarrow> op_fail me
         | Some ip \<Rightarrow>
             kseq (infs (ilock me ip)) (
             kbind (infs (the_inode ip)) (\<lambda>i.
             if i_type i \<noteq> T_DIR then kseq (infs (iunlockput me ip)) (op_fail me)
             else
               kseq (infs (iunlock me ip)) (
               kseq (infs (iput me (p_cwd c))) (
               kseq (inff (op_end me)) (
               kseq (upd_proc cur (\<lambda>x. x\<lparr>p_cwd := ip\<rparr>)) (kret 0))))))))))"

definition sys_pipe :: "konf \<Rightarrow> nat \<Rightarrow> (kern, int) kop" where
  "sys_pipe k cur =
     need (argptr cur 0 8) (\<lambda>fd.
     kbind (the_proc cur) (\<lambda>c.
     let me = pid_of c in
     kbind (inff (pipealloc (k_end k) me)) (\<lambda>r.
     case r of
       None \<Rightarrow> kret (- 1)
     | Some (rf, wrf) \<Rightarrow>
         kbind (fdalloc cur rf) (\<lambda>fd0.
         kbind (if fd0 < 0 then kret (- 1) else fdalloc cur wrf) (\<lambda>fd1.
         if fd0 < 0 \<or> fd1 < 0 then
           kseq (if 0 \<le> fd0 then upd_proc cur (\<lambda>x. x\<lparr>p_ofile := (p_ofile x)[nat fd0 := None]\<rparr>) else kret ()) (
           kseq (inff (fileclose (k_end k) me rf)) (
           kseq (inff (fileclose (k_end k) me wrf)) (
           kret (- 1))))
         else
           kseq (inmem (user_put32 (p_pgdir c) fd (of_int fd0))) (
           kseq (inmem (user_put32 (p_pgdir c) (fd + 4) (of_int fd1))) (
           kret 0)))))))"

end
