(* ===== verification/Shell_Parse.thy ===== *)
theory Shell_Parse
  imports Syscall "HOL-Library.Sublist"
begin

text \<open>
  The parser of the shell (\<^verbatim>\<open>sh.c\<close>).

  While it parses, the shell does not change the line: a pointer into the line is the rest of the
  line from there, and \<^verbatim>\<open>es\<close> is the empty rest.  A token is the pair of its pointers \<^verbatim>\<open>q\<close> and
  \<^verbatim>\<open>eq\<close>.  \<^verbatim>\<open>parseexec\<close> adds arguments to a command that is already inside redirections: the model
  collects arguments and redirections and builds the command at the end.  A call of \<^verbatim>\<open>panic\<close>
  ends the process: the outcome \<open>Quit\<close>.  The mutually recursive routines carry fuel, and
  \<open>NoFuel\<close> is its exhaustion.
\<close>

section \<open>Tokens\<close>

type_synonym ptr = "u8 list"

definition whitespace :: "u8 list" where
  "whitespace = [0x20, 0x09, 0x0D, 0x0A, 0x0B]"

definition symbols :: "u8 list" where
  "symbols = [0x3C, 0x7C, 0x3E, 0x26, 0x3B, 0x28, 0x29]"

definition c_lt :: u8 where [const_defs]: "c_lt = 0x3C"
definition c_gt :: u8 where [const_defs]: "c_gt = 0x3E"
definition c_bar :: u8 where [const_defs]: "c_bar = 0x7C"
definition c_amp :: u8 where [const_defs]: "c_amp = 0x26"
definition c_semi :: u8 where [const_defs]: "c_semi = 0x3B"
definition c_open :: u8 where [const_defs]: "c_open = 0x28"
definition c_close :: u8 where [const_defs]: "c_close = 0x29"
definition c_plus :: u8 where [const_defs]: "c_plus = 0x2B"
definition c_word :: u8 where [const_defs]: "c_word = 0x61"

fun skip_ws :: "ptr \<Rightarrow> ptr" where
  "skip_ws [] = []"
| "skip_ws (c # s) = (if c \<in> set whitespace then skip_ws s else c # s)"

fun word_end :: "ptr \<Rightarrow> ptr" where
  "word_end [] = []"
| "word_end (c # s) = (if c \<notin> set whitespace \<and> c \<notin> set symbols then word_end s else c # s)"

definition gettoken :: "ptr \<Rightarrow> u8 \<times> ptr \<times> ptr \<times> ptr" where
  "gettoken s =
     (let q = skip_ws s;
          (ret, eq) =
            (case q of
               [] \<Rightarrow> (0, [])
             | c # r \<Rightarrow>
                 if c = 0 then (0, q)
                 else if c \<in> {c_bar, c_open, c_close, c_semi, c_amp, c_lt} then (c, r)
                 else if c = c_gt then (if r \<noteq> [] \<and> hd r = c_gt then (c_plus, tl r) else (c_gt, r))
                 else (c_word, word_end q))
      in (ret, q, eq, skip_ws eq))"

definition peek :: "ptr \<Rightarrow> u8 list \<Rightarrow> ptr \<times> bool" where
  "peek s toks = (let r = skip_ws s in (r, r \<noteq> [] \<and> hd r \<noteq> 0 \<and> hd r \<in> set toks))"

section \<open>Commands\<close>

text \<open>The trees of the shell's structures, over the representation \<open>'w\<close> of the words in them.\<close>

datatype 'w cmd =
    EXEC "'w list"
  | REDIR "'w cmd" 'w u32 nat
  | PIPE "'w cmd" "'w cmd"
  | LIST "'w cmd" "'w cmd"
  | BACK "'w cmd"

type_synonym token = "ptr \<times> ptr"
type_synonym pcmd = "token cmd"

definition MAXARGS :: nat where [const_defs]: "MAXARGS = 10"

datatype 'a pres = Parsed 'a ptr | Quit string | NoFuel

type_synonym 'w redir = "'w \<times> u32 \<times> nat"

definition redir_of :: "u8 \<Rightarrow> 'w \<Rightarrow> 'w redir" where
  "redir_of tok f = (if tok = c_lt then (f, O_RDONLY, 0) else (f, O_WRONLY OR O_CREATE, 1))"

definition wrap :: "'w redir list \<Rightarrow> 'w cmd \<Rightarrow> 'w cmd" where
  "wrap rs c = foldl (\<lambda>c (f, mode, fd). REDIR c f mode fd) c rs"

lemma skip_ws_length: "length (skip_ws s) \<le> length s"
  by (induction s) auto

lemma word_end_length: "length (word_end s) \<le> length s"
  by (induction s) auto

lemma skip_ws_head: "skip_ws s = c # r \<Longrightarrow> c \<notin> set whitespace"
  by (induction s) (auto split: if_splits)

definition singles :: "u8 set" where
  "singles = {c_bar, c_open, c_close, c_semi, c_amp, c_lt}"

lemma symbols_split: "c \<in> set symbols \<longleftrightarrow> c \<in> singles \<or> c = c_gt" "c_gt \<notin> singles" "0 \<notin> set symbols" "0 \<notin> set whitespace"
    "c_word \<noteq> 0" "c_plus \<noteq> 0"
  by (auto simp: symbols_def singles_def whitespace_def const_defs)

lemma gettoken_cases:
  "skip_ws s = [] \<Longrightarrow> gettoken s = (0, [], [], [])"
  "skip_ws s = 0 # r \<Longrightarrow> gettoken s = (0, 0 # r, 0 # r, 0 # r)"
  "skip_ws s = c # r \<Longrightarrow> c \<in> singles \<Longrightarrow> gettoken s = (c, c # r, r, skip_ws r)"
  "skip_ws s = c_gt # c_gt # r \<Longrightarrow> gettoken s = (c_plus, c_gt # c_gt # r, r, skip_ws r)"
  "skip_ws s = c_gt # r \<Longrightarrow> r = [] \<or> hd r \<noteq> c_gt \<Longrightarrow> gettoken s = (c_gt, c_gt # r, r, skip_ws r)"
  "skip_ws s = c # r \<Longrightarrow> c \<noteq> 0 \<Longrightarrow> c \<notin> set symbols \<Longrightarrow> gettoken s = (c_word, c # r, word_end r, skip_ws (word_end r))"
proof -
  note g = gettoken_def Let_def singles_def [symmetric]
  note y = symbols_split
  have z: "c \<noteq> 0" if "c \<in> set symbols" for c using that y(3) by metis
  show "skip_ws s = [] \<Longrightarrow> gettoken s = (0, [], [], [])" by (simp add: g)
  show "skip_ws s = 0 # r \<Longrightarrow> gettoken s = (0, 0 # r, 0 # r, 0 # r)" by (simp add: g y)
  show "skip_ws s = c # r \<Longrightarrow> c \<in> singles \<Longrightarrow> gettoken s = (c, c # r, r, skip_ws r)" using z [of c] by (simp add: g y)
  show "skip_ws s = c_gt # c_gt # r \<Longrightarrow> gettoken s = (c_plus, c_gt # c_gt # r, r, skip_ws r)" using z [of c_gt] by (simp add: g y)
  show "skip_ws s = c_gt # r \<Longrightarrow> r = [] \<or> hd r \<noteq> c_gt \<Longrightarrow> gettoken s = (c_gt, c_gt # r, r, skip_ws r)"
    using z [of c_gt] by (auto simp: g y)
  assume c: "skip_ws s = c # r" "c \<noteq> 0" "c \<notin> set symbols"
  then show "gettoken s = (c_word, c # r, word_end r, skip_ws (word_end r))" using skip_ws_head [OF c(1)] by (simp add: g y)
qed

lemma gettoken_exhaust:
  obtains "skip_ws s = []" | r where "skip_ws s = 0 # r" | c r where "skip_ws s = c # r" "c \<in> singles" "c \<noteq> 0"
  | r where "skip_ws s = c_gt # c_gt # r" | r where "skip_ws s = c_gt # r" "r = [] \<or> hd r \<noteq> c_gt"
  | c r where "skip_ws s = c # r" "c \<noteq> 0" "c \<notin> set symbols"
proof (cases "skip_ws s")
  case (Cons c r)
  then show ?thesis using that symbols_split by (cases "c = c_gt"; cases r) (fastforce, fastforce, auto)
qed

lemma gettoken_length:
  assumes g: "gettoken s = (tok, q, eq, r)"
  shows "length r \<le> length s" "skip_ws s \<noteq> [] \<Longrightarrow> hd (skip_ws s) \<noteq> 0 \<Longrightarrow> length r < length s" "tok \<noteq> 0 \<Longrightarrow> length r < length s"
proof -
  have l: "length (skip_ws x) \<le> length x" for x by (rule skip_ws_length)
  have "length r \<le> length s \<and> (skip_ws s \<noteq> [] \<and> hd (skip_ws s) \<noteq> 0 \<or> tok \<noteq> 0 \<longrightarrow> length r < length s)"
  proof (cases s rule: gettoken_exhaust)
    case (6 c t)
    show ?thesis using g gettoken_cases(6) [OF 6] l [of s, unfolded 6(1)] l [of "word_end t"] word_end_length [of t] by auto
  next
    case (3 c t)
    show ?thesis using g gettoken_cases(3) [OF 3(1,2)] l [of s, unfolded 3(1)] l [of t] by auto
  next
    case (4 t)
    show ?thesis using g gettoken_cases(4) [OF 4] l [of s, unfolded 4] l [of t] by auto
  next
    case (5 t)
    show ?thesis using g gettoken_cases(5) [OF 5] l [of s, unfolded 5(1)] l [of t] by auto
  next
    case (2 t)
    show ?thesis unfolding 2 using g gettoken_cases(2) [OF 2] l [of s, unfolded 2] by auto
  qed (use g gettoken_cases(1) in auto)
  then show "length r \<le> length s" "skip_ws s \<noteq> [] \<Longrightarrow> hd (skip_ws s) \<noteq> 0 \<Longrightarrow> length r < length s" "tok \<noteq> 0 \<Longrightarrow> length r < length s"
    by auto
qed

lemma skip_ws_idem: "skip_ws (skip_ws s) = skip_ws s"
  by (induction s) auto

lemma peek_length:
  assumes "peek s toks = (r, b)"
  shows "length r \<le> length s" "b \<Longrightarrow> gettoken r = (tok, q, eq, r') \<Longrightarrow> length r' < length s"
  using assms skip_ws_length [of s] gettoken_length(2) [of r tok q eq r'] by (auto simp: peek_def Let_def skip_ws_idem)

section \<open>Redirections and arguments\<close>

function parseredirs :: "token redir list \<Rightarrow> ptr \<Rightarrow> token redir list pres" where
  "parseredirs rs s =
     (let (r, more) = peek s [c_lt, c_gt] in
      if \<not> more then Parsed rs r
      else let (tok, _, _, r1) = gettoken r; (t, q, eq, r2) = gettoken r1 in
        if t \<noteq> c_word then Quit ''missing file for redirection''
        else parseredirs (rs @ [redir_of tok (q, eq)]) r2)"
  by pat_completeness auto
termination
proof (relation "measure (\<lambda>(rs, s). length s)", simp, clarsimp)
  fix s r tok a b r1 t q eq r2
  assume "(r, True) = peek s [c_lt, c_gt]" "(tok, a, b, r1) = gettoken r" "(c_word, q, eq, r2) = gettoken r1"
  then show "length r2 < length s"
    using peek_length(2) [of s "[c_lt, c_gt]" r True tok a b r1] gettoken_length(1) [of r1 c_word q eq r2] by (metis order_le_less_trans)
qed

declare parseredirs.simps [simp del]

lemma parseredirs_induct [case_names step]:
  assumes "\<And>rs s. (\<And>r tok a b r1 q eq r2. peek s [c_lt, c_gt] = (r, True) \<Longrightarrow> gettoken r = (tok, a, b, r1) \<Longrightarrow>
      gettoken r1 = (c_word, q, eq, r2) \<Longrightarrow> P (rs @ [redir_of tok (q, eq)]) r2) \<Longrightarrow> P rs s"
  shows "P rs s"
proof (induction rs s rule: parseredirs.induct)
  case (1 rs s)
  show ?case by (rule assms, rule 1, rule refl, erule sym, simp, rule refl, erule sym, rule refl, rule refl, rule refl, erule sym, rule refl, rule refl, simp)
qed

lemma parseredirs_exhaust:
  obtains (stop) r where "peek s [c_lt, c_gt] = (r, False)" "parseredirs rs s = Parsed rs r"
  | (bad) r tok a b r1 where "peek s [c_lt, c_gt] = (r, True)" "gettoken r = (tok, a, b, r1)" "fst (gettoken r1) \<noteq> c_word"
      "parseredirs rs s = Quit ''missing file for redirection''"
  | (more) r tok a b r1 q eq r2 where "peek s [c_lt, c_gt] = (r, True)" "gettoken r = (tok, a, b, r1)" "gettoken r1 = (c_word, q, eq, r2)"
      "parseredirs rs s = parseredirs (rs @ [redir_of tok (q, eq)]) r2"
proof -
  obtain r0 m where p: "peek s [c_lt, c_gt] = (r0, m)" by fastforce
  obtain tok a b r1 where g: "gettoken r0 = (tok, a, b, r1)" by (cases "gettoken r0")
  obtain t q eq r2 where g2: "gettoken r1 = (t, q, eq, r2)" by (cases "gettoken r1")
  note e = parseredirs.simps [of rs s]
  consider "\<not> m" | "m" "t \<noteq> c_word" | "m" "t = c_word" by blast
  then show thesis
  proof cases
    case 1 then show ?thesis using p e stop by simp
  next
    case 2 then show ?thesis using p g g2 e bad [of r0 tok a b r1] by simp
  next
    case 3 then show ?thesis using p g g2 e more [of r0 tok a b r1 q eq r2] by simp
  qed
qed

lemma parseredirs_length: "parseredirs rs s = Parsed rs' r \<Longrightarrow> length r \<le> length s"
proof (induction rs s rule: parseredirs_induct)
  case (step rs s)
  show ?case
  proof (cases s rs rule: parseredirs_exhaust)
    case (stop r0)
    then show ?thesis using step(2) peek_length(1) [OF stop(1)] by simp
  next
    case (more r0 tok a b r1 q eq r2)
    then have "length r \<le> length r2" using step by simp
    then show ?thesis using peek_length(2) [OF more(1) _ more(2)] gettoken_length(1) [OF more(3)] by simp
  qed (use step in simp)
qed

lemma parseredirs_total: "parseredirs rs s \<noteq> NoFuel"
proof (induction rs s rule: parseredirs_induct)
  case (step rs s)
  then show ?case by (cases s rs rule: parseredirs_exhaust) simp_all
qed

function parseargs :: "token list \<Rightarrow> token redir list \<Rightarrow> ptr \<Rightarrow> (token list \<times> token redir list) pres" where
  "parseargs args rs s =
     (let (r, stop) = peek s [c_bar, c_close, c_amp, c_semi] in
      if stop then Parsed (args, rs) r
      else let (tok, q, eq, r1) = gettoken r in
        if tok = 0 then Parsed (args, rs) r1
        else if tok \<noteq> c_word then Quit ''syntax''
        else if MAXARGS \<le> length args + 1 then Quit ''too many args''
        else (case parseredirs rs r1 of
                Parsed rs' r2 \<Rightarrow> parseargs (args @ [(q, eq)]) rs' r2
              | Quit e \<Rightarrow> Quit e
              | NoFuel \<Rightarrow> NoFuel))"
  by pat_completeness auto
termination
proof (relation "measure (\<lambda>(args, rs, s). length s)", simp, clarsimp)
  fix s r q eq r1 rs rs' r2
  assume a: "(r, False) = peek s [c_bar, c_close, c_amp, c_semi]" "(c_word, q, eq, r1) = gettoken r" "parseredirs rs r1 = Parsed rs' r2"
  have "length r1 < length r" using gettoken_length(3) [of r c_word q eq r1] a(2) by (simp add: c_word_def)
  then show "length r2 < length s"
    using peek_length(1) [of s _ r False] parseredirs_length [OF a(3)] a(1) by (metis order_le_less_trans order_less_le_trans)
qed

declare parseargs.simps [simp del]

lemma parseargs_induct [case_names step]:
  assumes "\<And>args rs s. (\<And>r q eq r1 rs' r2. peek s [c_bar, c_close, c_amp, c_semi] = (r, False) \<Longrightarrow> gettoken r = (c_word, q, eq, r1) \<Longrightarrow>
      length args + 1 < MAXARGS \<Longrightarrow> parseredirs rs r1 = Parsed rs' r2 \<Longrightarrow> P (args @ [(q, eq)]) rs' r2) \<Longrightarrow> P args rs s"
  shows "P args rs s"
proof (induction args rs s rule: parseargs.induct)
  case (1 args rs s)
  show ?case
    by (rule assms, rule 1, rule refl, erule sym, simp, rule refl, erule sym, rule refl, rule refl, rule symbols_split(5), simp, simp, assumption)
qed

lemma parseargs_exhaust:
  obtains (stop) r where "peek s [c_bar, c_close, c_amp, c_semi] = (r, True)" "parseargs args rs s = Parsed (args, rs) r"
  | (eol) r q eq r1 where "peek s [c_bar, c_close, c_amp, c_semi] = (r, False)" "gettoken r = (0, q, eq, r1)"
      "parseargs args rs s = Parsed (args, rs) r1"
  | (bad) r e where "peek s [c_bar, c_close, c_amp, c_semi] = (r, False)" "parseargs args rs s = Quit e"
  | (more) r q eq r1 rs' r2 where "peek s [c_bar, c_close, c_amp, c_semi] = (r, False)" "gettoken r = (c_word, q, eq, r1)"
      "length args + 1 < MAXARGS" "parseredirs rs r1 = Parsed rs' r2"
      "parseargs args rs s = parseargs (args @ [(q, eq)]) rs' r2"
proof -
  obtain r st where p: "peek s [c_bar, c_close, c_amp, c_semi] = (r, st)" by fastforce
  obtain tok q eq r1 where g: "gettoken r = (tok, q, eq, r1)" by (cases "gettoken r")
  note e = parseargs.simps [of args rs s]
  consider "st" | "\<not> st" "tok = 0" | "\<not> st" "tok \<noteq> 0" "tok \<noteq> c_word \<or> MAXARGS \<le> length args + 1"
    | "\<not> st" "tok = c_word" "length args + 1 < MAXARGS" by linarith
  then show thesis
  proof cases
    case 1 then show ?thesis using p e stop by simp
  next
    case 2 then show ?thesis using p g e eol by simp
  next
    case 3
    then show ?thesis
      using p g e bad [of r "if tok \<noteq> c_word then ''syntax'' else ''too many args''"] by (cases "tok = c_word") simp_all
  next
    case 4
    then show ?thesis
      using p g e bad [of r] more [of r q eq r1] parseredirs_total [of rs r1] symbols_split(5) by (cases "parseredirs rs r1") simp_all
  qed
qed

section \<open>Lines\<close>

fun pbind :: "'a pres \<Rightarrow> ('a \<Rightarrow> ptr \<Rightarrow> 'b pres) \<Rightarrow> 'b pres" where
  "pbind (Parsed x r) f = f x r"
| "pbind (Quit e) f = Quit e"
| "pbind NoFuel f = NoFuel"

function parsebacks :: "pcmd \<Rightarrow> ptr \<Rightarrow> pcmd \<times> ptr" where
  "parsebacks c s =
     (let (r, more) = peek s [c_amp] in
      if more then let (_, _, _, r1) = gettoken r in parsebacks (BACK c) r1 else (c, r))"
  by pat_completeness auto
termination
proof (relation "measure (\<lambda>(c, s). length s)", simp, clarsimp)
  fix s r tok q eq r1
  assume "(r, True) = peek s [c_amp]" "(tok, q, eq, r1) = gettoken r"
  then show "length r1 < length s" using peek_length(2) [of s "[c_amp]" r True tok q eq r1] by simp
qed

declare parsebacks.simps [simp del]

definition skip_token :: "ptr \<Rightarrow> ptr" where
  "skip_token s = (case gettoken s of (_, _, _, r) \<Rightarrow> r)"

fun parseline :: "nat \<Rightarrow> ptr \<Rightarrow> pcmd pres"
  and parsepipe :: "nat \<Rightarrow> ptr \<Rightarrow> pcmd pres"
  and parseblock :: "nat \<Rightarrow> ptr \<Rightarrow> pcmd pres"
  and parseexec :: "nat \<Rightarrow> ptr \<Rightarrow> pcmd pres" where
  "parseline 0 s = NoFuel"
| "parseline (Suc n) s =
     pbind (parsepipe n s) (\<lambda>c r.
       let (c', r1) = parsebacks c r; (r2, more) = peek r1 [c_semi] in
       if more then pbind (parseline n (skip_token r2)) (\<lambda>d r3. Parsed (LIST c' d) r3)
       else Parsed c' r2)"
| "parsepipe 0 s = NoFuel"
| "parsepipe (Suc n) s =
     pbind (parseexec n s) (\<lambda>c r.
       let (r1, more) = peek r [c_bar] in
       if more then pbind (parsepipe n (skip_token r1)) (\<lambda>d r2. Parsed (PIPE c d) r2)
       else Parsed c r1)"
| "parseblock 0 s = NoFuel"
| "parseblock (Suc n) s =
     (let (r, yes) = peek s [c_open] in
      if \<not> yes then Quit ''parseblock''
      else pbind (parseline n (skip_token r)) (\<lambda>c r1.
        let (r2, closed) = peek r1 [c_close] in
        if \<not> closed then Quit ''syntax - missing )''
        else pbind (parseredirs [] (skip_token r2)) (\<lambda>rs r3. Parsed (wrap rs c) r3)))"
| "parseexec 0 s = NoFuel"
| "parseexec (Suc n) s =
     (let (r, block) = peek s [c_open] in
      if block then parseblock n r
      else pbind (parseredirs [] r) (\<lambda>rs r1.
        pbind (parseargs [] rs r1) (\<lambda>(args, rs') r2. Parsed (wrap rs' (EXEC args)) r2)))"

definition parse_fuel :: "ptr \<Rightarrow> nat" where
  "parse_fuel s = 4 * length s + 4"

fun nulterminate :: "nat \<Rightarrow> pcmd \<Rightarrow> u8 list \<Rightarrow> u8 list" where
  "nulterminate n (EXEC args) b = fold (\<lambda>(q, eq) b. b[n - length eq := 0]) args b"
| "nulterminate n (REDIR c (q, eq) mode fd) b = (nulterminate n c b)[n - length eq := 0]"
| "nulterminate n (PIPE c d) b = nulterminate n d (nulterminate n c b)"
| "nulterminate n (LIST c d) b = nulterminate n d (nulterminate n c b)"
| "nulterminate n (BACK c) b = nulterminate n c b"

definition parsecmd :: "ptr \<Rightarrow> (pcmd \<times> u8 list) pres" where
  "parsecmd s =
     pbind (parseline (parse_fuel s) s) (\<lambda>c r.
       let (r1, _) = peek r [] in
       if r1 \<noteq> [] then Quit ''syntax'' else Parsed (c, nulterminate (length s) c (s @ [0])) r1)"

section \<open>The parser returns\<close>

lemma pbind_Parsed: "pbind m f = Parsed y t \<longleftrightarrow> (\<exists>x r. m = Parsed x r \<and> f x r = Parsed y t)"
  by (cases m) auto

lemma pbind_NoFuel: "pbind m f = NoFuel \<longleftrightarrow> m = NoFuel \<or> (\<exists>x r. m = Parsed x r \<and> f x r = NoFuel)"
  by (cases m) auto

lemma case_prod_eq: "(case p of (a, b) \<Rightarrow> f a b) = y \<longleftrightarrow> (\<exists>a b. p = (a, b) \<and> f a b = y)"
  by (cases p) auto

fun short :: "'w cmd \<Rightarrow> bool" where
  "short (EXEC args) \<longleftrightarrow> length args < MAXARGS"
| "short (REDIR c f mode fd) \<longleftrightarrow> fd \<le> 1 \<and> short c"
| "short (PIPE c d) \<longleftrightarrow> short c \<and> short d"
| "short (LIST c d) \<longleftrightarrow> short c \<and> short d"
| "short (BACK c) \<longleftrightarrow> short c"

definition delims :: "u8 set" where
  "delims = set whitespace \<union> set symbols"

fun tok_in :: "ptr \<Rightarrow> token \<Rightarrow> bool" where
  "tok_in line (q, eq) \<longleftrightarrow> suffix q line \<and> (\<exists>w. q = w @ eq \<and> set w \<inter> delims = {} \<and> (eq = [] \<or> hd eq \<in> delims))"

lemma skip_ws_suffix: "suffix (skip_ws s) s"
  by (induction s) (auto simp: suffix_Cons)

lemma word_end_split: "\<exists>w. s = w @ word_end s \<and> set w \<inter> delims = {} \<and> (word_end s = [] \<or> hd (word_end s) \<in> delims)"
proof (induction s)
  case (Cons c s)
  show ?case
  proof (cases "c \<in> delims")
    case True
    then show ?thesis by (auto simp: delims_def)
  next
    case False
    then obtain w where "s = w @ word_end s" "set w \<inter> delims = {}" "word_end s = [] \<or> hd (word_end s) \<in> delims" using Cons by blast
    then show ?thesis using False by (intro exI [of _ "c # w"]) (auto simp: delims_def)
  qed
qed simp

lemma gettoken_at:
  assumes "suffix s line" and g: "gettoken s = (tok, q, eq, r)"
  shows "suffix r line" "tok = c_word \<Longrightarrow> tok_in line (q, eq)"
proof -
  note t = suffix_order.trans
  have s: "suffix (skip_ws s) line" using t [OF skip_ws_suffix assms(1)] .
  have tl: "suffix t line" if "suffix (c # t) line" for c and t :: ptr using that by (auto simp: suffix_def)
  have sk: "suffix (skip_ws t) line" if "suffix t line" for t using t [OF skip_ws_suffix that] .
  have n: "c_word \<notin> singles" "c_word \<noteq> 0" "c_word \<noteq> c_gt" "c_word \<noteq> c_plus" by (simp_all add: singles_def const_defs)
  have "suffix r line \<and> (tok = c_word \<longrightarrow> tok_in line (q, eq))"
  proof (cases s rule: gettoken_exhaust)
    case 1
    then show ?thesis using g n by (simp add: gettoken_cases)
  next
    case (2 u)
    then show ?thesis using g n s by (auto simp: gettoken_cases)
  next
    case (3 c u)
    then show ?thesis using g n s sk [OF tl] by (auto simp: gettoken_cases)
  next
    case (4 u)
    then show ?thesis using g n s sk [OF tl [OF tl]] by (auto simp: gettoken_cases)
  next
    case (5 u)
    then show ?thesis using g n s sk [OF tl] by (auto simp: gettoken_cases)
  next
    case (6 c u)
    have e: "q = c # u" "eq = word_end u" "r = skip_ws (word_end u)" using g gettoken_cases(6) [OF 6] by auto
    obtain w where w: "u = w @ word_end u" "set w \<inter> delims = {}" "word_end u = [] \<or> hd (word_end u) \<in> delims"
      using word_end_split by blast
    have q: "suffix (c # u) line" using s 6(1) by simp
    have "c \<notin> delims" using skip_ws_head [OF 6(1)] 6(3) by (simp add: delims_def)
    then have "\<exists>v. q = v @ eq \<and> set v \<inter> delims = {} \<and> (eq = [] \<or> hd eq \<in> delims)"
      using e w by (intro exI [of _ "c # w"]) simp
    then have "tok_in line (q, eq)" using e(1) q by simp
    moreover have "suffix (word_end u) line" using t [OF _ tl [OF q], of "word_end u"] w(1) by (metis suffixI)
    ultimately show ?thesis using sk e(3) by simp
  qed
  then show "suffix r line" "tok = c_word \<Longrightarrow> tok_in line (q, eq)" by simp_all
qed

declare tok_in.simps [simp del]

lemma peek_at: "suffix s line \<Longrightarrow> peek s ts = (r, b) \<Longrightarrow> suffix r line"
  by (auto simp: peek_def Let_def intro: suffix_order.trans [OF skip_ws_suffix])

lemma skip_token_at: "suffix s line \<Longrightarrow> suffix (skip_token s) line"
  using gettoken_at(1) by (auto simp: skip_token_def split: prod.splits)

lemma skip_token_length: "peek s toks = (r, True) \<Longrightarrow> length (skip_token r) < length s"
  using peek_length(2) [of s toks r True] by (auto simp: skip_token_def split: prod.splits)

definition redirs_at :: "ptr \<Rightarrow> token redir list \<Rightarrow> bool" where
  "redirs_at line rs \<longleftrightarrow> (\<forall>(f, mode, fd) \<in> set rs. tok_in line f \<and> fd \<le> 1)"

lemma redirs_at_simps [simp]:
  "redirs_at line []" "redirs_at line ((f, mode, fd) # rs) \<longleftrightarrow> tok_in line f \<and> fd \<le> 1 \<and> redirs_at line rs"
  "redirs_at line (rs @ [redir_of tok f]) \<longleftrightarrow> redirs_at line rs \<and> tok_in line f"
  by (auto simp: redirs_at_def redir_of_def)

lemma parsebacks_at:
  "suffix s line \<Longrightarrow> (\<forall>t \<in> set_cmd c. tok_in line t) \<and> short c \<Longrightarrow> parsebacks c s = (c', r) \<Longrightarrow>
    suffix r line \<and> (\<forall>t \<in> set_cmd c'. tok_in line t) \<and> short c'"
proof (induction c s rule: parsebacks.induct)
  case (1 c s)
  obtain r0 more where p: "peek s [c_amp] = (r0, more)" by fastforce
  obtain tok q eq r1 where g: "gettoken r0 = (tok, q, eq, r1)" by (cases "gettoken r0")
  note a = peek_at [OF 1(2) p]
  show ?case
  proof (cases more)
    case True
    have "parsebacks (BACK c) r1 = (c', r)" using 1(4) True p g by (simp add: parsebacks.simps [of c s])
    then show ?thesis using 1(1) [OF p [symmetric] refl True g [symmetric] refl refl refl gettoken_at(1) [OF a g]] 1(3) by simp
  next
    case False
    then show ?thesis using 1(3,4) p a by (simp add: parsebacks.simps [of c s])
  qed
qed

lemma parseredirs_at:
  "suffix s line \<Longrightarrow> redirs_at line rs \<Longrightarrow> parseredirs rs s = Parsed rs' r \<Longrightarrow>
    suffix r line \<and> redirs_at line rs'"
proof (induction rs s rule: parseredirs_induct)
  case (step rs s)
  show ?case
  proof (cases s rs rule: parseredirs_exhaust)
    case (stop r0)
    then show ?thesis using step(3,4) peek_at [OF step(2) stop(1)] by simp
  next
    case (more r0 tok a b r1 q eq r2)
    note at = gettoken_at [OF gettoken_at(1) [OF peek_at [OF step(2) more(1)] more(2)] more(3)]
    have "redirs_at line (rs @ [redir_of tok (q, eq)])" using step(3) at(2) by simp
    then show ?thesis by (rule step(1) [OF more(1-3) at(1) _ step(4) [unfolded more(4)]])
  qed (use step in simp)
qed

lemma parseargs_at:
  "suffix s line \<Longrightarrow> redirs_at line rs \<Longrightarrow> (\<forall>t \<in> set args. tok_in line t) \<and> length args < MAXARGS \<Longrightarrow>
   parseargs args rs s = Parsed (args', rs') r \<Longrightarrow>
    suffix r line \<and> redirs_at line rs' \<and> (\<forall>t \<in> set args'. tok_in line t) \<and> length args' < MAXARGS"
proof (induction args rs s rule: parseargs_induct)
  case (step args rs s)
  show ?case
  proof (cases s args rs rule: parseargs_exhaust)
    case (stop r0)
    then show ?thesis using step(3-5) peek_at [OF step(2) stop(1)] by simp
  next
    case (eol r0 q eq r1)
    then show ?thesis using step(3-5) gettoken_at(1) [OF peek_at [OF step(2) eol(1)] eol(2)] by simp
  next
    case (more r0 q eq r1 rs1 r2)
    note at = gettoken_at [OF peek_at [OF step(2) more(1)] more(2)]
    have "(\<forall>t \<in> set (args @ [(q, eq)]). tok_in line t) \<and> length (args @ [(q, eq)]) < MAXARGS" using step(4) at(2) more(3) by simp
    then show ?thesis using parseredirs_at [OF at(1) step(3) more(4)] by (intro step(1) [OF more(1-4) _ _ _ step(5) [unfolded more(5)]]) simp_all
  qed (use step in simp)
qed

lemma parseargs_total: "parseargs args rs s \<noteq> NoFuel"
proof (induction args rs s rule: parseargs_induct)
  case (step args rs s)
  then show ?case by (cases s args rs rule: parseargs_exhaust) simp_all
qed

lemma wrap_simps [simp]:
  "wrap [] c = c" "wrap ((f, mode, fd) # rs) c = wrap rs (REDIR c f mode fd)" "wrap (rs @ rs') c = wrap rs' (wrap rs c)"
  by (simp_all add: wrap_def)

lemma wrap_at:
  "redirs_at line rs \<Longrightarrow> (\<forall>t \<in> set_cmd c. tok_in line t) \<and> short c \<Longrightarrow>
    (\<forall>t \<in> set_cmd (wrap rs c). tok_in line t) \<and> short (wrap rs c)"
proof (induction rs arbitrary: c)
  case (Cons x rs)
  obtain f mode fd where x: "x = (f, mode, fd)" by (cases x)
  have "(\<forall>t \<in> set_cmd (REDIR c f mode fd). tok_in line t) \<and> short (REDIR c f mode fd)" "redirs_at line rs" using Cons(2,3) x by simp_all
  then show ?case unfolding x wrap_simps by (intro Cons(1))
qed simp

definition parsed_at :: "ptr \<Rightarrow> pcmd pres \<Rightarrow> bool" where
  "parsed_at line m \<longleftrightarrow> (\<forall>c r. m = Parsed c r \<longrightarrow> suffix r line \<and> (\<forall>t \<in> set_cmd c. tok_in line t) \<and> short c)"

lemma parsed_at_bind:
  "parsed_at line m \<Longrightarrow> (\<And>c r. m = Parsed c r \<Longrightarrow> suffix r line \<Longrightarrow> (\<forall>t \<in> set_cmd c. tok_in line t) \<and> short c \<Longrightarrow> parsed_at line (f c r)) \<Longrightarrow>
    parsed_at line (pbind m f)"
  by (cases m) (auto simp: parsed_at_def)

lemma parsed_at_simps [simp]:
  "parsed_at line (Quit e)" "parsed_at line NoFuel"
  "parsed_at line (Parsed c r) \<longleftrightarrow> suffix r line \<and> (\<forall>t \<in> set_cmd c. tok_in line t) \<and> short c"
  by (simp_all add: parsed_at_def)

lemma parse_at:
  "suffix s line \<Longrightarrow> parsed_at line (parseline n s) \<and> parsed_at line (parsepipe n s) \<and>
    parsed_at line (parseblock n s) \<and> parsed_at line (parseexec n s)"
proof (induction n arbitrary: s)
  case (Suc n)
  have line: "parsed_at line (parseline (Suc n) s)"
  proof (subst parseline.simps(2), rule parsed_at_bind)
    fix c r assume a: "suffix r line" "(\<forall>t \<in> set_cmd c. tok_in line t) \<and> short c"
    obtain c1 r1 where b: "parsebacks c r = (c1, r1)" by fastforce
    obtain r2 more where p: "peek r1 [c_semi] = (r2, more)" by fastforce
    note c1 = parsebacks_at [OF a b]
    note r2 = peek_at [OF conjunct1 [OF c1] p]
    show "parsed_at line (let (c', r1) = parsebacks c r; (r2, more) = peek r1 [c_semi] in
        if more then pbind (parseline n (skip_token r2)) (\<lambda>d. Parsed (LIST c' d)) else Parsed c' r2)"
      using b p r2 c1 Suc.IH [OF skip_token_at [OF r2]] by (auto intro!: parsed_at_bind)
  qed (use Suc in blast)
  have pipe: "parsed_at line (parsepipe (Suc n) s)"
  proof (subst parsepipe.simps(2), rule parsed_at_bind)
    fix c r assume a: "suffix r line" "(\<forall>t \<in> set_cmd c. tok_in line t) \<and> short c"
    obtain r1 more where p: "peek r [c_bar] = (r1, more)" by fastforce
    note r1 = peek_at [OF a(1) p]
    show "parsed_at line (let (r1, more) = peek r [c_bar] in
        if more then pbind (parsepipe n (skip_token r1)) (\<lambda>d. Parsed (PIPE c d)) else Parsed c r1)"
      using p r1 a(2) Suc.IH [OF skip_token_at [OF r1]] by (auto intro!: parsed_at_bind)
  qed (use Suc in blast)
  have block: "parsed_at line (parseblock (Suc n) s)"
  proof -
    obtain r yes where p: "peek s [c_open] = (r, yes)" by fastforce
    have "parsed_at line (let (r2, closed) = peek r1 [c_close] in if \<not> closed then Quit ''syntax - missing )''
        else pbind (parseredirs [] (skip_token r2)) (\<lambda>rs. Parsed (wrap rs c)))"
      if a: "suffix r1 line" "(\<forall>t \<in> set_cmd c. tok_in line t) \<and> short c" for c r1
    proof -
      obtain r2 closed where p: "peek r1 [c_close] = (r2, closed)" by fastforce
      show ?thesis
      proof (cases "parseredirs [] (skip_token r2)")
        case (Parsed rs r3)
        have k: "suffix r3 line \<and> redirs_at line rs"
          using parseredirs_at [OF skip_token_at [OF peek_at [OF a(1) p]] _ Parsed] by simp
        show ?thesis using p Parsed k wrap_at [OF conjunct2 [OF k] a(2)] by simp
      qed (use p in simp_all)
    qed
    then show ?thesis using p Suc.IH [OF skip_token_at [OF peek_at [OF Suc(2) p]]] by (auto intro!: parsed_at_bind)
  qed
  have exec: "parsed_at line (parseexec (Suc n) s)"
  proof -
    obtain r block where p: "peek s [c_open] = (r, block)" by fastforce
    note r = peek_at [OF Suc(2) p]
    have "parsed_at line (pbind (parseargs [] rs r1) (\<lambda>(args, rs'). Parsed (wrap rs' (EXEC args))))"
      if a: "parseredirs [] r = Parsed rs r1" for rs r1
    proof (cases "parseargs [] rs r1")
      case (Parsed x r2)
      obtain args rs' where x: "x = (args, rs')" by fastforce
      have "suffix r1 line \<and> redirs_at line rs" using parseredirs_at [OF r _ a] by simp
      then have k: "suffix r2 line \<and> redirs_at line rs' \<and> (\<forall>t \<in> set args. tok_in line t) \<and> length args < MAXARGS"
        using parseargs_at [of r1 line rs "[]" args rs' r2] Parsed x by (simp add: MAXARGS_def)
      have "(\<forall>t \<in> set_cmd (wrap rs' (EXEC args)). tok_in line t) \<and> short (wrap rs' (EXEC args))"
        by (rule wrap_at) (use k in simp_all)
      then show ?thesis unfolding Parsed x using k by simp
    qed simp_all
    then show ?thesis using p Suc.IH [OF r] by (cases "parseredirs [] r") simp_all
  qed
  show ?case using line pipe block exec by blast
qed simp

lemma parsepipe_length: "parsepipe n s = Parsed c r \<Longrightarrow> length r \<le> length s"
  and parseexec_length: "parseexec n s = Parsed c r \<Longrightarrow> length r \<le> length s"
  using parse_at [of s s n] suffix_length_le by (auto simp: parsed_at_def)

lemma parsebacks_length: "parsebacks c s = (c', r) \<Longrightarrow> length r \<le> length s"
proof (induction c s rule: parsebacks.induct)
  case (1 c s)
  obtain r0 more where p: "peek s [c_amp] = (r0, more)" by fastforce
  obtain tok q eq r1 where g: "gettoken r0 = (tok, q, eq, r1)" by (cases "gettoken r0")
  show ?case
  proof (cases more)
    case True
    then have "length r \<le> length r1" using 1 p g by (simp add: parsebacks.simps [of c s])
    then show ?thesis using peek_length(2) [OF p True g] by simp
  next
    case False
    then show ?thesis using 1(2) p peek_length(1) [OF p] by (simp add: parsebacks.simps [of c s])
  qed
qed

lemma parse_enough:
  "(4 * length s + 4 \<le> n \<longrightarrow> parseline n s \<noteq> NoFuel) \<and> (4 * length s + 3 \<le> n \<longrightarrow> parsepipe n s \<noteq> NoFuel) \<and>
   (4 * length s + 1 \<le> n \<longrightarrow> parseblock n s \<noteq> NoFuel) \<and> (4 * length s + 2 \<le> n \<longrightarrow> parseexec n s \<noteq> NoFuel)"
proof (induction n arbitrary: s)
  case (Suc n)
  have line: "parseline (Suc n) s \<noteq> NoFuel" if n: "4 * length s + 4 \<le> Suc n"
  proof
    assume "parseline (Suc n) s = NoFuel"
    then consider "parsepipe n s = NoFuel" | c0 r0 c1 r1 r2 where "parsepipe n s = Parsed c0 r0" "parsebacks c0 r0 = (c1, r1)"
      "peek r1 [c_semi] = (r2, True)" "parseline n (skip_token r2) = NoFuel"
      by (auto simp: pbind_NoFuel Let_def case_prod_eq split: if_splits)
    then show False
    proof cases
      case 1 then show False using Suc.IH [of s] n by simp
    next
      case 2
      have "length (skip_token r2) < length s"
        using skip_token_length [OF 2(3)] parsebacks_length [OF 2(2)] parsepipe_length [OF 2(1)] by simp
      then show False using Suc.IH [of "skip_token r2"] 2(4) n by simp
    qed
  qed
  have pipe: "parsepipe (Suc n) s \<noteq> NoFuel" if n: "4 * length s + 3 \<le> Suc n"
  proof
    assume "parsepipe (Suc n) s = NoFuel"
    then consider "parseexec n s = NoFuel" | c0 r0 r1 where "parseexec n s = Parsed c0 r0"
      "peek r0 [c_bar] = (r1, True)" "parsepipe n (skip_token r1) = NoFuel"
      by (auto simp: pbind_NoFuel Let_def case_prod_eq split: if_splits)
    then show False
    proof cases
      case 1 then show False using Suc.IH [of s] n by simp
    next
      case 2
      have "length (skip_token r1) < length s" using skip_token_length [OF 2(2)] parseexec_length [OF 2(1)] by simp
      then show False using Suc.IH [of "skip_token r1"] 2(3) n by simp
    qed
  qed
  have block: "parseblock (Suc n) s \<noteq> NoFuel" if n: "4 * length s + 1 \<le> Suc n"
  proof
    assume "parseblock (Suc n) s = NoFuel"
    then obtain r where a: "peek s [c_open] = (r, True)" "parseline n (skip_token r) = NoFuel"
      using parseredirs_total by (auto simp: pbind_NoFuel Let_def case_prod_eq split: if_splits)
    then show False using skip_token_length [OF a(1)] Suc.IH [of "skip_token r"] n by simp
  qed
  have exec: "parseexec (Suc n) s \<noteq> NoFuel" if n: "4 * length s + 2 \<le> Suc n"
  proof
    assume "parseexec (Suc n) s = NoFuel"
    then obtain r where a: "peek s [c_open] = (r, True)" "parseblock n r = NoFuel"
      using parseredirs_total parseargs_total by (auto simp: pbind_NoFuel Let_def case_prod_eq split: if_splits)
    then show False using peek_length(1) [OF a(1)] Suc.IH [of r] n by simp
  qed
  show ?case using line pipe block exec by blast
qed simp

lemma parsecmd_total: "parsecmd s \<noteq> NoFuel"
  using parse_enough [of s "parse_fuel s"] by (auto simp: parsecmd_def parse_fuel_def pbind_NoFuel Let_def case_prod_eq split: if_splits)

section \<open>The words of a parsed line\<close>

fun word_of :: "token \<Rightarrow> u8 list" where
  "word_of (q, eq) = take (length q - length eq) q"

definition string_at :: "u8 list \<Rightarrow> nat \<Rightarrow> u8 list" where
  "string_at b i = takeWhile (\<lambda>c. c \<noteq> 0) (drop i b)"

definition ends :: "nat \<Rightarrow> token set \<Rightarrow> nat set" where
  "ends n ts = (\<lambda>(q, eq). n - length eq) ` ts"

lemma ends_simps [simp]:
  "ends n {} = {}" "ends n (insert (q, eq) ts) = insert (n - length eq) (ends n ts)" "ends n (ts \<union> us) = ends n ts \<union> ends n us"
  by (auto simp: ends_def)

lemma fold_ends_nth:
  "length (fold (\<lambda>(q, eq) b. b[n - length eq := 0]) ts b) = length b"
  "i < length b \<Longrightarrow> fold (\<lambda>(q, eq) b. b[n - length eq := 0]) ts b ! i = (if i \<in> ends n (set ts) then 0 else b ! i)"
  proof (induction ts arbitrary: b)
  case (Cons t ts)
  obtain q eq where t: "t = (q, eq)" by fastforce
  case 1 show ?case using Cons(1) t by simp
  case 2 then show ?case using Cons(2) t by (cases "n - length eq = i") auto
qed simp_all

lemma nulterminate_nth:
  "length (nulterminate n c b) = length b"
  "i < length b \<Longrightarrow> nulterminate n c b ! i = (if i \<in> ends n (set_cmd c) then 0 else b ! i)"
proof (induction c arbitrary: b)
  case (EXEC args)
  case 1 show ?case by (simp add: fold_ends_nth)
  case 2 then show ?case by (simp add: fold_ends_nth)
next
  case (REDIR c f mode fd)
  obtain q eq where f: "f = (q, eq)" by fastforce
  case 1 show ?case using REDIR(1) f by simp
  case 2 then show ?case using REDIR f by (cases "n - length eq = i") auto
qed auto

lemma tok_inE:
  assumes "tok_in line (q, eq)"
  obtains p w where "line = p @ w @ eq" "q = w @ eq" "set w \<inter> delims = {}" "eq = [] \<or> hd eq \<in> delims"
  using assms by (auto simp: tok_in.simps suffix_def)

lemma end_delim:
  assumes "\<forall>t \<in> ts. tok_in line t" "i \<in> ends (length line) ts" "i < length line"
  shows "line ! i \<in> delims"
proof -
  obtain q eq where t: "tok_in line (q, eq)" "i = length line - length eq" using assms(1,2) by (auto simp: ends_def)
  obtain p w where l: "line = p @ w @ eq" "eq = [] \<or> hd eq \<in> delims" using tok_inE [OF t(1)] by metis
  have "eq \<noteq> []" "i = length (p @ w)" using t(2) assms(3) l(1) by auto
  then show ?thesis using l(2) nth_append_length [of "p @ w" "hd eq" "tl eq"] l(1) by simp
qed

lemma nulterminate_string:
  assumes t: "\<forall>t \<in> set_cmd c. tok_in line t" "(q, eq) \<in> set_cmd c" and z: "0 \<notin> set line"
  shows "string_at (nulterminate (length line) c (line @ [0])) (length line - length q) = word_of (q, eq)"
proof -
  define b where "b = nulterminate (length line) c (line @ [0])"
  obtain p w where l: "line = p @ w @ eq" "q = w @ eq" "set w \<inter> delims = {}" using tok_inE t by metis
  have len: "length b = length line + 1" by (simp add: b_def nulterminate_nth)
  have e: "b ! (length p + length w) = 0"
  proof -
    have "length p + length w \<in> ends (length line) (set_cmd c)" using t(2) l(1) by (force simp: ends_def)
    then show ?thesis using nulterminate_nth(2) [of "length p + length w" "line @ [0]" "length line" c] l(1) by (simp add: b_def)
  qed
  have k: "b ! (length p + j) = w ! j" if j: "j < length w" for j
  proof -
    have i: "length p + j < length line" "line ! (length p + j) = w ! j" using j l(1) by (simp_all add: nth_append)
    have "w ! j \<notin> delims" using l(3) j by (meson disjoint_iff nth_mem)
    then have "length p + j \<notin> ends (length line) (set_cmd c)" using end_delim [OF t(1) _ i(1)] i(2) by auto
    then show ?thesis using nulterminate_nth(2) [of "length p + j" "line @ [0]" "length line" c] i by (simp add: b_def nth_append)
  qed
  have d: "drop (length p) b = w @ 0 # drop (length p + length w + 1) b"
  proof (rule nth_equalityI)
    show "length (drop (length p) b) = length (w @ 0 # drop (length p + length w + 1) b)" using len l(1) by simp
    show "drop (length p) b ! i = (w @ 0 # drop (length p + length w + 1) b) ! i" if "i < length (drop (length p) b)" for i
    proof -
      consider "i < length w" | "i = length w" | j where "i = length w + 1 + j" by (metis add.assoc less_iff_Suc_add linorder_neqE_nat plus_1_eq_Suc add.commute)
      then show ?thesis
      proof cases
        case 1 then show ?thesis using k len l(1) by (simp add: nth_append)
      next
        case 2 then show ?thesis using e len l(1) by (simp add: nth_append)
      next
        case 3 then show ?thesis using len l(1) that by (simp add: nth_append add.assoc)
      qed
    qed
  qed
  have "0 \<notin> set w" using z l(1) by simp
  then have "takeWhile (\<lambda>c. c \<noteq> 0) (w @ 0 # drop (length p + length w + 1) b) = w" by (subst takeWhile_append2) auto
  moreover have "length line - length q = length p" "word_of (q, eq) = w" using l by simp_all
  ultimately show ?thesis unfolding b_def [symmetric] string_at_def using d by simp
qed

lemma parsed_strings:
  assumes "0 \<notin> set line" "parsecmd line = Parsed (c, b) r"
  shows "r = []" "length b = length line + 1" "short c"
    "(q, eq) \<in> set_cmd c \<Longrightarrow> suffix q line \<and> suffix eq q \<and> set (word_of (q, eq)) \<inter> delims = {} \<and>
       string_at b (length line - length q) = word_of (q, eq)"
proof -
  obtain r0 where p: "parseline (parse_fuel line) line = Parsed c r0" "r = []" "b = nulterminate (length line) c (line @ [0])"
    using assms(2) by (auto simp: parsecmd_def pbind_Parsed Let_def case_prod_eq split: if_splits)
  have a: "\<forall>t \<in> set_cmd c. tok_in line t" "short c" using parse_at [of line line "parse_fuel line"] p(1) by simp_all
  show "r = []" "short c" using p(2) a(2) by simp_all
  show "length b = length line + 1" using p(3) by (simp add: nulterminate_nth)
  assume t: "(q, eq) \<in> set_cmd c"
  obtain u w where l: "line = u @ w @ eq" "q = w @ eq" "set w \<inter> delims = {}" using tok_inE a(1) t by metis
  then show "suffix q line \<and> suffix eq q \<and> set (word_of (q, eq)) \<inter> delims = {} \<and>
      string_at b (length line - length q) = word_of (q, eq)"
    using nulterminate_string [OF a(1) t assms(1)] p(3) by (simp add: suffix_def)
qed

text \<open>
  C17. The parser of the shell returns on every line and stays inside it.  If it accepts a line,
  every command has fewer than \<^verbatim>\<open>MAXARGS\<close> arguments and redirects only descriptors 0 and 1, and
  after \<^verbatim>\<open>nulterminate\<close> the string at each argument and file name is exactly the word that stands
  there in the line.
\<close>

theorem parse_safe:
  assumes "0 \<notin> set line"
  shows "parsecmd line \<noteq> NoFuel \<and>
    (\<forall>c b r. parsecmd line = Parsed (c, b) r \<longrightarrow> r = [] \<and> length b = length line + 1 \<and> short c \<and>
      (\<forall>q eq. (q, eq) \<in> set_cmd c \<longrightarrow> suffix q line \<and> suffix eq q \<and> set (word_of (q, eq)) \<inter> delims = {} \<and>
         string_at b (length line - length q) = word_of (q, eq)))"
  using parsecmd_total parsed_strings [OF assms] by meson

theorem parse_safe_witness:
  "parsecmd [0x61, 0x3E, 0x62] = Parsed (REDIR (EXEC [([0x61, 0x3E, 0x62], [0x3E, 0x62])]) ([0x62], []) (O_WRONLY OR O_CREATE) 1, [0x61, 0, 0x62, 0]) [] \<and>
   string_at [0x61, 0, 0x62, 0] 0 = word_of ([0x61, 0x3E, 0x62], [0x3E, 0x62])"
proof -
  have p: "parsecmd [0x61, 0x3E, 0x62] = Parsed (REDIR (EXEC [([0x61, 0x3E, 0x62], [0x3E, 0x62])]) ([0x62], []) (O_WRONLY OR O_CREATE) 1, [0x61, 0, 0x62, 0]) []"
    by code_simp
  have "0 \<notin> set ([0x61, 0x3E, 0x62] :: u8 list)" by simp
  from parse_safe [OF this] p show ?thesis by fastforce
qed

end
