(* ===== verification/Shell.thy ===== *)
theory Shell
  imports Shell_Parse
begin

text \<open>
  The shell beyond its parser (\<^verbatim>\<open>sh.c\<close>): a printer whose lines the parser reads back, and \<^verbatim>\<open>runcmd\<close>
  and the loop of \<^verbatim>\<open>main\<close>.

  A process is what it does until it ends, a tree of type \<open>run\<close>: it forks a child and goes on, waits with
  its descriptors as they are then, runs a program with its descriptors, or ends.  Descriptors are
  allocated by \<^const>\<open>fd_slot\<close>, the scan of the kernel's \<^verbatim>\<open>fdalloc\<close>.  A pipe is named by the place in the
  command that makes it.  Whether \<^verbatim>\<open>open\<close> and \<^verbatim>\<open>fork\<close> succeed is left to the environment.
\<close>

section \<open>Printing commands\<close>

definition sp :: u8 where "sp = 0x20"

fun show_redir :: "u8 list redir \<Rightarrow> u8 list" where
  "show_redir (f, mode, fd) = [sp, if fd = 0 then c_lt else c_gt, sp] @ f"

fun sh_exec :: "u8 list cmd \<Rightarrow> u8 list"
  and sh_pipe :: "u8 list cmd \<Rightarrow> u8 list"
  and sh_back :: "u8 list cmd \<Rightarrow> u8 list"
  and sh_line :: "u8 list cmd \<Rightarrow> u8 list" where
  "sh_exec (EXEC ws) = concat (map (\<lambda>w. sp # w) ws)"
| "sh_exec (REDIR c f mode fd) = sh_exec c @ show_redir (f, mode, fd)"
| "sh_exec (PIPE c d) = [sp, c_open] @ (sh_exec c @ [sp, c_bar] @ sh_pipe d) @ [sp, c_close]"
| "sh_exec (LIST c d) = [sp, c_open] @ (sh_back c @ [sp, c_semi] @ sh_line d) @ [sp, c_close]"
| "sh_exec (BACK c) = [sp, c_open] @ (sh_back c @ [sp, c_amp]) @ [sp, c_close]"
| "sh_pipe (PIPE c d) = sh_exec c @ [sp, c_bar] @ sh_pipe d"
| "sh_pipe c = sh_exec c"
| "sh_back (BACK c) = sh_back c @ [sp, c_amp]"
| "sh_back c = sh_pipe c"
| "sh_line (LIST c d) = sh_back c @ [sp, c_semi] @ sh_line d"
| "sh_line c = sh_back c"

definition word_ok :: "u8 list \<Rightarrow> bool" where
  "word_ok w \<longleftrightarrow> w \<noteq> [] \<and> set w \<inter> delims = {} \<and> 0 \<notin> set w"

fun redir_ok :: "u8 list redir \<Rightarrow> bool" where
  "redir_ok (f, mode, fd) \<longleftrightarrow> word_ok f \<and> (mode = O_RDONLY \<and> fd = 0 \<or> mode = O_WRONLY OR O_CREATE \<and> fd = 1)"

fun cmd_ok :: "u8 list cmd \<Rightarrow> bool" where
  "cmd_ok (EXEC ws) \<longleftrightarrow> length ws < MAXARGS \<and> (\<forall>w \<in> set ws. word_ok w)"
| "cmd_ok (REDIR c f mode fd) \<longleftrightarrow> cmd_ok c \<and> redir_ok (f, mode, fd)"
| "cmd_ok (PIPE c d) \<longleftrightarrow> cmd_ok c \<and> cmd_ok d"
| "cmd_ok (LIST c d) \<longleftrightarrow> cmd_ok c \<and> cmd_ok d"
| "cmd_ok (BACK c) \<longleftrightarrow> cmd_ok c"

section \<open>Tokens of printed commands\<close>

definition follow :: "u8 set \<Rightarrow> ptr \<Rightarrow> bool" where
  "follow F k \<longleftrightarrow> k = [] \<or> (\<exists>c k'. k = sp # c # k' \<and> c \<in> F)"

definition stops :: "u8 set" where
  "stops = {c_bar, c_close, c_amp, c_semi}"

lemma space_facts: "sp \<in> set whitespace" "sp \<in> delims" "c \<in> singles \<Longrightarrow> c \<notin> set whitespace \<and> c \<noteq> 0"
    "c_gt \<notin> set whitespace \<and> c_gt \<noteq> 0" "stops \<subseteq> singles" "c_open \<in> singles" "c_open \<notin> stops" "c_lt \<notin> stops" "c_gt \<notin> stops" "c_lt \<in> singles"
  by (auto simp: sp_def whitespace_def delims_def singles_def stops_def const_defs)

declare space_facts(1) [simp]

lemma skip_symbol: "c \<notin> set whitespace \<Longrightarrow> skip_ws (c # s) = c # s"
  by simp

lemma peek_skip [simp]: "peek (skip_ws s) ts = peek s ts"
  by (simp add: peek_def skip_ws_idem)

lemma peek_symbol: "c \<notin> set whitespace \<Longrightarrow> c \<noteq> 0 \<Longrightarrow> peek (c # k) ts = (c # k, c \<in> set ts)"
  by (simp add: peek_def)

lemma peek_space: "peek (sp # k) ts = peek k ts"
  by (simp add: peek_def)

lemma gettoken_skip: "gettoken (skip_ws s) = gettoken s"
  by (simp add: gettoken_def skip_ws_idem)

lemma follow_peek: "follow F k \<Longrightarrow> F \<subseteq> singles \<Longrightarrow> F \<inter> set ts = {} \<Longrightarrow> peek k ts = (skip_ws k, False)"
  unfolding follow_def using space_facts(3) by (elim disjE exE conjE) (auto simp: peek_def subset_iff disjoint_iff)

lemma follow_hd: "follow F k \<Longrightarrow> k = [] \<or> hd k = sp"
  by (auto simp: follow_def)

lemma word_head:
  assumes "word_ok w"
  obtains c v where "w = c # v" "c \<notin> set whitespace" "c \<notin> set symbols" "c \<noteq> 0" "set v \<inter> delims = {}"
  using assms by (cases w) (auto simp: word_ok_def delims_def)

lemma peek_word: "word_ok w \<Longrightarrow> set ts \<subseteq> set symbols \<Longrightarrow> peek (w @ k) ts = (w @ k, False)"
  by (erule word_head) (auto simp: peek_def)

lemma word_end_word: "set v \<inter> delims = {} \<Longrightarrow> k = [] \<or> hd k = sp \<Longrightarrow> word_end (v @ k) = k"
proof (induction v)
  case Nil
  then show ?case using space_facts(2) by (cases k) (auto simp: delims_def)
qed (auto simp: delims_def)

lemma gettoken_word:
  assumes w: "word_ok w" and k: "k = [] \<or> hd k = sp"
  shows "gettoken (w @ k) = (c_word, w @ k, k, skip_ws k)"
proof -
  obtain c v where c: "w = c # v" "c \<notin> set whitespace" "c \<notin> set symbols" "c \<noteq> 0" "set v \<inter> delims = {}" using word_head [OF w] .
  then show ?thesis using gettoken_cases(6) [of "w @ k" c "v @ k"] word_end_word [OF c(5) k] by simp
qed

lemma skip_token_symbol: "c \<in> singles \<Longrightarrow> skip_token (c # k) = skip_ws k"
  using gettoken_cases(3) [of "c # k" c k] space_facts(3) [of c] by (simp add: skip_token_def)

lemma parseredirs_skip [simp]: "parseredirs rs (skip_ws s) = parseredirs rs s"
  by (subst (1 2) parseredirs.simps) simp

lemma parseargs_skip [simp]: "parseargs args rs (skip_ws s) = parseargs args rs s"
  by (subst (1 2) parseargs.simps) simp

lemma parsebacks_skip [simp]: "parsebacks c (skip_ws s) = parsebacks c s"
  by (subst (1 2) parsebacks.simps) simp

lemma parse_skip [simp]:
  "parseexec n (skip_ws s) = parseexec n s" "parsepipe n (skip_ws s) = parsepipe n s" "parseline n (skip_ws s) = parseline n s"
proof -
  show e: "parseexec n (skip_ws s) = parseexec n s" for n by (cases n) simp_all
  show p: "parsepipe n (skip_ws s) = parsepipe n s" for n by (cases n) (simp_all add: e)
  show "parseline n (skip_ws s) = parseline n s" by (cases n) (simp_all add: p)
qed

section \<open>Parsing what was printed\<close>

definition words_redir :: "token redir \<Rightarrow> u8 list redir" where
  "words_redir r = (case r of (f, mode, fd) \<Rightarrow> (word_of f, mode, fd))"

lemma word_of_app [simp]: "word_of (w @ k, k) = w"
  by simp

lemma skip_word: "word_ok w \<Longrightarrow> skip_ws (w @ k) = w @ k"
  by (erule word_head) simp

lemma redirs_head:
  assumes "follow stops k \<or> (\<exists>w k'. k = sp # w @ k' \<and> word_ok w)"
  shows "concat (map show_redir rs) @ k = [] \<or> hd (concat (map show_redir rs) @ k) = sp"
  using assms follow_hd by (cases rs) (auto split: prod.splits)

lemma parseredirs_none:
  assumes "follow stops k \<or> (\<exists>w k'. k = sp # w @ k' \<and> word_ok w)"
  shows "parseredirs us k = Parsed us (skip_ws k)"
proof -
  have "peek k [c_lt, c_gt] = (skip_ws k, False)"
  proof (cases "follow stops k")
    case True
    then show ?thesis using follow_peek [OF True space_facts(5)] space_facts(8,9) by auto
  next
    case False
    then obtain w k' where w: "k = sp # w @ k'" "word_ok w" using assms by blast
    then show ?thesis using peek_word [OF w(2), of "[c_lt, c_gt]" k'] symbols_split(1) space_facts(10)
      by (simp add: peek_space skip_word)
  qed
  then show ?thesis by (subst parseredirs.simps) simp
qed

lemma parseredirs_shown:
  assumes "follow stops k \<or> (\<exists>w k'. k = sp # w @ k' \<and> word_ok w)"
  shows "\<forall>r \<in> set rs. redir_ok r \<Longrightarrow>
    \<exists>ts. parseredirs us (concat (map show_redir rs) @ k) = Parsed ts (skip_ws k) \<and> map words_redir ts = map words_redir us @ rs"
proof (induction rs arbitrary: us)
  case Nil
  then show ?case using parseredirs_none [OF assms] by simp
next
  case (Cons r rs)
  obtain f mode fd where r: "r = (f, mode, fd)" by (cases r)
  define c where "c = (if fd = 0 then c_lt else c_gt)"
  define k1 where "k1 = concat (map show_redir rs) @ k"
  have f: "word_ok f" using Cons(2) r by simp
  have c: "c \<notin> set whitespace" "c \<noteq> 0" "c = c_lt \<or> c = c_gt" using space_facts(3) [OF space_facts(10)] space_facts(4) by (auto simp: c_def)
  have p: "peek (sp # c # sp # f @ k1) [c_lt, c_gt] = (c # sp # f @ k1, True)" using c by (simp add: peek_space peek_symbol)
  have n: "sp \<noteq> c_gt" by (simp add: sp_def const_defs)
  have "fst (gettoken (c # sp # f @ k1)) = c \<and> snd (snd (snd (gettoken (c # sp # f @ k1)))) = skip_ws (f @ k1)"
    using c gettoken_cases(3) [of "c # sp # f @ k1" c "sp # f @ k1"] gettoken_cases(5) [of "c # sp # f @ k1" "sp # f @ k1"] space_facts(10) n
    by auto
  then obtain a b where g: "gettoken (c # sp # f @ k1) = (c, a, b, skip_ws (f @ k1))" by (metis prod.collapse)
  have g2: "gettoken (skip_ws (f @ k1)) = (c_word, f @ k1, k1, skip_ws k1)"
    using gettoken_word [OF f redirs_head [OF assms]] by (simp add: gettoken_skip k1_def)
  have "parseredirs us (sp # c # sp # f @ k1) = parseredirs (us @ [redir_of c (f @ k1, k1)]) k1"
    using p g g2 by (subst parseredirs.simps) (simp add: parseredirs_skip)
  moreover have "concat (map show_redir (r # rs)) @ k = sp # c # sp # f @ k1" using r by (simp add: c_def k1_def)
  moreover have "words_redir (redir_of c (f @ k1, k1)) = r"
    using Cons(2) r by (auto simp: words_redir_def redir_of_def c_def const_defs)
  ultimately show ?case using Cons(1) [of "us @ [redir_of c (f @ k1, k1)]"] Cons(2) by (auto simp: k1_def)
qed

lemma parseargs_stop:
  assumes k: "follow stops k"
  shows "parseargs args us k = Parsed (args, us) (skip_ws k)"
proof (cases "k = []")
  case True
  then show ?thesis by (subst parseargs.simps) (simp add: peek_def gettoken_cases)
next
  case False
  then obtain c k' where c: "k = sp # c # k'" "c \<in> stops" using k by (auto simp: follow_def)
  then have "c \<notin> set whitespace" "c \<noteq> 0" using space_facts(3,5) by auto
  then show ?thesis using c by (subst parseargs.simps) (simp add: peek_space peek_symbol stops_def)
qed

lemma parseargs_shown:
  assumes k: "follow stops k" and rs: "\<forall>r \<in> set rs. redir_ok r"
  shows "\<forall>w \<in> set ws. word_ok w \<Longrightarrow> ws \<noteq> [] \<Longrightarrow> length args + length ws < MAXARGS \<Longrightarrow>
    \<exists>as ts. parseargs args us (concat (map (\<lambda>w. sp # w) ws) @ concat (map show_redir rs) @ k) = Parsed (as, ts) (skip_ws k) \<and>
      map word_of as = map word_of args @ ws \<and> map words_redir ts = map words_redir us @ rs"
proof (induction ws arbitrary: args us)
  case (Cons w ws)
  define s where "s = concat (map (\<lambda>w. sp # w) ws) @ concat (map show_redir rs) @ k"
  have w: "word_ok w" using Cons(2) by simp
  have hd: "s = [] \<or> hd s = sp" using redirs_head [of k rs] k by (cases ws) (auto simp: s_def)
  have p: "peek (sp # w @ s) [c_bar, c_close, c_amp, c_semi] = (w @ s, False)"
    using peek_word [OF w, of "[c_bar, c_close, c_amp, c_semi]" s] by (simp add: peek_space symbols_split(1) singles_def)
  have step: "parseargs args us (sp # w @ s) =
      (case parseredirs us s of Parsed rs' r2 \<Rightarrow> parseargs (args @ [(w @ s, s)]) rs' r2 | Quit e \<Rightarrow> Quit e | NoFuel \<Rightarrow> NoFuel)"
    using p gettoken_word [OF w hd] Cons(4) symbols_split(5) by (subst parseargs.simps) simp
  show ?case
  proof (cases "ws = []")
    case True
    obtain ts where "parseredirs us s = Parsed ts (skip_ws k)" "map words_redir ts = map words_redir us @ rs"
      using parseredirs_shown [of k rs us] k rs True by (auto simp: s_def)
    then show ?thesis using step True parseargs_stop [OF k] by (simp add: s_def)
  next
    case False
    then have n: "\<exists>v k'. s = sp # v @ k' \<and> word_ok v" using Cons(2) by (cases ws) (auto simp: s_def)
    then have "parseredirs us s = Parsed us (skip_ws s)" using parseredirs_none by blast
    then show ?thesis using step Cons(1) [of "args @ [(w @ s, s)]" us] Cons(2,4) False by (simp add: s_def)
  qed
qed simp

section \<open>Trees of printed commands\<close>

lemma strip_redirs: "\<exists>rs c. a = wrap rs c \<and> (\<forall>d f mode fd. c \<noteq> REDIR d f mode fd)"
proof (induction a)
  case (REDIR c f mode fd)
  then obtain rs d where "c = wrap rs d" "\<forall>e f mode fd. d \<noteq> REDIR e f mode fd" by blast
  then show ?case by (intro exI [of _ "rs @ [(f, mode, fd)]"] exI [of _ d]) simp
qed (fastforce intro: exI [of _ "[]"])+

lemma wrap_shown: "sh_exec (wrap rs c) = sh_exec c @ concat (map show_redir rs)"
  "cmd_ok (wrap rs c) \<longleftrightarrow> cmd_ok c \<and> (\<forall>r \<in> set rs. redir_ok r)"
proof (induction rs arbitrary: c)
  case (Cons r rs)
  case 1 show ?case using Cons(1) by (cases r) (simp del: redir_ok.simps)
  case 2 show ?case using Cons(2) by (cases r) (simp add: conj_assoc del: redir_ok.simps)
qed simp_all

lemma wrap_words: "map_cmd word_of (wrap ts c) = wrap (map words_redir ts) (map_cmd word_of c)"
  by (induction ts arbitrary: c) (auto simp: words_redir_def)

lemma strip_backs: "\<exists>n c. a = (BACK ^^ n) c \<and> (\<forall>d. c \<noteq> BACK d)"
proof (induction a)
  case (BACK a)
  then obtain n c where "a = (BACK ^^ n) c" "\<forall>d. c \<noteq> BACK d" by blast
  then show ?case by (intro exI [of _ "Suc n"] exI [of _ c]) simp
qed (fastforce intro: exI [of _ 0])+

lemma backs_shown: "(\<forall>d. c \<noteq> BACK d) \<Longrightarrow> sh_back ((BACK ^^ n) c) = sh_pipe c @ concat (replicate n [sp, c_amp])"
  "cmd_ok ((BACK ^^ n) c) \<longleftrightarrow> cmd_ok c" "map_cmd f ((BACK ^^ n) d) = (BACK ^^ n) (map_cmd f d)"
proof -
  show "(\<forall>d. c \<noteq> BACK d) \<Longrightarrow> sh_back ((BACK ^^ n) c) = sh_pipe c @ concat (replicate n [sp, c_amp])"
  proof (induction n)
    case 0
    then show ?case by (cases c) auto
  next
    case (Suc n)
    then show ?case by (simp flip: replicate_append_same)
  qed
qed (induction n; simp)+

lemma parsebacks_shown:
  assumes k: "peek k [c_amp] = (skip_ws k, False)"
  shows "parsebacks c (concat (replicate n [sp, c_amp]) @ k) = ((BACK ^^ n) c, skip_ws k)"
proof (induction n arbitrary: c)
  case 0
  then show ?case using k by (subst parsebacks.simps) simp
next
  case (Suc n)
  have a: "c_amp \<in> singles" "c_amp \<notin> set whitespace" "c_amp \<noteq> 0" using space_facts(3) [of c_amp] by (auto simp: singles_def)
  then have "parsebacks c (concat (replicate (Suc n) [sp, c_amp]) @ k) = parsebacks (BACK c) (concat (replicate n [sp, c_amp]) @ k)"
    using gettoken_cases(3) [of "c_amp # concat (replicate n [sp, c_amp]) @ k" c_amp "concat (replicate n [sp, c_amp]) @ k"]
    by (subst parsebacks.simps) (simp add: peek_space peek_symbol)
  then show ?case using Suc by (simp add: funpow_swap1)
qed

definition reads :: "u8 list cmd \<Rightarrow> ptr \<Rightarrow> pcmd pres \<Rightarrow> bool" where
  "reads a k m \<longleftrightarrow> m = NoFuel \<or> (\<exists>c. m = Parsed c (skip_ws k) \<and> map_cmd word_of c = a)"

lemma reads_bind:
  "reads a k m \<Longrightarrow> (\<And>c. map_cmd word_of c = a \<Longrightarrow> reads a' k' (f c (skip_ws k))) \<Longrightarrow> reads a' k' (pbind m f)"
  unfolding reads_def [of a k m] by (elim disjE exE conjE) (simp_all add: reads_def)

lemma reads_simps [simp]: "reads a k NoFuel" "reads a k (Parsed c (skip_ws k)) \<longleftrightarrow> map_cmd word_of c = a"
  by (auto simp: reads_def)

lemma follow_mono: "follow F k \<Longrightarrow> F \<subseteq> G \<Longrightarrow> follow G k"
  by (auto simp: follow_def)

lemma peek_stop: "c \<in> singles \<Longrightarrow> peek (sp # c # k) ts = (c # k, c \<in> set ts)"
  using space_facts(3) by (simp add: peek_space peek_symbol)

lemma sh_block: "(\<forall>ws. c \<noteq> EXEC ws) \<Longrightarrow> (\<forall>d f mode fd. c \<noteq> REDIR d f mode fd) \<Longrightarrow> sh_exec c = [sp, c_open] @ sh_line c @ [sp, c_close]"
  by (cases c) auto

lemma exec_shown:
  assumes a: "cmd_ok (EXEC ws)" "\<forall>r \<in> set rs. redir_ok r" and k: "follow stops k"
  shows "reads (wrap rs (EXEC ws)) k (parseexec (Suc n) (sh_exec (EXEC ws) @ concat (map show_redir rs) @ k))"
proof -
  define s where "s = sh_exec (EXEC ws) @ concat (map show_redir rs) @ k"
  have o: "peek s [c_open] = (skip_ws s, False)"
  proof (cases ws)
    case (Cons w vs)
    then have w: "word_ok w" using a(1) by simp
    then show ?thesis
      using peek_word [OF w, of "[c_open]"] skip_word [OF w] Cons space_facts(6) by (simp add: s_def peek_space symbols_split(1))
  next
    case Nil
    show ?thesis
    proof (cases rs)
      case Nil
      then show ?thesis using \<open>ws = []\<close> follow_peek [OF k space_facts(5), of "[c_open]"] space_facts(7) by (simp add: s_def)
    next
      case (Cons r vs)
      obtain f mode fd where r: "r = (f, mode, fd)" by (cases r)
      have "c_lt \<noteq> c_open" "c_gt \<noteq> c_open" by (simp_all add: const_defs)
      then show ?thesis using \<open>ws = []\<close> Cons r space_facts(3) [OF space_facts(10)] space_facts(4) by (simp add: s_def peek_space peek_symbol)
    qed
  qed
  have "\<exists>as ts. pbind (parseredirs [] s) (\<lambda>us r. parseargs [] us r) = Parsed (as, ts) (skip_ws k) \<and> map word_of as = ws \<and> map words_redir ts = rs"
  proof (cases ws)
    case Nil
    then obtain ts where "parseredirs [] s = Parsed ts (skip_ws k)" "map words_redir ts = rs"
      using parseredirs_shown [of k rs "[]"] k a(2) by (auto simp: s_def)
    then show ?thesis using Nil parseargs_stop [OF k] by simp
  next
    case (Cons w vs)
    then have "parseredirs [] s = Parsed [] (skip_ws s)" using a(1) by (intro parseredirs_none) (auto simp: s_def)
    moreover have "\<exists>as ts. parseargs [] [] s = Parsed (as, ts) (skip_ws k) \<and> map word_of as = ws \<and> map words_redir ts = rs"
      using parseargs_shown [OF k a(2), of ws "[]" "[]"] a(1) Cons by (simp add: s_def)
    ultimately show ?thesis by simp
  qed
  then obtain us r as ts where "parseredirs [] s = Parsed us r" "parseargs [] us r = Parsed (as, ts) (skip_ws k)" "map word_of as = ws" "map words_redir ts = rs"
    by (auto simp: pbind_Parsed)
  then show ?thesis unfolding s_def [symmetric] using o by (simp add: wrap_words)
qed

lemma block_shown:
  assumes line: "reads c ([sp, c_close] @ concat (map show_redir rs) @ k) (parseline n (sh_line c @ [sp, c_close] @ concat (map show_redir rs) @ k))"
    and rs: "\<forall>r \<in> set rs. redir_ok r" and k: "follow stops k"
  shows "reads (wrap rs c) k (parseblock (Suc n) (c_open # sh_line c @ [sp, c_close] @ concat (map show_redir rs) @ k))"
proof -
  have o: "c_open \<in> singles" "c_close \<in> singles" by (simp_all add: singles_def)
  have "reads (wrap rs c) k (let (r2, closed) = peek r1 [c_close] in if \<not> closed then Quit ''syntax - missing )''
        else pbind (parseredirs [] (skip_token r2)) (\<lambda>rs. Parsed (wrap rs d)))"
    if "map_cmd word_of d = c" "r1 = skip_ws ([sp, c_close] @ concat (map show_redir rs) @ k)" for d r1
  proof -
    obtain ts where t: "parseredirs [] (concat (map show_redir rs) @ k) = Parsed ts (skip_ws k)" "map words_redir ts = rs"
      using parseredirs_shown [of k rs "[]"] k rs by auto
    then show ?thesis using that peek_stop [OF o(2)] skip_token_symbol [OF o(2)] by (simp add: wrap_words del: skip_ws.simps)
  qed
  then have "reads (wrap rs c) k (pbind (parseline n (sh_line c @ [sp, c_close] @ concat (map show_redir rs) @ k))
      (\<lambda>d r1. let (r2, closed) = peek r1 [c_close] in if \<not> closed then Quit ''syntax - missing )''
        else pbind (parseredirs [] (skip_token r2)) (\<lambda>rs. Parsed (wrap rs d))))"
    by (intro reads_bind [OF line]) simp
  then show ?thesis using skip_token_symbol [OF o(1)] space_facts(3) [OF o(1)] by (simp add: peek_symbol)
qed

lemma pipe_shown:
  assumes exec: "\<And>a k. cmd_ok a \<Longrightarrow> follow stops k \<Longrightarrow> reads a k (parseexec n (sh_exec a @ k))"
    and pipe: "\<And>a k. cmd_ok a \<Longrightarrow> follow {c_close, c_amp, c_semi} k \<Longrightarrow> reads a k (parsepipe n (sh_pipe a @ k))"
    and a: "cmd_ok a" and k: "follow {c_close, c_amp, c_semi} k"
  shows "reads a k (parsepipe (Suc n) (sh_pipe a @ k))"
proof -
  have bar: "c_bar \<in> singles" by (simp add: singles_def)
  have fs: "follow stops k" using k by (rule follow_mono) (auto simp: stops_def)
  show ?thesis
  proof (cases "\<exists>c d. a = PIPE c d")
    case True
    then obtain c d where d: "a = PIPE c d" "cmd_ok c" "cmd_ok d" using a by auto
    let ?k = "[sp, c_bar] @ sh_pipe d @ k"
    have c: "reads c ?k (parseexec n (sh_exec c @ ?k))" using exec [OF d(2)] by (simp add: follow_def stops_def)
    have "reads a k (let (r1, more) = peek (skip_ws ?k) [c_bar] in
        if more then pbind (parsepipe n (skip_token r1)) (\<lambda>d. Parsed (PIPE t d)) else Parsed t r1)" if "map_cmd word_of t = c" for t
      using that d(1) peek_stop [OF bar] skip_token_symbol [OF bar] by (simp add: reads_bind [OF pipe [OF d(3) k]] del: skip_ws.simps)
    then show ?thesis using d(1) reads_bind [OF c] by simp
  next
    case False
    then have "sh_pipe a = sh_exec a" by (cases a) auto
    moreover have "peek k [c_bar] = (skip_ws k, False)"
      by (rule follow_peek [OF k]) (auto simp: singles_def const_defs)
    ultimately show ?thesis using reads_bind [OF exec [OF a fs]] by simp
  qed
qed

lemma line_shown:
  assumes pipe: "\<And>a k. cmd_ok a \<Longrightarrow> follow {c_close, c_amp, c_semi} k \<Longrightarrow> reads a k (parsepipe n (sh_pipe a @ k))"
    and line: "\<And>a k. cmd_ok a \<Longrightarrow> follow {c_close} k \<Longrightarrow> reads a k (parseline n (sh_line a @ k))"
    and a: "cmd_ok a" and k: "follow {c_close} k"
  shows "reads a k (parseline (Suc n) (sh_line a @ k))"
proof -
  have semi: "c_semi \<in> singles" by (simp add: singles_def)
  define f where "f c r = (let (c', r1) = parsebacks c r; (r2, more) = peek r1 [c_semi] in
       if more then pbind (parseline n (skip_token r2)) (\<lambda>d r3. Parsed (LIST c' d) r3) else Parsed c' r2)" for c r
  have tail: "reads a k (pbind (parsepipe n (sh_back b @ l)) f)"
    if b: "cmd_ok b" and l: "follow {c_close, c_semi} l"
      and rest: "\<And>c. map_cmd word_of c = b \<Longrightarrow> reads a k (let (r2, more) = peek (skip_ws l) [c_semi] in
        if more then pbind (parseline n (skip_token r2)) (\<lambda>d r3. Parsed (LIST c d) r3) else Parsed c r2)" for b l
  proof -
    obtain m c where c: "b = (BACK ^^ m) c" "\<forall>d. c \<noteq> BACK d" using strip_backs by blast
    let ?k = "concat (replicate m [sp, c_amp]) @ l"
    have "cmd_ok c" using b c(1) by (simp add: backs_shown)
    moreover have "follow {c_close, c_amp, c_semi} ?k" using l by (cases m) (auto simp: follow_def)
    ultimately have p: "reads c ?k (parsepipe n (sh_pipe c @ ?k))" by (rule pipe)
    have e: "peek l [c_amp] = (skip_ws l, False)" by (rule follow_peek [OF l]) (auto simp: singles_def const_defs)
    have "reads a k (f t (skip_ws ?k))" if "map_cmd word_of t = c" for t
      using rest [of "(BACK ^^ m) t"] that parsebacks_shown [OF e] c(1) by (simp add: f_def backs_shown)
    then show ?thesis using reads_bind [OF p] backs_shown(1) [OF c(2)] c(1) by simp
  qed
  show ?thesis
  proof (cases "\<exists>c d. a = LIST c d")
    case True
    then obtain c d where d: "a = LIST c d" "cmd_ok c" "cmd_ok d" using a by auto
    have "reads a k (pbind (parsepipe n (sh_back c @ [sp, c_semi] @ sh_line d @ k)) f)"
      using d(1) peek_stop [OF semi] skip_token_symbol [OF semi]
      by (intro tail [OF d(2)]) (simp_all add: follow_def reads_bind [OF line [OF d(3) k]] del: skip_ws.simps)
    then show ?thesis using d(1) by (simp add: f_def [abs_def])
  next
    case False
    then have s: "sh_line a = sh_back a" by (cases a) auto
    have "peek k [c_semi] = (skip_ws k, False)" by (rule follow_peek [OF k]) (auto simp: singles_def const_defs)
    then have "reads a k (pbind (parsepipe n (sh_back a @ k)) f)" using follow_mono [OF k] by (intro tail [OF a]) simp_all
    then show ?thesis using s by (simp add: f_def [abs_def])
  qed
qed

lemma parse_shown:
  "(\<forall>a k. cmd_ok a \<and> follow {c_close} k \<longrightarrow> reads a k (parseline n (sh_line a @ k))) \<and>
   (\<forall>a k. cmd_ok a \<and> follow {c_close, c_amp, c_semi} k \<longrightarrow> reads a k (parsepipe n (sh_pipe a @ k))) \<and>
   (\<forall>a k. cmd_ok a \<and> follow stops k \<longrightarrow> reads a k (parseexec n (sh_exec a @ k)))"
proof (induction n rule: less_induct)
  case (less n)
  show ?case
  proof (cases n)
    case (Suc m)
    have line: "reads a k (parseline m (sh_line a @ k))" if "cmd_ok a" "follow {c_close} k" for a k
      using less [of m] Suc that by simp
    have pipe: "reads a k (parsepipe m (sh_pipe a @ k))" if "cmd_ok a" "follow {c_close, c_amp, c_semi} k" for a k
      using less [of m] Suc that by simp
    have exec: "reads a k (parseexec m (sh_exec a @ k))" if "cmd_ok a" "follow stops k" for a k
      using less [of m] Suc that by simp
    have "reads a k (parseexec n (sh_exec a @ k))" if a: "cmd_ok a" and k: "follow stops k" for a k
    proof -
      obtain rs c where w: "a = wrap rs c" "\<forall>d f mode fd. c \<noteq> REDIR d f mode fd" using strip_redirs by blast
      then have ok: "cmd_ok c" "\<forall>r \<in> set rs. redir_ok r" using a by (simp_all add: wrap_shown)
      show ?thesis
      proof (cases "\<exists>ws. c = EXEC ws")
        case True
        then show ?thesis using exec_shown [OF _ ok(2) k] ok(1) w(1) Suc by (auto simp: wrap_shown)
      next
        case False
        let ?s = "sh_line c @ [sp, c_close] @ concat (map show_redir rs) @ k"
        have s: "sh_exec a @ k = sp # c_open # ?s" using sh_block [of c] False w by (simp add: wrap_shown)
        have "parseexec n (sh_exec a @ k) = parseblock m (c_open # ?s)" using s Suc peek_stop [OF space_facts(6)] by simp
        moreover have "reads a k (parseblock m (c_open # ?s))"
        proof (cases m)
          case (Suc l)
          have "reads c ([sp, c_close] @ concat (map show_redir rs) @ k) (parseline l ?s)"
            using less [of l] \<open>n = Suc m\<close> Suc ok(1) by (auto simp: follow_def)
          then show ?thesis using block_shown [OF _ ok(2) k] Suc w(1) by simp
        qed simp
        ultimately show ?thesis by simp
      qed
    qed
    moreover have "reads a k (parsepipe n (sh_pipe a @ k))" if a: "cmd_ok a" and k: "follow {c_close, c_amp, c_semi} k" for a k
      using pipe_shown [OF exec pipe a k] Suc by simp
    moreover have "reads a k (parseline n (sh_line a @ k))" if a: "cmd_ok a" and k: "follow {c_close} k" for a k
      using line_shown [OF pipe line a k] Suc by simp
    ultimately show ?thesis by blast
  qed simp
qed

text \<open>
  C16. Printing a command and parsing the line gives the command back: for every tree of commands
  with words free of separators, at most nine arguments to a program and the redirections the
  shell has, the parser accepts the printed line, reads all of it, and the words of the tree it builds
  are those of the command.
\<close>

theorem parse_print_roundtrip:
  assumes "cmd_ok a"
  shows "\<exists>c b. parsecmd (sh_line a) = Parsed (c, b) [] \<and> map_cmd word_of c = a"
proof -
  have "reads a [] (parseline (parse_fuel (sh_line a)) (sh_line a))"
    using parse_shown [of "parse_fuel (sh_line a)"] assms by (force simp: follow_def)
  moreover have "parseline (parse_fuel (sh_line a)) (sh_line a) \<noteq> NoFuel"
    using parse_enough [of "sh_line a"] by (simp add: parse_fuel_def)
  ultimately show ?thesis by (auto simp: reads_def parsecmd_def peek_def)
qed

theorem parse_print_roundtrip_witness:
  "cmd_ok (LIST (BACK (EXEC [[0x61]])) (PIPE (EXEC [[0x62], [0x63]]) (REDIR (EXEC []) [0x64] O_RDONLY 0))) \<and>
   (\<exists>c b. parsecmd (sh_line (LIST (BACK (EXEC [[0x61]])) (PIPE (EXEC [[0x62], [0x63]]) (REDIR (EXEC []) [0x64] O_RDONLY 0)))) = Parsed (c, b) [] \<and>
      map_cmd word_of c = LIST (BACK (EXEC [[0x61]])) (PIPE (EXEC [[0x62], [0x63]]) (REDIR (EXEC []) [0x64] O_RDONLY 0)))"
proof -
  have "cmd_ok (LIST (BACK (EXEC [[0x61]])) (PIPE (EXEC [[0x62], [0x63]]) (REDIR (EXEC []) [0x64] O_RDONLY 0)))"
    by (simp add: word_ok_def delims_def whitespace_def symbols_def MAXARGS_def)
  then show ?thesis using parse_print_roundtrip by blast
qed

section \<open>Running commands\<close>

type_synonym path = "nat list"

datatype 'm fobj = Inherited nat | FileAt "u8 list" 'm | ReadEnd path | WriteEnd path

type_synonym 'm fdtab = "'m fobj option list"

record 'm shenv =
  opens :: "u8 list \<Rightarrow> 'm \<Rightarrow> bool"
  forks :: "path \<Rightarrow> bool"

datatype 'm run =
    Exit
  | Panicked string
  | Run "u8 list list" "'m fdtab"
  | Fork "'m run" "'m run"
  | Wait path "'m fdtab" "'m run"

definition close_fd :: "nat \<Rightarrow> 'm fdtab \<Rightarrow> 'm fdtab" where
  "close_fd fd t = (if fd < length t then t[fd := None] else t)"

definition dup_fd :: "nat \<Rightarrow> 'm fdtab \<Rightarrow> 'm fdtab" where
  "dup_fd fd t = (if fd < length t then case t ! fd of None \<Rightarrow> t | Some x \<Rightarrow> (case fd_slot x t of None \<Rightarrow> t | Some (_, u) \<Rightarrow> u) else t)"

definition open_fd :: "'m shenv \<Rightarrow> u8 list \<Rightarrow> 'm \<Rightarrow> 'm fdtab \<Rightarrow> (nat \<times> 'm fdtab) option" where
  "open_fd env f mode t = (if opens env f mode then fd_slot (FileAt f mode) t else None)"

definition pipe_fds :: "path \<Rightarrow> 'm fdtab \<Rightarrow> (nat \<times> nat \<times> 'm fdtab) option" where
  "pipe_fds p t = Option.bind (fd_slot (ReadEnd p) t) (\<lambda>(a, t1).
     map_option (\<lambda>(b, t2). (a, b, t2)) (fd_slot (WriteEnd p) t1))"

fun runcmd :: "u32 shenv \<Rightarrow> path \<Rightarrow> u32 fdtab \<Rightarrow> u8 list cmd \<Rightarrow> u32 run" where
  "runcmd env p t (EXEC ws) = (if ws = [] then Exit else Run ws t)"
| "runcmd env p t (REDIR c f mode fd) =
     (case open_fd env f mode (close_fd fd t) of None \<Rightarrow> Exit | Some (_, u) \<Rightarrow> runcmd env p u c)"
| "runcmd env p t (LIST c d) =
     (if forks env (0 # p) then Fork (runcmd env (0 # p) t c) (Wait p t (runcmd env (1 # p) t d)) else Panicked ''fork'')"
| "runcmd env p t (PIPE c d) =
     (case pipe_fds p t of
        None \<Rightarrow> Panicked ''pipe''
      | Some (a, b, u) \<Rightarrow>
          if \<not> forks env (0 # p) then Panicked ''fork''
          else Fork (runcmd env (0 # p) (close_fd b (close_fd a (dup_fd b (close_fd 1 u)))) c)
            (if \<not> forks env (1 # p) then Panicked ''fork''
             else Fork (runcmd env (1 # p) (close_fd b (close_fd a (dup_fd a (close_fd 0 u)))) d)
               (let v = close_fd b (close_fd a u) in Wait p v (Wait p v Exit))))"
| "runcmd env p t (BACK c) =
     (if forks env (0 # p) then Fork (runcmd env (0 # p) t c) Exit else Panicked ''fork'')"

text \<open>The descriptors 0 to 2 at the start: \<^verbatim>\<open>main\<close> opens the console until it gets a higher one.\<close>

definition console_name :: "u8 list" where
  "console_name = [0x63, 0x6F, 0x6E, 0x73, 0x6F, 0x6C, 0x65]"

function open_console :: "u32 shenv \<Rightarrow> u32 fdtab \<Rightarrow> u32 fdtab" where
  "open_console env t =
     (case open_fd env console_name O_RDWR t of
        None \<Rightarrow> t
      | Some (fd, u) \<Rightarrow> if 3 \<le> fd then close_fd fd u else open_console env u)"
  by pat_completeness auto
termination
proof (relation "measure (\<lambda>(env, t). card {j. j < length t \<and> t ! j = None})", simp, clarsimp)
  fix env t fd u
  assume "open_fd env console_name O_RDWR t = Some (fd, u)"
  then show "card {j. j < length u \<and> u ! j = None} < card {j. j < length t \<and> t ! j = None}"
    using fdt.alloc_uses [of "FileAt console_name O_RDWR" t fd u] by (simp add: open_fd_def split: if_splits)
qed

declare open_console.simps [simp del]

datatype action = Chdir "u8 list" | Job "u32 run"

definition cd_prefix :: "u8 list" where
  "cd_prefix = [0x63, 0x64, 0x20]"

definition arg_string :: "nat \<Rightarrow> u8 list \<Rightarrow> token \<Rightarrow> u8 list" where
  "arg_string n b t = string_at b (n - length (fst t))"

definition run_line :: "u32 shenv \<Rightarrow> path \<Rightarrow> u32 fdtab \<Rightarrow> u8 list \<Rightarrow> u32 run" where
  "run_line env p t line =
     (case parsecmd line of
        Parsed (c, b) _ \<Rightarrow> runcmd env p t (map_cmd (arg_string (length line) b) c)
      | Quit e \<Rightarrow> Panicked e
      | NoFuel \<Rightarrow> Exit)"

fun sh_loop :: "u32 shenv \<Rightarrow> nat \<Rightarrow> u32 fdtab \<Rightarrow> u8 list list \<Rightarrow> action list" where
  "sh_loop env n t [] = []"
| "sh_loop env n t (line # lines) =
     (if line = [] then []
      else if take 3 line = cd_prefix then Chdir (drop 3 (butlast line)) # sh_loop env n t lines
      else if \<not> forks env [n] then [Job (Panicked ''fork'')]
      else Job (Fork (run_line env [n] t line) (Wait [] t Exit)) # sh_loop env (n + 1) t lines)"

definition sh_main :: "u32 shenv \<Rightarrow> u32 fdtab \<Rightarrow> u8 list list \<Rightarrow> action list" where
  "sh_main env t lines = sh_loop env 0 (open_console env t) lines"

section \<open>What the programs of a command get\<close>

fun jobs :: "u32 shenv \<Rightarrow> path \<Rightarrow> u32 fobj \<Rightarrow> u32 fobj \<Rightarrow> u8 list cmd \<Rightarrow> (u8 list list \<times> u32 fobj \<times> u32 fobj) list" where
  "jobs env p i out (EXEC ws) = (if ws = [] then [] else [(ws, i, out)])"
| "jobs env p i out (REDIR c f mode fd) =
     (if \<not> opens env f mode then []
      else if fd = 0 then jobs env p (FileAt f mode) out c else jobs env p i (FileAt f mode) c)"
| "jobs env p i out (LIST c d) = jobs env (0 # p) i out c @ jobs env (1 # p) i out d"
| "jobs env p i out (PIPE c d) = jobs env (0 # p) i (WriteEnd p) c @ jobs env (1 # p) (ReadEnd p) out d"
| "jobs env p i out (BACK c) = jobs env (0 # p) i out c"

fun execs :: "'m run \<Rightarrow> (u8 list list \<times> 'm fdtab) list" where
  "execs Exit = []"
| "execs (Panicked e) = []"
| "execs (Run ws t) = [(ws, t)]"
| "execs (Fork c d) = execs c @ execs d"
| "execs (Wait p t c) = execs c"

fun waits :: "'m run \<Rightarrow> (path \<times> 'm fdtab) list" where
  "waits Exit = []"
| "waits (Panicked e) = []"
| "waits (Run ws t) = []"
| "waits (Fork c d) = waits c @ waits d"
| "waits (Wait p t c) = (p, t) # waits c"

fun panics :: "'m run \<Rightarrow> bool" where
  "panics Exit \<longleftrightarrow> False"
| "panics (Panicked e) \<longleftrightarrow> True"
| "panics (Run ws t) \<longleftrightarrow> False"
| "panics (Fork c d) \<longleftrightarrow> panics c \<or> panics d"
| "panics (Wait p t c) \<longleftrightarrow> panics c"

definition std_fds :: "'m fobj \<Rightarrow> 'm fobj \<Rightarrow> 'm fdtab \<Rightarrow> bool" where
  "std_fds i out t \<longleftrightarrow> 1 < length t \<and> t ! 0 = Some i \<and> t ! 1 = Some out \<and>
     (\<exists>a b. a \<noteq> b \<and> a < length t \<and> b < length t \<and> t ! a = None \<and> t ! b = None)"

definition no_ends :: "path \<Rightarrow> 'm fdtab \<Rightarrow> bool" where
  "no_ends p t \<longleftrightarrow> (\<forall>q. suffix p q \<longrightarrow> Some (ReadEnd q) \<notin> set t \<and> Some (WriteEnd q) \<notin> set t)"

lemma slot_low:
  assumes "fd \<le> 1" "1 < length t" "fd = 0 \<or> t ! 0 \<noteq> None"
  shows "fd_slot x (close_fd fd t) = Some (fd, t[fd := Some x])"
proof -
  have "first_idx (\<lambda>x. x = None) (t[fd := None]) = Some fd"
  proof (cases "fd = 0")
    case True
    have "0 < length t" using assms(2) by linarith
    then show ?thesis using True by (simp add: first_idx_Some)
  next
    case False
    then show ?thesis using assms by (auto simp: first_idx_Some le_Suc_eq)
  qed
  then show ?thesis using assms(1,2) by (simp add: fd_slot_def close_fd_def)
qed

lemma std_fdsI:
  "1 < length t \<Longrightarrow> t ! 0 = Some i \<Longrightarrow> t ! 1 = Some out \<Longrightarrow> a \<noteq> b \<Longrightarrow> a < length t \<Longrightarrow> b < length t \<Longrightarrow> t ! a = None \<Longrightarrow> t ! b = None \<Longrightarrow>
    std_fds i out t"
  unfolding std_fds_def by blast

lemma std_fds_upd: "std_fds i out t \<Longrightarrow> std_fds j out (t[0 := Some j])" "std_fds i out t \<Longrightarrow> std_fds i j (t[1 := Some j])"
proof -
  assume s: "std_fds i out t"
  then obtain a b where a: "a \<noteq> b" "a < length t" "b < length t" "t ! a = None" "t ! b = None" by (auto simp: std_fds_def)
  have o: "1 < length t" "0 < length t" "t ! 0 = Some i" "t ! 1 = Some out" using s by (auto simp: std_fds_def)
  have ne: "a \<noteq> 0" "b \<noteq> 0" "a \<noteq> 1" "b \<noteq> 1" using o a by (auto intro: ccontr)
  show "std_fds j out (t[0 := Some j])" by (rule std_fdsI [of _ _ _ a b]) (use a o ne in simp_all)
  show "std_fds i j (t[1 := Some j])" by (rule std_fdsI [of _ _ _ a b]) (use a o ne in simp_all)
qed

lemma pipe_fds_ok:
  assumes "std_fds i out t"
  obtains a b where "pipe_fds p t = Some (a, b, t[a := Some (ReadEnd p), b := Some (WriteEnd p)])"
    "1 < a" "a < b" "b < length t" "t ! a = None" "t ! b = None"
proof -
  obtain c d where c: "c \<noteq> d" "c < length t" "d < length t" "t ! c = None" "t ! d = None" and n: "t ! 0 \<noteq> None" "t ! 1 \<noteq> None" "1 < length t"
    using assms by (auto simp: std_fds_def)
  have "None \<in> set t" using c by (metis nth_mem)
  then obtain a t1 where a: "fd_slot (ReadEnd p) t = Some (a, t1)" using fdt.alloc_None [of "ReadEnd p" t] by fastforce
  note s1 = fdt.alloc_Some [OF a]
  have "t1 ! c = None \<or> t1 ! d = None" using c s1 by (auto simp: nth_list_update)
  then have "None \<in> set t1" using c s1 by (metis length_list_update nth_mem)
  then obtain b t2 where b: "fd_slot (WriteEnd p) t1 = Some (b, t2)" using fdt.alloc_None [of "WriteEnd p" t1] by fastforce
  note s2 = fdt.alloc_Some [OF b]
  have ne: "b \<noteq> a" using s1 s2 by auto
  then have tb: "t ! b = None" using s1 s2 by simp
  have "a < b" using s1 tb ne by (meson linorder_neqE_nat)
  moreover have "1 < a" using s1 n by (metis One_nat_def less_one linorder_neqE_nat)
  moreover have "pipe_fds p t = Some (a, b, t[a := Some (ReadEnd p), b := Some (WriteEnd p)])"
    using a b s1 s2 by (simp add: pipe_fds_def)
  ultimately show thesis using that s1 s2 tb by simp
qed

lemma update_back:
  "a < b \<Longrightarrow> b < length t \<Longrightarrow> 1 < a \<Longrightarrow> t ! a = None \<Longrightarrow> t ! b = None \<Longrightarrow> fd \<le> 1 \<Longrightarrow>
    t[a := x, b := y, fd := z, a := None, b := None] = t[fd := z]"
  "a < b \<Longrightarrow> b < length t \<Longrightarrow> t ! a = None \<Longrightarrow> t ! b = None \<Longrightarrow> t[a := x, b := y, a := None, b := None] = t"
  by (auto intro!: nth_equalityI simp: nth_list_update)

lemma pipe_wiring:
  assumes t: "std_fds i out t" and ab: "1 < a" "a < b" "b < length t" "t ! a = None" "t ! b = None"
    and u: "u = t[a := Some (ReadEnd p), b := Some (WriteEnd p)]"
  shows "close_fd b (close_fd a (dup_fd b (close_fd 1 u))) = t[1 := Some (WriteEnd p)]"
    and "close_fd b (close_fd a (dup_fd a (close_fd 0 u))) = t[0 := Some (ReadEnd p)]"
    and "close_fd b (close_fd a u) = t"
proof -
  have l: "1 < length u" "u ! 0 \<noteq> None" "a < length u" "b < length u" using t u ab by (auto simp: std_fds_def nth_list_update)
  have d: "dup_fd b (close_fd 1 u) = u[1 := Some (WriteEnd p)]"
    using slot_low [of 1 u "WriteEnd p"] l ab u by (simp add: dup_fd_def close_fd_def)
  have e: "dup_fd a (close_fd 0 u) = u[0 := Some (ReadEnd p)]"
    using slot_low [of 0 u "ReadEnd p"] l ab u by (auto simp: dup_fd_def close_fd_def)
  show "close_fd b (close_fd a (dup_fd b (close_fd 1 u))) = t[1 := Some (WriteEnd p)]"
    using d update_back(1) [OF ab(2,3,1,4,5), of 1] l(3,4) u by (simp add: close_fd_def)
  show "close_fd b (close_fd a (dup_fd a (close_fd 0 u))) = t[0 := Some (ReadEnd p)]"
    using e update_back(1) [OF ab(2,3,1,4,5), of 0] l(3,4) u by (simp add: close_fd_def)
  show "close_fd b (close_fd a u) = t" using update_back(2) [OF ab(2,3,4,5)] l(3,4) u by (simp add: close_fd_def)
qed

lemma no_ends_upd:
  assumes "no_ends p t" "\<forall>q. suffix r q \<longrightarrow> suffix p q \<and> x \<noteq> ReadEnd q \<and> x \<noteq> WriteEnd q"
  shows "no_ends r (t[n := Some x])"
  unfolding no_ends_def
proof (intro allI impI)
  fix q assume q: "suffix r q"
  have "set (t[n := Some x]) \<subseteq> insert (Some x) (set t)" by (rule set_update_subset_insert)
  then show "Some (ReadEnd q) \<notin> set (t[n := Some x]) \<and> Some (WriteEnd q) \<notin> set (t[n := Some x])"
    using assms q unfolding no_ends_def by blast
qed

lemma suffix_longer: "suffix (x # p) (q :: path) \<Longrightarrow> suffix p q \<and> q \<noteq> p"
  by (auto simp: suffix_def)

lemma runcmd_wires:
  assumes "std_fds i out t" "short c" "no_ends p t" "\<forall>q. forks env q"
  shows "execs (runcmd env p t c) = map (\<lambda>(ws, j, k). (ws, t[0 := Some j, 1 := Some k])) (jobs env p i out c) \<and>
    (\<forall>q u. (q, u) \<in> set (waits (runcmd env p t c)) \<longrightarrow> Some (ReadEnd q) \<notin> set u \<and> Some (WriteEnd q) \<notin> set u) \<and>
    \<not> panics (runcmd env p t c)"
  using assms
proof (induction c arbitrary: p t i out)
  case (EXEC ws)
  then have "t[0 := Some i] = t" "t[1 := Some out] = t" by (metis list_update_id std_fds_def)+
  then show ?case by simp
next
  case (REDIR c f mode fd)
  note r = REDIR(1) [of _ _ _ p]
  have fd: "fd = 0 \<or> fd = 1" using REDIR(3) by auto
  have o: "1 < length t" "t ! 0 \<noteq> None" using REDIR(2) by (auto simp: std_fds_def)
  have ne: "no_ends p (t[fd := Some (FileAt f mode)])" using REDIR(4) by (rule no_ends_upd) simp
  show ?case
  proof (cases "opens env f mode")
    case True
    then have e: "runcmd env p t (REDIR c f mode fd) = runcmd env p (t[fd := Some (FileAt f mode)]) c"
      using slot_low [of fd t "FileAt f mode"] fd o by (auto simp: open_fd_def)
    show ?thesis using fd
    proof
      assume "fd = 0"
      then show ?thesis unfolding e using r [OF std_fds_upd(1) [OF REDIR(2)] _ _ REDIR(5)] ne REDIR(3) True by simp
    next
      assume "fd = 1"
      then show ?thesis unfolding e
        using r [OF std_fds_upd(2) [OF REDIR(2)] _ _ REDIR(5)] ne REDIR(3) True by (simp add: list_update_swap)
    qed
  qed (simp add: open_fd_def)
next
  case (PIPE c d)
  obtain a b where ab: "pipe_fds p t = Some (a, b, t[a := Some (ReadEnd p), b := Some (WriteEnd p)])"
    "1 < a" "a < b" "b < length t" "t ! a = None" "t ! b = None" using pipe_fds_ok [OF PIPE(3)] .
  note w = pipe_wiring [OF PIPE(3) ab(2-6) refl]
  have n0: "no_ends (0 # p) (t[1 := Some (WriteEnd p)])" and n1: "no_ends (1 # p) (t[0 := Some (ReadEnd p)])"
    by (rule no_ends_upd [OF PIPE(5)], use suffix_longer in blast)+
  have own: "Some (ReadEnd p) \<notin> set t" "Some (WriteEnd p) \<notin> set t" using PIPE(5) by (auto simp: no_ends_def)
  show ?case using ab(1) w own PIPE(6) PIPE(1) [OF std_fds_upd(2) [OF PIPE(3)] _ n0 PIPE(6)] PIPE(2) [OF std_fds_upd(1) [OF PIPE(3)] _ n1 PIPE(6)] PIPE(4)
    by (auto simp: list_update_swap)
next
  case (LIST c d)
  have n: "no_ends (x # p) t" for x using LIST(5) suffix_longer unfolding no_ends_def by blast
  have own: "Some (ReadEnd p) \<notin> set t" "Some (WriteEnd p) \<notin> set t" using LIST(5) by (auto simp: no_ends_def)
  show ?case using own LIST(6) LIST(1) [OF LIST(3) _ n LIST(6)] LIST(2) [OF LIST(3) _ n LIST(6)] LIST(4) by auto
next
  case (BACK c)
  have n: "no_ends (0 # p) t" using BACK(4) suffix_longer unfolding no_ends_def by blast
  show ?case using BACK(5) BACK(1) [OF BACK(2) _ n BACK(5)] BACK(3) by simp
qed

lemma short_map: "short (map_cmd f c) = short c"
  by (induction c) auto

text \<open>The loop of \<^verbatim>\<open>main\<close> leaves descriptors 0 to 2 open.\<close>

lemma open_console_std:
  "opens env console_name O_RDWR \<Longrightarrow> 3 < length t \<Longrightarrow> None \<in> set (drop 3 t) \<Longrightarrow>
    length (open_console env t) = length t \<and> drop 3 (open_console env t) = drop 3 t \<and>
    (\<forall>j < 3. open_console env t ! j = (if t ! j = None then Some (FileAt console_name O_RDWR) else t ! j))"
proof (induction env t rule: open_console.induct)
  case (1 env t)
  have "None \<in> set t" using 1(4) in_set_dropD by fast
  then obtain fd u where o: "open_fd env console_name O_RDWR t = Some (fd, u)"
    using fdt.alloc_None [of "FileAt console_name O_RDWR" t] 1(2) by (fastforce simp: open_fd_def)
  then have s: "fd < length t" "t ! fd = None" "\<forall>j < fd. t ! j \<noteq> None" "u = t[fd := Some (FileAt console_name O_RDWR)]"
    using fdt.alloc_Some [of "FileAt console_name O_RDWR" t fd u] 1(2) by (simp_all add: open_fd_def)
  show ?case
  proof (cases "3 \<le> fd")
    case True
    have "close_fd fd u = t" using s(1,2,4) by (simp add: close_fd_def) (metis list_update_id)
    then have "open_console env t = t" using o True by (simp add: open_console.simps [of env t])
    moreover have "\<forall>j < 3. t ! j \<noteq> None" using s(3) True by simp
    ultimately show ?thesis by fastforce
  next
    case False
    then have e: "open_console env t = open_console env u" using o by (simp add: open_console.simps [of env t])
    have d: "drop 3 u = drop 3 t" "length u = length t" using s(4) False by simp_all
    have "length (open_console env u) = length u \<and> drop 3 (open_console env u) = drop 3 u \<and>
      (\<forall>j < 3. open_console env u ! j = (if u ! j = None then Some (FileAt console_name O_RDWR) else u ! j))"
      using 1(1) [OF o refl False 1(2)] 1(3,4) d by simp
    moreover have "(if u ! j = None then Some (FileAt console_name O_RDWR) else u ! j) = (if t ! j = None then Some (FileAt console_name O_RDWR) else t ! j)" for j
      using s by (cases "j = fd") auto
    ultimately show ?thesis using e d by simp
  qed
qed


text \<open>The line \<^verbatim>\<open>a|b\<close>.\<close>

definition ex_line :: "u8 list" where
  "ex_line = [0x61, 0x7C, 0x62]"

definition ex_env :: "u32 shenv" where
  "ex_env = \<lparr>opens = (\<lambda>_ _. True), forks = (\<lambda>_. True)\<rparr>"

definition ex_fds :: "u32 fdtab" where
  "ex_fds = [Some (Inherited 0), Some (Inherited 1), Some (Inherited 2), None, None]"

lemma ex_parse:
  "parsecmd ex_line = Parsed (PIPE (EXEC [([0x61, 0x7C, 0x62], [0x7C, 0x62])]) (EXEC [([0x62], [])]), [0x61, 0, 0x62, 0]) []"
  by code_simp


end
