(* ===== verification/Shell_Hw1.thy ===== *)
theory Shell_Hw1
  imports Shell
begin

text \<open>
  The simplified shell of the first assignment (\<^verbatim>\<open>cs238p_hw1/sh.c\<close>), a descendant of the same
  program for a host system: no lists, background jobs, blocks or \<^verbatim>\<open>>>\<close>, words copied out of the
  line by \<^verbatim>\<open>mkcopy\<close>.  The theory shows that both parsers agree on the lines both understand, and what the
  programs of a pipeline get from \<^verbatim>\<open>runcmd\<close> here.  Pointers, tokens and outcomes are as in the model of \<^verbatim>\<open>sh.c\<close>.
\<close>

section \<open>The parser\<close>

definition h_symbols :: "u8 list" where
  "h_symbols = [0x3C, 0x7C, 0x3E]"

fun h_word_end :: "ptr \<Rightarrow> ptr" where
  "h_word_end [] = []"
| "h_word_end (c # s) = (if c \<notin> set whitespace \<and> c \<notin> set h_symbols then h_word_end s else c # s)"

definition h_gettoken :: "ptr \<Rightarrow> u8 \<times> ptr \<times> ptr \<times> ptr" where
  "h_gettoken s =
     (let q = skip_ws s;
          (ret, eq) =
            (case q of
               [] \<Rightarrow> (0, [])
             | c # r \<Rightarrow>
                 if c = 0 then (0, q)
                 else if c \<in> {c_bar, c_lt} then (c, r)
                 else if c = c_gt then (c, r)
                 else (c_word, h_word_end q))
      in (ret, q, eq, skip_ws eq))"

definition h_peek :: "ptr \<Rightarrow> u8 list \<Rightarrow> ptr \<times> bool" where
  "h_peek s toks = (let r = skip_ws s in (r, r \<noteq> [] \<and> hd r \<noteq> 0 \<and> hd r \<in> set toks))"

definition mkcopy :: "ptr \<Rightarrow> ptr \<Rightarrow> u8 list" where
  "mkcopy q eq = take (length q - length eq) q"

datatype hmode = H_RDONLY | H_WRONLY_CREAT_TRUNC

datatype hcmd =
    HExec "u8 list list"
  | HRedir u8 hcmd "u8 list" hmode nat
  | HPipe hcmd hcmd

definition h_redircmd :: "hcmd \<Rightarrow> u8 list \<Rightarrow> u8 \<Rightarrow> hcmd" where
  "h_redircmd c f typ =
     HRedir typ c f (if typ = c_lt then H_RDONLY else H_WRONLY_CREAT_TRUNC) (if typ = c_lt then 0 else 1)"

definition h_wrap :: "(u8 list \<times> u8) list \<Rightarrow> hcmd \<Rightarrow> hcmd" where
  "h_wrap rs c = foldl (\<lambda>c (f, typ). h_redircmd c f typ) c rs"

lemma h_word_end_length: "length (h_word_end s) \<le> length s"
  by (induction s) auto

lemma h_gettoken_length:
  assumes "h_gettoken s = (tok, q, eq, r)"
  shows "length r \<le> length s" "skip_ws s \<noteq> [] \<Longrightarrow> hd (skip_ws s) \<noteq> 0 \<Longrightarrow> length r < length s" "tok \<noteq> 0 \<Longrightarrow> length r < length s"
proof -
  have l: "length (skip_ws x) \<le> length x" for x by (rule skip_ws_length)
  have "length r \<le> length s \<and> (skip_ws s \<noteq> [] \<and> hd (skip_ws s) \<noteq> 0 \<or> tok \<noteq> 0 \<longrightarrow> length r < length s)"
  proof (cases "skip_ws s")
    case Nil
    then show ?thesis using assms by (simp add: h_gettoken_def)
  next
    case (Cons c t)
    note n = l [of s, unfolded Cons] l [of t] l [of "h_word_end (c # t)"] h_word_end_length [of t] l [of "c # t"]
    have "eq = c # t \<and> tok = 0 \<and> c = 0 \<or> eq = t \<or> eq = h_word_end (c # t) \<and> c \<notin> set h_symbols \<and> c \<notin> set whitespace"
      using assms Cons skip_ws_head [OF Cons] by (auto simp: h_gettoken_def Let_def h_symbols_def const_defs split: if_splits)
    moreover have "r = skip_ws eq" using assms by (auto simp: h_gettoken_def Let_def split: prod.splits)
    ultimately show ?thesis using n Cons by auto
  qed
  then show "length r \<le> length s" "skip_ws s \<noteq> [] \<Longrightarrow> hd (skip_ws s) \<noteq> 0 \<Longrightarrow> length r < length s" "tok \<noteq> 0 \<Longrightarrow> length r < length s"
    by auto
qed

lemma h_peek_length:
  assumes "h_peek s toks = (r, b)"
  shows "length r \<le> length s" "b \<Longrightarrow> h_gettoken r = (tok, q, eq, r') \<Longrightarrow> length r' < length s"
  using assms skip_ws_length [of s] h_gettoken_length(2) [of r tok q eq r'] by (auto simp: h_peek_def Let_def skip_ws_idem)

function h_parseredirs :: "(u8 list \<times> u8) list \<Rightarrow> ptr \<Rightarrow> (u8 list \<times> u8) list pres" where
  "h_parseredirs rs s =
     (let (r, more) = h_peek s [c_lt, c_gt] in
      if \<not> more then Parsed rs r
      else let (tok, _, _, r1) = h_gettoken r; (t, q, eq, r2) = h_gettoken r1 in
        if t \<noteq> c_word then Quit ''missing file for redirection''
        else h_parseredirs (rs @ [(mkcopy q eq, tok)]) r2)"
  by pat_completeness auto
termination
proof (relation "measure (\<lambda>(rs, s). length s)", simp, clarsimp)
  fix s r tok a b r1 q eq r2
  assume "(r, True) = h_peek s [c_lt, c_gt]" "(tok, a, b, r1) = h_gettoken r" "(c_word, q, eq, r2) = h_gettoken r1"
  then show "length r2 < length s"
    using h_peek_length(2) [of s "[c_lt, c_gt]" r True tok a b r1] h_gettoken_length(1) [of r1 c_word q eq r2] by (metis order_le_less_trans)
qed

declare h_parseredirs.simps [simp del]

lemma h_parseredirs_length: "h_parseredirs rs s = Parsed rs' r \<Longrightarrow> length r \<le> length s"
proof (induction rs s rule: h_parseredirs.induct)
  case (1 rs s)
  obtain r0 more where p: "h_peek s [c_lt, c_gt] = (r0, more)" by fastforce
  obtain tok a b r1 where g: "h_gettoken r0 = (tok, a, b, r1)" by (cases "h_gettoken r0")
  obtain t q eq r2 where g2: "h_gettoken r1 = (t, q, eq, r2)" by (cases "h_gettoken r1")
  show ?case
  proof (cases "more \<and> t = c_word")
    case True
    then have "length r \<le> length r2" using 1 p g g2 by (simp add: h_parseredirs.simps [of rs s])
    then show ?thesis using True h_peek_length(2) [OF p _ g] h_gettoken_length(1) [OF g2] by simp
  next
    case False
    then show ?thesis using 1(2) p g g2 h_peek_length(1) [OF p] by (auto simp: h_parseredirs.simps [of rs s] split: if_splits)
  qed
qed

function h_parseargs :: "u8 list list \<Rightarrow> (u8 list \<times> u8) list \<Rightarrow> ptr \<Rightarrow> (u8 list list \<times> (u8 list \<times> u8) list) pres" where
  "h_parseargs args rs s =
     (let (r, stop) = h_peek s [c_bar] in
      if stop then Parsed (args, rs) r
      else let (tok, q, eq, r1) = h_gettoken r in
        if tok = 0 then Parsed (args, rs) r1
        else if tok \<noteq> c_word then Quit ''syntax error''
        else if MAXARGS \<le> length args + 1 then Quit ''too many args''
        else (case h_parseredirs rs r1 of
                Parsed rs' r2 \<Rightarrow> h_parseargs (args @ [mkcopy q eq]) rs' r2
              | Quit e \<Rightarrow> Quit e
              | NoFuel \<Rightarrow> NoFuel))"
  by pat_completeness auto
termination
proof (relation "measure (\<lambda>(args, rs, s). length s)", simp, clarsimp)
  fix s r q eq r1 rs rs' r2
  assume a: "(r, False) = h_peek s [c_bar]" "(c_word, q, eq, r1) = h_gettoken r" "h_parseredirs rs r1 = Parsed rs' r2"
  have "length r1 < length r" using h_gettoken_length(3) [of r c_word q eq r1] a(2) by (simp add: c_word_def)
  then show "length r2 < length s"
    using h_peek_length(1) [of s _ r False] h_parseredirs_length [OF a(3)] a(1) by (metis order_le_less_trans order_less_le_trans)
qed

declare h_parseargs.simps [simp del]

definition h_parseexec :: "ptr \<Rightarrow> hcmd pres" where
  "h_parseexec s = pbind (h_parseredirs [] s) (\<lambda>rs r.
     pbind (h_parseargs [] rs r) (\<lambda>(args, rs') r1. Parsed (h_wrap rs' (HExec args)) r1))"

fun h_parsepipe :: "nat \<Rightarrow> ptr \<Rightarrow> hcmd pres" where
  "h_parsepipe 0 s = NoFuel"
| "h_parsepipe (Suc n) s =
     pbind (h_parseexec s) (\<lambda>c r.
       let (r1, more) = h_peek r [c_bar] in
       if more then let (_, _, _, r2) = h_gettoken r1 in pbind (h_parsepipe n r2) (\<lambda>d r3. Parsed (HPipe c d) r3)
       else Parsed c r1)"

definition h_parseline :: "nat \<Rightarrow> ptr \<Rightarrow> hcmd pres" where
  "h_parseline n s = h_parsepipe n s"

definition h_parsecmd :: "ptr \<Rightarrow> hcmd pres" where
  "h_parsecmd s =
     pbind (h_parseline (length s + 1) s) (\<lambda>c r.
       let (r1, _) = h_peek r [] in
       if r1 \<noteq> [] then Quit ''leftovers'' else Parsed c r1)"

section \<open>The parser returns\<close>

lemma h_parseredirs_total: "h_parseredirs rs s \<noteq> NoFuel"
proof (induction rs s rule: h_parseredirs.induct)
  case (1 rs s)
  then show ?case by (subst h_parseredirs.simps) (auto simp: Let_def split: prod.splits)
qed

lemma h_parseargs_total: "h_parseargs args rs s \<noteq> NoFuel"
proof (induction args rs s rule: h_parseargs.induct)
  case (1 args rs s)
  then show ?case
    using h_parseredirs_total by (subst h_parseargs.simps) (auto simp: Let_def split: prod.splits pres.splits)
qed

lemma h_parseargs_length: "h_parseargs args rs s = Parsed x r \<Longrightarrow> length r \<le> length s"
proof (induction args rs s rule: h_parseargs.induct)
  case (1 args rs s)
  obtain r0 stop where p: "h_peek s [c_bar] = (r0, stop)" by fastforce
  obtain tok q eq r1 where g: "h_gettoken r0 = (tok, q, eq, r1)" by (cases "h_gettoken r0")
  note l = h_peek_length(1) [OF p] h_gettoken_length(1) [OF g]
  show ?case
  proof (cases "stop \<or> tok \<noteq> c_word \<or> MAXARGS \<le> length args + 1")
    case True
    then show ?thesis using 1(2) p g l by (auto simp: h_parseargs.simps [of args rs s] split: if_splits)
  next
    case False
    then obtain rs' r2 where d: "h_parseredirs rs r1 = Parsed rs' r2" "h_parseargs (args @ [mkcopy q eq]) rs' r2 = Parsed x r"
      using 1(2) p g symbols_split(5) by (auto simp: h_parseargs.simps [of args rs s] split: pres.splits)
    then have "length r \<le> length r2" using 1(1) False p g symbols_split(5) by auto
    then show ?thesis using h_parseredirs_length [OF d(1)] l by simp
  qed
qed

lemma h_parseexec_total: "h_parseexec s \<noteq> NoFuel" "h_parseexec s = Parsed c r \<Longrightarrow> length r \<le> length s"
proof -
  show "h_parseexec s \<noteq> NoFuel" using h_parseredirs_total h_parseargs_total by (auto simp: h_parseexec_def pbind_NoFuel)
  assume "h_parseexec s = Parsed c r"
  then obtain rs r1 x where "h_parseredirs [] s = Parsed rs r1" "h_parseargs [] rs r1 = Parsed x r"
    by (auto simp: h_parseexec_def pbind_Parsed)
  then show "length r \<le> length s" using h_parseredirs_length h_parseargs_length by fastforce
qed

lemma h_parsepipe_total: "length s < n \<Longrightarrow> h_parsepipe n s \<noteq> NoFuel"
proof (induction n arbitrary: s)
  case (Suc n)
  show ?case
  proof
    assume "h_parsepipe (Suc n) s = NoFuel"
    then obtain c r r1 tok q eq r2 where a: "h_parseexec s = Parsed c r" "h_peek r [c_bar] = (r1, True)" "h_gettoken r1 = (tok, q, eq, r2)"
      "h_parsepipe n r2 = NoFuel"
      using h_parseexec_total(1) by (auto simp: pbind_NoFuel Let_def case_prod_eq split: if_splits)
    have "length r2 < length s" using h_parseexec_total(2) [OF a(1)] h_peek_length(2) [OF a(2) _ a(3)] by simp
    then show False using Suc a(4) by simp
  qed
qed simp

lemma h_parsecmd_total: "h_parsecmd s \<noteq> NoFuel"
  using h_parsepipe_total [of s "length s + 1"]
  by (auto simp: h_parsecmd_def h_parseline_def pbind_NoFuel Let_def case_prod_eq split: if_splits)

section \<open>Lines both shells understand\<close>

definition odd_symbols :: "u8 set" where
  "odd_symbols = {c_amp, c_semi, c_open, c_close}"

fun plain :: "ptr \<Rightarrow> bool" where
  "plain [] \<longleftrightarrow> True"
| "plain (c # s) \<longleftrightarrow> c \<notin> odd_symbols \<and> \<not> (c = c_gt \<and> s \<noteq> [] \<and> hd s = c_gt) \<and> plain s"

lemma plain_suffix: "suffix r s \<Longrightarrow> plain s \<Longrightarrow> plain r"
proof -
  have "plain (u @ r) \<Longrightarrow> plain r" for u by (induction u) auto
  then show "suffix r s \<Longrightarrow> plain s \<Longrightarrow> plain r" by (auto simp: suffix_def)
qed

lemma plain_word_end: "plain s \<Longrightarrow> h_word_end s = word_end s"
proof (induction s)
  case (Cons c s)
  have "c \<in> set symbols \<longleftrightarrow> c \<in> set h_symbols" using Cons(2) by (auto simp: symbols_def h_symbols_def odd_symbols_def const_defs)
  then show ?case using Cons by simp
qed simp

lemma plain_gettoken:
  assumes "plain s"
  shows "h_gettoken s = gettoken s"
proof (cases "skip_ws s")
  case Nil
  then show ?thesis by (simp add: h_gettoken_def gettoken_def)
next
  case (Cons c r)
  have p: "plain (c # r)" using plain_suffix [OF skip_ws_suffix assms] Cons by simp
  then have o: "c \<notin> {c_open, c_close, c_semi, c_amp}" "\<not> (c = c_gt \<and> r \<noteq> [] \<and> hd r = c_gt)" by (auto simp: odd_symbols_def)
  show ?thesis using Cons o plain_word_end [OF p] by (auto simp: h_gettoken_def gettoken_def Let_def)
qed

lemma h_peek_eq: "h_peek = peek"
  by (simp add: h_peek_def peek_def fun_eq_iff)

lemma plain_peek:
  assumes "plain s"
  shows "set ts \<subseteq> odd_symbols \<Longrightarrow> peek s ts = (skip_ws s, False)"
    and "peek s [c_bar, c_close, c_amp, c_semi] = h_peek s [c_bar]"
proof -
  have "skip_ws s \<noteq> [] \<Longrightarrow> hd (skip_ws s) \<notin> odd_symbols"
    using plain_suffix [OF skip_ws_suffix assms] by (cases "skip_ws s") auto
  then show "set ts \<subseteq> odd_symbols \<Longrightarrow> peek s ts = (skip_ws s, False)" "peek s [c_bar, c_close, c_amp, c_semi] = h_peek s [c_bar]"
    by (auto simp: peek_def h_peek_def Let_def odd_symbols_def)
qed

section \<open>The parsers agree\<close>

definition agree :: "('a \<Rightarrow> 'b \<Rightarrow> bool) \<Rightarrow> 'a pres \<Rightarrow> 'b pres \<Rightarrow> bool" where
  "agree R m n \<longleftrightarrow> (case m of Parsed x r \<Rightarrow> plain r \<and> (\<exists>y. n = Parsed y r \<and> R x y) | Quit e \<Rightarrow> (\<exists>e'. n = Quit e') | NoFuel \<Rightarrow> True)"

lemma agree_simps [simp]:
  "agree R NoFuel n" "agree R (Quit e) (Quit e')" "agree R (Parsed x r) (Parsed y r) \<longleftrightarrow> plain r \<and> R x y"
  by (auto simp: agree_def)

lemma agree_bind:
  assumes "agree R m n" "\<And>x y r. R x y \<Longrightarrow> plain r \<Longrightarrow> m = Parsed x r \<Longrightarrow> agree S (k x r) (l y r)"
  shows "agree S (pbind m k) (pbind n l)"
  using assms by (cases m) (auto simp: agree_def [of R])

definition hredir :: "token redir \<Rightarrow> u8 list \<times> u8" where
  "hredir r = (case r of (f, mode, fd) \<Rightarrow> (word_of f, if fd = 0 then c_lt else c_gt))"

fun hcmd_of :: "u8 list cmd \<Rightarrow> hcmd option" where
  "hcmd_of (EXEC ws) = Some (HExec ws)"
| "hcmd_of (REDIR c f mode fd) = map_option (\<lambda>h. h_redircmd h f (if fd = 0 then c_lt else c_gt)) (hcmd_of c)"
| "hcmd_of (PIPE c d) = Option.bind (hcmd_of c) (\<lambda>h. map_option (HPipe h) (hcmd_of d))"
| "hcmd_of (LIST c d) = None"
| "hcmd_of (BACK c) = None"

lemma wrap_agree: "hcmd_of (map_cmd word_of c) = Some h \<Longrightarrow> hcmd_of (map_cmd word_of (wrap rs c)) = Some (h_wrap (map hredir rs) h)"
proof (induction rs arbitrary: c h)
  case (Cons r rs)
  obtain f mode fd where r: "r = (f, mode, fd)" by (cases r)
  have "hcmd_of (map_cmd word_of (REDIR c f mode fd)) = Some (h_redircmd h (word_of f) (if fd = 0 then c_lt else c_gt))" using Cons(2) by simp
  from Cons(1) [OF this] show ?case using r by (simp add: h_wrap_def hredir_def)
qed (simp add: h_wrap_def)

lemma redirs_agree: "plain s \<Longrightarrow> agree (\<lambda>x y. y = map hredir x) (parseredirs rs s) (h_parseredirs (map hredir rs) s)"
proof (induction rs s rule: parseredirs_induct)
  case (step rs s)
  show ?case
  proof (cases s rs rule: parseredirs_exhaust)
    case (stop r)
    then show ?thesis
      using plain_suffix [OF peek_at [OF suffix_order.refl stop(1)] step(2)] by (subst h_parseredirs.simps) (simp add: h_peek_eq)
  next
    case (bad r tok a b r1)
    have p: "plain r" "plain r1"
      using plain_suffix [OF peek_at [OF suffix_order.refl bad(1)] step(2)] plain_suffix [OF gettoken_at(1) [OF suffix_order.refl bad(2)]] by blast+
    then show ?thesis using bad by (subst h_parseredirs.simps) (auto simp: h_peek_eq plain_gettoken split: prod.splits)
  next
    case (more r tok a b r1 q eq r2)
    have p: "plain r" "plain r1" "plain r2"
      using plain_suffix [OF peek_at [OF suffix_order.refl more(1)] step(2)] plain_suffix [OF gettoken_at(1) [OF suffix_order.refl more(2)]]
        plain_suffix [OF gettoken_at(1) [OF suffix_order.refl more(3)]] by blast+
    have "tok = c_lt \<or> tok = c_gt"
    proof -
      obtain c t where c: "r = c # t" "c = c_lt \<or> c = c_gt" "skip_ws s = r"
        using more(1) by (cases r) (auto simp: peek_def Let_def)
      then have "skip_ws r = c # t" by (metis skip_ws_idem)
      moreover have "c = c_gt \<Longrightarrow> t = [] \<or> hd t \<noteq> c_gt" using p(1) c(1) by auto
      ultimately show ?thesis
        using more(2) c(2) gettoken_cases(3) [of r c t] gettoken_cases(5) [of r t] by (auto simp: singles_def)
    qed
    then have h: "hredir (redir_of tok (q, eq)) = (mkcopy q eq, tok)" by (auto simp: hredir_def redir_of_def mkcopy_def const_defs)
    have "h_parseredirs (map hredir rs) s = h_parseredirs (map hredir (rs @ [redir_of tok (q, eq)])) r2"
      using more p h by (subst h_parseredirs.simps) (simp add: h_peek_eq plain_gettoken)
    then show ?thesis using step(1) [OF more(1-3) p(3)] more(4) by simp
  qed
qed

lemma args_agree:
  "plain s \<Longrightarrow> agree (\<lambda>(as, rs) y. y = (map word_of as, map hredir rs)) (parseargs args rs s) (h_parseargs (map word_of args) (map hredir rs) s)"
proof (induction args rs s rule: parseargs_induct)
  case (step args rs s)
  obtain r stop where p: "peek s [c_bar, c_close, c_amp, c_semi] = (r, stop)" by fastforce
  obtain tok q eq r1 where g: "gettoken r = (tok, q, eq, r1)" by (cases "gettoken r")
  have pl: "plain r" "plain r1"
    using plain_suffix [OF peek_at [OF suffix_order.refl p] step(2)] plain_suffix [OF gettoken_at(1) [OF suffix_order.refl g]] by blast+
  have hp: "h_peek s [c_bar] = (r, stop)" using p plain_peek(2) [OF step(2)] by simp
  have hg: "h_gettoken r = (tok, q, eq, r1)" using g plain_gettoken [OF pl(1)] by simp
  show ?case
  proof (cases "\<not> stop \<and> tok = c_word \<and> length args + 1 < MAXARGS")
    case False
    then show ?thesis using p g hp hg pl by (subst parseargs.simps, subst h_parseargs.simps) auto
  next
    case True
    note ra = redirs_agree [OF pl(2), of rs]
    have "parseargs args rs s = pbind (parseredirs rs r1) (parseargs (args @ [(q, eq)]))"
      using True p g symbols_split(5) by (subst parseargs.simps) (cases "parseredirs rs r1"; simp)
    moreover have "h_parseargs (map word_of args) (map hredir rs) s =
        pbind (h_parseredirs (map hredir rs) r1) (h_parseargs (map word_of (args @ [(q, eq)])))"
      using True hp hg symbols_split(5)
      by (subst h_parseargs.simps) (cases "h_parseredirs (map hredir rs) r1"; simp add: mkcopy_def)
    moreover have "agree (\<lambda>(as, rs) y. y = (map word_of as, map hredir rs)) (pbind (parseredirs rs r1) (parseargs (args @ [(q, eq)])))
        (pbind (h_parseredirs (map hredir rs) r1) (h_parseargs (map word_of (args @ [(q, eq)]))))"
      by (rule agree_bind [OF ra]) (use step(1) [of r q eq r1] True p g in simp)
    ultimately show ?thesis by simp
  qed
qed

definition same_cmd :: "pcmd \<Rightarrow> hcmd \<Rightarrow> bool" where
  "same_cmd c h \<longleftrightarrow> hcmd_of (map_cmd word_of c) = Some h"

lemma same_pipe: "same_cmd c h \<Longrightarrow> same_cmd d k \<Longrightarrow> same_cmd (PIPE c d) (HPipe h k)"
  by (simp add: same_cmd_def)

lemma exec_agree: "plain s \<Longrightarrow> agree same_cmd (parseexec n s) (h_parseexec s)"
proof (cases n)
  case (Suc m)
  assume s: "plain s"
  have o: "peek s [c_open] = (skip_ws s, False)" using plain_peek(1) [OF s, of "[c_open]"] by (simp add: odd_symbols_def)
  have "agree same_cmd (pbind (parseredirs [] s) (\<lambda>rs r1. pbind (parseargs [] rs r1) (\<lambda>(args, rs') r2. Parsed (wrap rs' (EXEC args)) r2))) (h_parseexec s)"
    unfolding h_parseexec_def
  proof (rule agree_bind)
    show "agree (\<lambda>x y. y = map hredir x) (parseredirs [] s) (h_parseredirs [] s)" using redirs_agree [OF s, of "[]"] by simp
    fix rs y r assume y: "y = map hredir rs" and r: "plain r"
    show "agree same_cmd (pbind (parseargs [] rs r) (\<lambda>(args, rs') r2. Parsed (wrap rs' (EXEC args)) r2))
        (pbind (h_parseargs [] y r) (\<lambda>(args, rs') r1. Parsed (h_wrap rs' (HExec args)) r1))"
    proof (rule agree_bind)
      show "agree (\<lambda>(as, rs) y. y = (map word_of as, map hredir rs)) (parseargs [] rs r) (h_parseargs [] y r)"
        using args_agree [OF r, of "[]" rs] y by simp
    qed (auto simp: same_cmd_def wrap_agree)
  qed
  then show ?thesis using o Suc by simp
qed simp

lemma pipe_agree: "plain s \<Longrightarrow> length s < m \<Longrightarrow> agree same_cmd (parsepipe n s) (h_parsepipe m s)"
proof (induction n arbitrary: s m)
  case (Suc n)
  obtain k where k: "m = Suc k" using Suc(3) by (cases m) auto
  show ?case unfolding k parsepipe.simps h_parsepipe.simps
  proof (rule agree_bind [OF exec_agree [OF Suc(2)]])
    fix c h r assume c: "same_cmd c h" "plain r" "parseexec n s = Parsed c r"
    obtain r1 b where p: "peek r [c_bar] = (r1, b)" by fastforce
    have r1: "plain r1" using plain_suffix [OF peek_at [OF suffix_order.refl p] c(2)] .
    obtain tok q eq r2 where g: "gettoken r1 = (tok, q, eq, r2)" by (cases "gettoken r1")
    have r2: "plain r2" using plain_suffix [OF gettoken_at(1) [OF suffix_order.refl g] r1] .
    have "b \<Longrightarrow> length r2 < k" using peek_length(2) [OF p _ g] parseexec_length [OF c(3)] Suc(3) k by simp
    then have "b \<Longrightarrow> agree same_cmd (pbind (parsepipe n r2) (\<lambda>d. Parsed (PIPE c d))) (pbind (h_parsepipe k r2) (\<lambda>d. Parsed (HPipe h d)))"
      using Suc(1) [OF r2] c(1) by (intro agree_bind [of same_cmd]) (simp_all add: same_pipe)
    then show "agree same_cmd
        (let (r1, more) = peek r [c_bar] in if more then pbind (parsepipe n (skip_token r1)) (\<lambda>d r2. Parsed (PIPE c d) r2) else Parsed c r1)
        (let (r1, more) = h_peek r [c_bar] in if more then let (_, _, _, r2) = h_gettoken r1 in pbind (h_parsepipe k r2) (\<lambda>d r3. Parsed (HPipe h d) r3)
         else Parsed h r1)"
      using p g c(1) r1 plain_gettoken [OF r1] by (simp add: h_peek_eq skip_token_def)
  qed
qed simp

lemma line_agree: "plain s \<Longrightarrow> length s < m \<Longrightarrow> agree same_cmd (parseline n s) (pbind (h_parseline m s) (\<lambda>h r. Parsed h (skip_ws r)))"
proof (cases n)
  case (Suc k)
  assume s: "plain s" "length s < m"
  show ?thesis unfolding Suc parseline.simps h_parseline_def
  proof (rule agree_bind [OF pipe_agree [OF s]])
    fix c h r assume c: "same_cmd c h" "plain r"
    have p: "plain (skip_ws r)" using plain_suffix [OF skip_ws_suffix c(2)] .
    have "peek r [c_amp] = (skip_ws r, False)" using plain_peek(1) [OF c(2), of "[c_amp]"] by (simp add: odd_symbols_def)
    then have "parsebacks c r = (c, skip_ws r)" by (subst parsebacks.simps) simp
    then show "agree same_cmd (let (c', r1) = parsebacks c r; (r2, more) = peek r1 [c_semi] in
        if more then pbind (parseline k (skip_token r2)) (\<lambda>d r3. Parsed (LIST c' d) r3) else Parsed c' r2) (Parsed h (skip_ws r))"
      using c p plain_peek(1) [OF p, of "[c_semi]"] by (simp add: odd_symbols_def skip_ws_idem)
  qed
qed simp

text \<open>
  C20. The parsers of the two shells agree.  On a line without lists, background jobs, blocks and
  \<^verbatim>\<open>>>\<close>, the shell of the first assignment rejects exactly the lines that the shell of the
  system rejects, and otherwise builds the same tree of pipes, redirections and programs with the same words.
\<close>

theorem shells_agree:
  assumes "plain line"
  shows "case parsecmd line of
      Parsed (c, b) r \<Rightarrow> (\<exists>h. hcmd_of (map_cmd word_of c) = Some h \<and> h_parsecmd line = Parsed h r)
    | Quit e \<Rightarrow> (\<exists>e'. h_parsecmd line = Quit e')
    | NoFuel \<Rightarrow> False"
proof -
  have n: "parseline (parse_fuel line) line \<noteq> NoFuel" using parse_enough [of line] by (simp add: parse_fuel_def)
  note a = line_agree [OF assms, of "length line + 1" "parse_fuel line"]
  show ?thesis
  proof (cases "parseline (parse_fuel line) line")
    case (Parsed c r)
    then obtain h r' where h: "h_parseline (length line + 1) line = Parsed h r'" "same_cmd c h" "skip_ws r' = r"
      using a by (cases "h_parseline (length line + 1) line") (auto simp: agree_def)
    have "skip_ws r = r" using h(3) skip_ws_idem by metis
    then show ?thesis using Parsed h by (auto simp: parsecmd_def h_parsecmd_def peek_def h_peek_def same_cmd_def)
  next
    case (Quit e)
    then obtain e' where "h_parseline (length line + 1) line = Quit e'"
      using a by (cases "h_parseline (length line + 1) line") (auto simp: agree_def)
    then show ?thesis using Quit by (simp add: parsecmd_def h_parsecmd_def)
  qed (use n in simp)
qed

theorem shells_agree_witness:
  "plain ex_line \<and> (\<exists>h. h_parsecmd ex_line = Parsed h [])"
proof -
  have "plain ex_line" by (simp add: ex_line_def odd_symbols_def const_defs)
  then show ?thesis using shells_agree [of ex_line] ex_parse by auto
qed

section \<open>Running pipelines\<close>

text \<open>
  The descriptors of the process are a table as in the model of \<^verbatim>\<open>sh.c\<close>.  \<^verbatim>\<open>runcmd\<close> never
  returns, so the calls that follow it in the code are not reached.  A failed \<^verbatim>\<open>fork\<close> is not
  noticed: the parent goes on to the right side.  The result of \<^verbatim>\<open>pipe\<close> is not tested either; what
  happens then is left as a panic.
\<close>

definition dup2_fd :: "nat \<Rightarrow> nat \<Rightarrow> 'm fdtab \<Rightarrow> 'm fdtab" where
  "dup2_fd a b t = (if a < length t \<and> b < length t \<and> t ! a \<noteq> None then t[b := t ! a] else t)"

fun h_runcmd :: "hmode shenv \<Rightarrow> path \<Rightarrow> hmode fdtab \<Rightarrow> hcmd \<Rightarrow> hmode run" where
  "h_runcmd env p t (HExec ws) = (if ws = [] then Exit else Run ws t)"
| "h_runcmd env p t (HRedir typ c f mode fd) =
     (case open_fd env f mode (close_fd fd (dup_fd fd t)) of None \<Rightarrow> Exit | Some (_, u) \<Rightarrow> h_runcmd env p u c)"
| "h_runcmd env p t (HPipe c d) =
     (case pipe_fds p t of
        None \<Rightarrow> Panicked ''pipe''
      | Some (a, b, u) \<Rightarrow>
          let parent = h_runcmd env (1 # p) (close_fd b (dup2_fd a 0 u)) d in
          if forks env (0 # p) then Fork (h_runcmd env (0 # p) (close_fd a (dup2_fd b 1 u)) c) parent else parent)"

fun h_jobs :: "hmode shenv \<Rightarrow> path \<Rightarrow> hmode fobj \<Rightarrow> hmode fobj \<Rightarrow> hcmd \<Rightarrow> (u8 list list \<times> hmode fobj \<times> hmode fobj) list" where
  "h_jobs env p i out (HExec ws) = (if ws = [] then [] else [(ws, i, out)])"
| "h_jobs env p i out (HRedir typ c f mode fd) =
     (if \<not> opens env f mode then []
      else if fd = 0 then h_jobs env p (FileAt f mode) out c else h_jobs env p i (FileAt f mode) c)"
| "h_jobs env p i out (HPipe c d) = h_jobs env (0 # p) i (WriteEnd p) c @ h_jobs env (1 # p) (ReadEnd p) out d"

fun h_need :: "hcmd \<Rightarrow> nat" where
  "h_need (HExec ws) = 0"
| "h_need (HRedir typ c f mode fd) = 1 + h_need c"
| "h_need (HPipe c d) = 2 + h_need c + h_need d"

fun h_std :: "hcmd \<Rightarrow> bool" where
  "h_std (HExec ws) \<longleftrightarrow> True"
| "h_std (HRedir typ c f mode fd) \<longleftrightarrow> fd \<le> 1 \<and> h_std c"
| "h_std (HPipe c d) \<longleftrightarrow> h_std c \<and> h_std d"

definition free_fds :: "'m fdtab \<Rightarrow> nat set" where
  "free_fds t = {j. j < length t \<and> t ! j = None}"

definition wired :: "'m fobj \<Rightarrow> 'm fobj \<Rightarrow> nat \<Rightarrow> 'm fdtab \<Rightarrow> bool" where
  "wired i out n t \<longleftrightarrow> 1 < length t \<and> t ! 0 = Some i \<and> t ! 1 = Some out \<and> n \<le> card (free_fds t)"

lemma free_fds_upd: "j < length t \<Longrightarrow> free_fds (t[j := Some x]) = free_fds t - {j}"
  "j < length t \<Longrightarrow> free_fds (t[j := None]) = insert j (free_fds t)" "finite (free_fds t)"
  by (auto simp: free_fds_def nth_list_update)

lemma wired_slot:
  assumes "wired i out (Suc n) t"
  obtains a where "fd_slot x t = Some (a, t[a := Some x])" "1 < a" "a < length t" "t ! a = None" "wired i out n (t[a := Some x])"
proof -
  have "free_fds t \<noteq> {}" using assms by (auto simp: wired_def)
  then have "\<exists>y \<in> set t. y = None" by (auto simp: free_fds_def) (metis nth_mem)
  then obtain a u where s: "fd_slot x t = Some (a, u)" using fdt.alloc_None [of x t] by fastforce
  note a = fdt.alloc_Some [OF s]
  have n: "t ! 0 = Some i" "t ! 1 = Some out" using assms by (simp_all add: wired_def)
  have a1: "1 < a" using a n by (metis One_nat_def less_one linorder_neqE_nat option.distinct(1))
  have "a \<in> free_fds t" using a by (simp add: free_fds_def)
  then have "wired i out n (t[a := Some x])"
    using assms a a1 by (auto simp: wired_def free_fds_upd)
  then show thesis using that s a a1 by simp
qed

lemma wired_upd:
  "wired i out n t \<Longrightarrow> wired j out n (t[0 := Some j])" "wired i out n t \<Longrightarrow> wired i j n (t[1 := Some j])"
proof -
  assume w: "wired i out n t"
  have o: "0 < length t" "1 < length t" using w by (auto simp: wired_def)
  have "0 \<notin> free_fds t" "1 \<notin> free_fds t" using w by (auto simp: wired_def free_fds_def)
  then have "free_fds (t[0 := Some j]) = free_fds t" "free_fds (t[1 := Some j]) = free_fds t" using free_fds_upd(1) o by blast+
  then show "wired j out n (t[0 := Some j])" "wired i j n (t[1 := Some j])" using w o by (simp_all add: wired_def)
qed

lemma wired_close: "wired i out n t \<Longrightarrow> 1 < a \<Longrightarrow> wired i out n (close_fd a t)"
proof -
  assume w: "wired i out n t" "1 < a"
  have "card (free_fds t) \<le> card (free_fds (t[a := None]))" if "a < length t"
    using that by (intro card_mono) (auto simp: free_fds_upd)
  then show ?thesis using w by (auto simp: wired_def close_fd_def)
qed

lemma wired_mono: "wired i out m t \<Longrightarrow> n \<le> m \<Longrightarrow> wired i out n t"
  by (simp add: wired_def)

definition std_of :: "u8 list list \<times> hmode fdtab \<Rightarrow> u8 list list \<times> hmode fobj option \<times> hmode fobj option" where
  "std_of x = (case x of (ws, t) \<Rightarrow> (ws, t ! 0, t ! 1))"

lemma h_runcmd_wires:
  "wired i out (h_need c) t \<Longrightarrow> h_std c \<Longrightarrow> \<forall>q. forks env q \<Longrightarrow>
    map std_of (execs (h_runcmd env p t c)) = map (\<lambda>(ws, j, k). (ws, Some j, Some k)) (h_jobs env p i out c) \<and> \<not> panics (h_runcmd env p t c)"
proof (induction c arbitrary: p t i out)
  case (HExec ws)
  then show ?case by (simp add: std_of_def wired_def)
next
  case (HRedir ty c f mode fd)
  have fd: "fd = 0 \<or> fd = 1" using HRedir(3) by auto
  have t: "fd < length t" "1 < length t" "t ! fd \<noteq> None" "t ! 0 \<noteq> None" using HRedir(2) fd by (auto simp: wired_def)
  obtain x where x: "t ! fd = Some x" using t(3) by auto
  obtain a where a: "fd_slot x t = Some (a, t[a := Some x])" "1 < a" "a < length t" "t ! a = None" "wired i out (h_need c) (t[a := Some x])"
    using HRedir(2) wired_slot [of i out "h_need c" t x] by auto
  let ?u = "t[a := Some x]"
  have d: "dup_fd fd t = ?u" using t x a(1) by (simp add: dup_fd_def)
  have o: "fd_slot (FileAt f mode) (close_fd fd ?u) = Some (fd, ?u[fd := Some (FileAt f mode)])"
    by (rule slot_low) (use fd t a(2) in auto)
  have w: "if fd = 0 then wired (FileAt f mode) out (h_need c) (?u[fd := Some (FileAt f mode)]) else wired i (FileAt f mode) (h_need c) (?u[fd := Some (FileAt f mode)])"
    using wired_upd [OF a(5)] fd by auto
  show ?case
  proof (cases "opens env f mode")
    case True
    then show ?thesis using d o w fd HRedir(1) [of _ _ "?u[fd := Some (FileAt f mode)]" p] HRedir(3,4) by (auto simp: open_fd_def)
  qed (simp add: open_fd_def)
next
  case (HPipe c d)
  have w2: "wired i out (Suc (Suc (h_need c + h_need d))) t" using HPipe(3) by simp
  obtain a where a: "fd_slot (ReadEnd p) t = Some (a, t[a := Some (ReadEnd p)])" "1 < a" "a < length t" "t ! a = None"
    "wired i out (Suc (h_need c + h_need d)) (t[a := Some (ReadEnd p)])" using wired_slot [OF w2] .
  obtain b where b: "fd_slot (WriteEnd p) (t[a := Some (ReadEnd p)]) = Some (b, t[a := Some (ReadEnd p), b := Some (WriteEnd p)])" "1 < b" "b < length t"
    "t[a := Some (ReadEnd p)] ! b = None" "wired i out (h_need c + h_need d) (t[a := Some (ReadEnd p), b := Some (WriteEnd p)])"
    using wired_slot [OF a(5)] by auto
  define u where "u = t[a := Some (ReadEnd p), b := Some (WriteEnd p)]"
  have p: "pipe_fds p t = Some (a, b, u)" using a(1) b(1) by (simp add: pipe_fds_def u_def)
  have ab: "a \<noteq> b" using a(3) b(4) by auto
  have u: "length u = length t" "1 < length u" "u ! a = Some (ReadEnd p)" "u ! b = Some (WriteEnd p)" "wired i out (h_need c + h_need d) u"
    using a b ab by (auto simp: u_def)
  have "0 < length u" using u(2) by linarith
  then have e: "dup2_fd b 1 u = u[1 := Some (WriteEnd p)]" "dup2_fd a 0 u = u[0 := Some (ReadEnd p)]"
    using u a(3) b(3) by (simp_all add: dup2_fd_def)
  have l: "wired i (WriteEnd p) (h_need c) (close_fd a (dup2_fd b 1 u))"
    unfolding e by (rule wired_mono [OF wired_close [OF wired_upd(2) [OF u(5)] a(2)]]) simp
  have r: "wired (ReadEnd p) out (h_need d) (close_fd b (dup2_fd a 0 u))"
    unfolding e by (rule wired_mono [OF wired_close [OF wired_upd(1) [OF u(5)] b(2)]]) simp
  show ?case using p HPipe(1) [OF l] HPipe(2) [OF r] HPipe(4,5) by (simp add: Let_def)
qed



end
