(* ===== verification/Exec.thy ===== *)
theory Exec
  imports Syscall
begin

text \<open>
  Program loading (\<^verbatim>\<open>exec.c\<close> and \<^verbatim>\<open>loaduvm\<close> of \<^verbatim>\<open>vm.c\<close>), system call dispatch (\<^verbatim>\<open>syscall.c\<close>) and traps
  (\<^verbatim>\<open>trap.c\<close>).  The messages \<^verbatim>\<open>cprintf\<close> prints on the way are left out.
\<close>

section \<open>Loading programs\<close>

text \<open>
  \<^verbatim>\<open>exec\<close> reads the headers of the file as bytes.  The pages of a segment are read straight into
  their frames.
\<close>

fun loaduvm_loop :: "nat \<Rightarrow> bool \<Rightarrow> u32 \<Rightarrow> u32 \<Rightarrow> nat \<Rightarrow> u32 \<Rightarrow> u32 \<Rightarrow> u32 list \<Rightarrow> (kern, int) kop" where
  "loaduvm_loop me killed pgdir addr ip offset sz [] = kret 0"
| "loaduvm_loop me killed pgdir addr ip offset sz (i # is) =
     kbind (inmem (walkpgdir pgdir (addr + i) False)) (\<lambda>pte.
     if pte = 0 then panic ''loaduvm: address should exist''
     else kbind (inmem (kget (\<lambda>m. PTE_ADDR (mem m pte)))) (\<lambda>pa.
       let n = (if sz - i < PGSIZE then sz - i else PGSIZE) in
       kbind (infs (readi me killed ip (offset + i) n)) (\<lambda>(r, bs).
       kseq (inmem (upd_mem (put_bytes (P2V pa) bs))) (
       if r \<noteq> sint n then kret (- 1) else loaduvm_loop me killed pgdir addr ip offset sz is))))"

definition loaduvm :: "nat \<Rightarrow> bool \<Rightarrow> u32 \<Rightarrow> u32 \<Rightarrow> nat \<Rightarrow> u32 \<Rightarrow> u32 \<Rightarrow> (kern, int) kop" where
  "loaduvm me killed pgdir addr ip offset sz =
     (if addr mod PGSIZE \<noteq> 0 then panic ''loaduvm: addr must be page aligned''
      else loaduvm_loop me killed pgdir addr ip offset sz (page_range 0 sz))"

definition ELF_MAGIC :: u32 where [const_defs]: "ELF_MAGIC = 0x464C457F"
definition ELF_PROG_LOAD :: u32 where [const_defs]: "ELF_PROG_LOAD = 1"
definition MAXARG :: nat where [const_defs]: "MAXARG = 32"

record elfhdr =
  eh_magic :: u32
  eh_entry :: u32
  eh_phoff :: u32
  eh_phnum :: u16

definition decode_elf :: "u8 list \<Rightarrow> elfhdr" where
  "decode_elf bs = \<lparr>eh_magic = get32 (pad0 bs) 0, eh_entry = get32 (pad0 bs) 24, eh_phoff = get32 (pad0 bs) 28,
     eh_phnum = get16 (pad0 bs) 44\<rparr>"

record proghdr =
  ph_type :: u32
  ph_off :: u32
  ph_vaddr :: u32
  ph_filesz :: u32
  ph_memsz :: u32

definition decode_ph :: "u8 list \<Rightarrow> proghdr" where
  "decode_ph bs = \<lparr>ph_type = get32 (pad0 bs) 0, ph_off = get32 (pad0 bs) 4, ph_vaddr = get32 (pad0 bs) 8,
     ph_filesz = get32 (pad0 bs) 16, ph_memsz = get32 (pad0 bs) 20\<rparr>"

text \<open>The segments, by the offsets of their headers; \<open>None\<close> is the jump to \<^verbatim>\<open>bad\<close>.\<close>

fun exec_load :: "konf \<Rightarrow> nat \<Rightarrow> bool \<Rightarrow> nat \<Rightarrow> u32 \<Rightarrow> u32 list \<Rightarrow> u32 \<Rightarrow> (kern, u32 option) kop" where
  "exec_load k me killed ip pgdir [] sz = kret (Some sz)"
| "exec_load k me killed ip pgdir (off # offs) sz =
     kbind (infs (readi me killed ip off 32)) (\<lambda>(r, bs).
     let ph = decode_ph bs in
     if r \<noteq> 32 then kret None
     else if ph_type ph \<noteq> ELF_PROG_LOAD then exec_load k me killed ip pgdir offs sz
     else if ph_memsz ph < ph_filesz ph then kret None
     else if ph_vaddr ph + ph_memsz ph < ph_vaddr ph then kret None
     else kbind (inmem (allocuvm (k_end k) pgdir sz (ph_vaddr ph + ph_memsz ph))) (\<lambda>sz'.
       if sz' = 0 then kret None
       else if ph_vaddr ph mod PGSIZE \<noteq> 0 then kret None
       else kbind (loaduvm me killed pgdir (ph_vaddr ph) ip (ph_off ph) (ph_filesz ph)) (\<lambda>l.
         if l < 0 then kret None else exec_load k me killed ip pgdir offs sz')))"

text \<open>The argument strings, from the top of the stack down; the addresses are collected in order.\<close>

fun exec_args :: "u32 \<Rightarrow> u8 list list \<Rightarrow> u32 \<Rightarrow> u32 list \<Rightarrow> (kern, (u32 \<times> u32 list) option) kop" where
  "exec_args pgdir [] sp ustack = kret (Some (sp, ustack))"
| "exec_args pgdir (a # as) sp ustack =
     (if MAXARG \<le> length ustack then kret None
      else let sp' = (sp - (of_nat (length a) + 1)) AND NOT 3 in
        kbind (inmem (copyout pgdir sp' (a @ [0]))) (\<lambda>r.
        if r < 0 then kret None else exec_args pgdir as sp' (ustack @ [sp'])))"

definition exec_bad :: "konf \<Rightarrow> nat \<Rightarrow> u32 \<Rightarrow> nat option \<Rightarrow> (kern, int) kop" where
  "exec_bad k me pgdir ip =
     kseq (if pgdir \<noteq> 0 then inmem (freevm (k_end k) pgdir) else kret ()) (
     kseq (case ip of None \<Rightarrow> kret () | Some p \<Rightarrow> kseq (infs (iunlockput me p)) (inff (op_end me))) (
     kret (- 1)))"

definition path_last :: "u8 list \<Rightarrow> u8 list" where
  "path_last path = rev (takeWhile (\<lambda>c. c \<noteq> slash) (rev path))"

text \<open>The stack frame above the argument strings: fake return address, argument count, vector.\<close>

definition exec_frame :: "u32 \<Rightarrow> u32 list \<Rightarrow> u32 list" where
  "exec_frame sp ustack = (let argc = of_nat (length ustack) in
     [0xFFFFFFFF, argc, sp - (argc + 1) * 4] @ ustack @ [0])"

definition exec_stack :: "konf \<Rightarrow> nat \<Rightarrow> nat \<Rightarrow> u8 list \<Rightarrow> u8 list list \<Rightarrow> elfhdr \<Rightarrow> u32 \<Rightarrow> u32 \<Rightarrow> (kern, int) kop" where
  "exec_stack k me cur path argv elf pgdir sz0 =
     kbind (inmem (allocuvm (k_end k) pgdir (PGROUNDUP sz0) (PGROUNDUP sz0 + 2 * PGSIZE))) (\<lambda>sz.
     if sz = 0 then exec_bad k me pgdir None
     else
       kseq (inmem (clearpteu pgdir (sz - 2 * PGSIZE))) (
       kbind (exec_args pgdir argv sz []) (\<lambda>r.
       case r of
         None \<Rightarrow> exec_bad k me pgdir None
       | Some (sp, ustack) \<Rightarrow>
           (let frame = exec_frame sp ustack; sp' = sp - of_nat (4 * length frame) in
            kbind (inmem (copyout pgdir sp' (concat (map word_bytes frame)))) (\<lambda>w.
            if w < 0 then exec_bad k me pgdir None
            else
              kbind (the_proc cur) (\<lambda>c.
              kseq (upd_proc cur (\<lambda>x. x\<lparr>p_name := safestrcpy (p_name x) (pad0 (path_last path)) name_size,
                 p_pgdir := pgdir, p_sz := sz, p_tf := (p_tf x)\<lparr>tf_eip := eh_entry elf, tf_esp := sp'\<rparr>\<rparr>)) (
              kseq (inmem (freevm (k_end k) (p_pgdir c))) (
              kret 0))))))))"

definition exec_proc :: "konf \<Rightarrow> nat \<Rightarrow> u8 list \<Rightarrow> u8 list list \<Rightarrow> (kern, int) kop" where
  "exec_proc k cur path argv =
     kbind (the_proc cur) (\<lambda>c.
     let me = pid_of c in
     kseq (inff op_begin) (
     kbind (infs (namei me (p_cwd c) path)) (\<lambda>r.
     case r of
       None \<Rightarrow> op_fail me
     | Some ip \<Rightarrow>
         kseq (infs (ilock me ip)) (
         kbind (infs (readi me (p_killed c) ip 0 52)) (\<lambda>(n, bs).
         let elf = decode_elf bs in
         if n \<noteq> 52 then exec_bad k me 0 (Some ip)
         else if eh_magic elf \<noteq> ELF_MAGIC then exec_bad k me 0 (Some ip)
         else kbind (inmem (setupkvm (k_end k) (k_data k))) (\<lambda>pgdir.
           if pgdir = 0 then exec_bad k me 0 (Some ip)
           else kbind (exec_load k me (p_killed c) ip pgdir
                         (map (\<lambda>i. eh_phoff elf + of_nat i * 32) [0..<unat (eh_phnum elf)]) 0) (\<lambda>l.
             case l of
               None \<Rightarrow> exec_bad k me pgdir (Some ip)
             | Some sz \<Rightarrow>
                 kseq (infs (iunlockput me ip)) (
                 kseq (inff (op_end me)) (
                 exec_stack k me cur path argv elf pgdir sz)))))))))"

text \<open>The argument vector of the system call, at most \<open>MAXARG\<close> pointers.\<close>

fun exec_argv :: "nat \<Rightarrow> u32 \<Rightarrow> nat list \<Rightarrow> u8 list list \<Rightarrow> (kern, u8 list list option) kop" where
  "exec_argv cur uargv [] acc = kret None"
| "exec_argv cur uargv (i # is) acc =
     kbind (fetchint cur (uargv + 4 * of_nat i)) (\<lambda>r.
     case r of
       None \<Rightarrow> kret None
     | Some uarg \<Rightarrow>
         if uarg = 0 then kret (Some acc)
         else kbind (fetchstr cur uarg) (\<lambda>q.
           case q of None \<Rightarrow> kret None | Some a \<Rightarrow> exec_argv cur uargv is (acc @ [a])))"

definition sys_exec :: "konf \<Rightarrow> nat \<Rightarrow> (kern, int) kop" where
  "sys_exec k cur =
     need (argstr cur 0) (\<lambda>path.
     need (argint cur 1) (\<lambda>uargv.
     need (exec_argv cur uargv [0..<MAXARG] []) (\<lambda>argv.
     exec_proc k cur path argv)))"

section \<open>Dispatch\<close>

text \<open>
  The table of system calls, by the numbers of \<^verbatim>\<open>syscall.h\<close>.  The call that counts free pages is
  apart because it need not return: a call that hangs has the outcome of a panic.
\<close>

definition sys_memtop_int :: "nat \<Rightarrow> (kern, int) kop" where
  "sys_memtop_int cur = kbind (sys_memtop cur) (\<lambda>r. case r of None \<Rightarrow> panic ''no return'' | Some n \<Rightarrow> kret n)"

definition syscalls :: "konf \<Rightarrow> nat \<Rightarrow> (kern, int) kop list" where
  "syscalls k cur =
     [sys_fork k cur, sys_exit k cur, sys_wait k cur, sys_pipe k cur, sys_read cur, sys_kill cur, sys_exec k cur,
      sys_fstat cur, sys_chdir cur, sys_dup cur, sys_getpid cur, sys_sbrk k cur, sys_sleep cur, sys_uptime cur,
      sys_open k cur, sys_write cur, sys_mknod cur, sys_unlink cur, sys_link cur, sys_mkdir cur, sys_close k cur,
      sys_thread_create k cur, sys_thread_join k cur, sys_thread_exit k cur, sys_thread_sleep cur, sys_thread_wakeup cur,
      sys_memtop_int cur, sys_getmeminfo cur]"

definition set_eax :: "nat \<Rightarrow> int \<Rightarrow> (kern, unit) kop" where
  "set_eax cur r = upd_proc cur (\<lambda>x. x\<lparr>p_tf := (p_tf x)\<lparr>tf_eax := of_int r\<rparr>\<rparr>)"

definition syscall :: "konf \<Rightarrow> nat \<Rightarrow> (kern, unit) kop" where
  "syscall k cur =
     kbind (the_proc cur) (\<lambda>c.
     let num = sint (tf_eax (p_tf c)) in
     if 0 < num \<and> num < int (length (syscalls k cur)) + 1
     then kbind (syscalls k cur ! nat (num - 1)) (set_eax cur)
     else set_eax cur (- 1))"

section \<open>Traps\<close>

definition T_SYSCALL :: u32 where [const_defs]: "T_SYSCALL = 64"
definition T_IRQ0 :: u32 where [const_defs]: "T_IRQ0 = 32"
definition IRQ_TIMER :: u32 where [const_defs]: "IRQ_TIMER = 0"
definition IRQ_KBD :: u32 where [const_defs]: "IRQ_KBD = 1"
definition IRQ_COM1 :: u32 where [const_defs]: "IRQ_COM1 = 4"
definition IRQ_IDE :: u32 where [const_defs]: "IRQ_IDE = 14"
definition IRQ_SPURIOUS :: u32 where [const_defs]: "IRQ_SPURIOUS = 31"

text \<open>
  What the devices have for the handlers: the bytes \<^verbatim>\<open>getc\<close> will return for the keyboard and the
  serial line.  The disk interrupt is part of the transfer that waits for it.
\<close>

record devices =
  dv_kbd :: "int list"
  dv_uart :: "int list"

definition console_irq :: "int list \<Rightarrow> (kern, unit) kop" where
  "console_irq cs = kbind (infs (kbind (incons (consoleintr cs)) (\<lambda>(dump, wk). kseq (fwakeup wk) (kret dump)))) (\<lambda>_. kret ())"

definition tick :: "(kern, unit) kop" where
  "tick = kseq (kmod (\<lambda>s. s\<lparr>ticks := ticks s + 1\<rparr>)) (wakeup ChanTicks)"

definition trap_irq :: "nat \<Rightarrow> nat option \<Rightarrow> devices \<Rightarrow> trapframe \<Rightarrow> (kern, unit) kop" where
  "trap_irq cpu cur dv tf = (let no = tf_trapno tf in
     if no = T_IRQ0 + IRQ_TIMER then if cpu = 0 then tick else kret ()
     else if no = T_IRQ0 + IRQ_IDE then kret ()
     else if no = T_IRQ0 + IRQ_IDE + 1 then kret ()
     else if no = T_IRQ0 + IRQ_KBD then console_irq (dv_kbd dv)
     else if no = T_IRQ0 + IRQ_COM1 then console_irq (dv_uart dv)
     else if no = T_IRQ0 + 7 \<or> no = T_IRQ0 + IRQ_SPURIOUS then kret ()
     else case cur of
       None \<Rightarrow> panic ''trap''
     | Some p \<Rightarrow>
         if tf_cs tf AND 3 = 0 then panic ''trap''
         else upd_proc p (\<lambda>x. x\<lparr>p_killed := True\<rparr>))"

text \<open>Whether the process goes on after a test of \<^verbatim>\<open>killed\<close>; an exited process does not.\<close>

definition exit_if_killed :: "konf \<Rightarrow> nat option \<Rightarrow> bool \<Rightarrow> (kern, bool) kop" where
  "exit_if_killed k cur user = (case cur of
     None \<Rightarrow> kret True
   | Some p \<Rightarrow> kbind (the_proc p) (\<lambda>x.
       if p_killed x \<and> user then kseq (exit_proc k p) (kret False) else kret True))"

definition trap :: "konf \<Rightarrow> nat \<Rightarrow> nat option \<Rightarrow> devices \<Rightarrow> trapframe \<Rightarrow> (kern, unit) kop" where
  "trap k cpu cur dv tf =
     (if tf_trapno tf = T_SYSCALL then
        (case cur of
           None \<Rightarrow> panic ''trap''
         | Some p \<Rightarrow>
             kbind (exit_if_killed k cur True) (\<lambda>go.
             if \<not> go then kret ()
             else
               kseq (upd_proc p (\<lambda>x. x\<lparr>p_tf := tf\<rparr>)) (
               kseq (syscall k p) (
               kbind (exit_if_killed k cur True) (\<lambda>_. kret ())))))
      else
        kseq (trap_irq cpu cur dv tf) (
        kbind (exit_if_killed k cur (tf_cs tf AND 3 = DPL_USER)) (\<lambda>go.
        case cur of
          None \<Rightarrow> kret ()
        | Some p \<Rightarrow>
            if \<not> go then kret ()
            else
              kbind (the_proc p) (\<lambda>x.
              if p_state x = RUNNING \<and> tf_trapno tf = T_IRQ0 + IRQ_TIMER then yield p
              else kbind (exit_if_killed k cur (tf_cs tf AND 3 = DPL_USER)) (\<lambda>_. kret ())))))"

end
