(* ===== verification/Scheduling.thy ===== *)
theory Scheduling
  imports Exec
begin

text \<open>
  Which processes run: no system call, interrupt or trap handler makes a process \<^verbatim>\<open>RUNNING\<close>
  or takes the processor from another one.  Together with the scheduler's own steps this gives
  that a process never runs on two processors.
\<close>

section \<open>Running processes are left alone\<close>

definition running :: "kern \<Rightarrow> nat \<Rightarrow> bool" where
  "running s i \<longleftrightarrow> i < length (ptable s) \<and> p_state (ptable s ! i) = RUNNING"

definition run_frame :: "nat \<Rightarrow> kern \<Rightarrow> kern \<Rightarrow> bool" where
  "run_frame cur s t \<longleftrightarrow> cpu_proc t = cpu_proc s \<and> length (ptable t) = length (ptable s) \<and>
     (\<forall>i. i \<noteq> cur \<longrightarrow> running t i = running s i) \<and> (running t cur \<longrightarrow> running s cur)"

definition idle :: "nat \<Rightarrow> nat \<Rightarrow> kern \<Rightarrow> bool" where
  "idle cur np s \<longleftrightarrow> np = cur \<or> \<not> running s np"

interpretation rf: framing "\<lambda>_. True" "run_frame cur" for cur
  by unfold_locales (auto simp: run_frame_def)

interpretation ri: framing "idle cur np" "run_frame cur" for cur np
  by unfold_locales (auto simp: run_frame_def idle_def)

lemma kframe_weaken: "kframe (\<lambda>_. True) R m \<Longrightarrow> kframe P R m"
  by (simp add: kframe_def)

lemma wake_proc_running: "(p_state (wake_proc c x) = RUNNING) = (p_state x = RUNNING)"
  by (simp add: wake_proc_def)

lemma wake_list_running: "length (wake_list cs ps) = length ps \<and>
    (\<forall>i<length ps. (p_state (wake_list cs ps ! i) = RUNNING) = (p_state (ps ! i) = RUNNING))"
  unfolding wake_list_def
proof (induction cs arbitrary: ps)
  case (Cons c cs)
  then show ?case using Cons [of "map (wake_proc c) ps"] by (simp add: wake_proc_running)
qed simp

lemma inff_run: "kframe P (run_frame cur) (inff m)"
  unfolding kframe_def inff_def
  using wake_list_running by (auto simp: run_frame_def running_def split: prod.splits)

lemma inmem_run: "kframe P (run_frame cur) (inmem m)"
  unfolding inmem_def by (rule inff_run)

lemma infs_run: "kframe P (run_frame cur) (infs m)"
  unfolding infs_def by (rule inff_run)

lemma the_proc_run: "kframe P (run_frame cur) (the_proc p)"
  unfolding the_proc_def by (rule kframe_weaken [OF rf.kframe_kget])

lemma upd_proc_running:
  "snd (upd_proc p f s) = s\<lparr>ptable := (ptable s)[p := f (ptable s ! p)]\<rparr>"
  "running (s\<lparr>ptable := (ptable s)[p := f (ptable s ! p)]\<rparr>) i =
    (if i = p \<and> p < length (ptable s) then p_state (f (ptable s ! p)) = RUNNING else running s i)"
  by (simp add: upd_proc_def kmod_def) (cases "i = p"; simp add: running_def)

lemma upd_proc_run:
  assumes "\<And>x. (p_state (f x) = RUNNING) = (p_state x = RUNNING)"
  shows "kframe P (run_frame cur) (upd_proc p f)"
  unfolding kframe_def upd_proc_running(1) run_frame_def upd_proc_running(2) assms by (simp add: running_def)

lemma upd_proc_cur:
  assumes "\<And>x. p_state (f x) = RUNNING \<Longrightarrow> p_state x = RUNNING"
  shows "kframe P (run_frame cur) (upd_proc cur f)"
  unfolding kframe_def upd_proc_running(1) run_frame_def upd_proc_running(2) using assms by (simp add: running_def)

lemma upd_proc_idle:
  assumes "\<And>x. p_state (f x) = RUNNING \<Longrightarrow> p_state x = RUNNING"
  shows "kframe (idle cur np) (run_frame cur) (upd_proc np f)"
  unfolding kframe_def upd_proc_running(1) run_frame_def upd_proc_running(2) idle_def using assms by (auto simp: running_def)

lemma kmod_run:
  assumes "\<And>s. ptable (f s) = ptable s" and "\<And>s. cpu_proc (f s) = cpu_proc s"
  shows "kframe P (run_frame cur) (kmod f)"
  using assms by (simp add: kframe_def kmod_def run_frame_def running_def)

lemma wakeup1_run: "kframe P (run_frame cur) (wakeup1 c)"
  by (auto simp: kframe_def wakeup1_def kmod_def run_frame_def running_def wake_proc_running)

lemma wakeup_run: "kframe P (run_frame cur) (wakeup c)"
  unfolding wakeup_def by (rule wakeup1_run)

lemmas run_base = inff_run inmem_run infs_run the_proc_run wakeup1_run wakeup_run

section \<open>Processes\<close>

lemma allocproc_exec:
  "kframe P (run_frame cur) (allocproc k) \<and> (\<forall>s np t. allocproc k s = (Ret (Some np), t) \<longrightarrow> idle cur np t)"
proof (intro conjI allI impI)
  let ?rest = "\<lambda>p. kbind (inmem kalloc) (\<lambda>st.
       kseq (upd_proc p (\<lambda>x. x\<lparr>p_kstack := st\<rparr>)) (
       if st = 0 then kseq (upd_proc p (\<lambda>x. x\<lparr>p_state := UNUSED\<rparr>)) (kret None)
       else kseq (upd_proc p (\<lambda>x. x\<lparr>p_context := \<lparr>cx_edi = 0, cx_esi = 0, cx_ebx = 0, cx_ebp = 0, cx_eip = k_forkret k\<rparr>\<rparr>))
              (kret (Some p))))"
  have rest: "kframe (idle cur p) (run_frame cur) (?rest p)" for p
    by (auto intro!: ri.kframe_rules inmem_run upd_proc_idle)
  have claim: "run_frame cur s (s\<lparr>ptable := ps, nextpid := n\<rparr>) \<and> idle cur p (s\<lparr>ptable := ps, nextpid := n\<rparr>)"
    if "proc_slot m (ptable s) = Some (p, ps)" for s p ps m n
  proof -
    have p: "p < length (ptable s)" "p_state (ptable s ! p) = UNUSED" "ps = (ptable s)[p := claim_proc m (ptable s ! p)]"
      using that by (auto dest: pst.alloc_Some)
    have "running (s\<lparr>ptable := ps, nextpid := n\<rparr>) i = (i \<noteq> p \<and> running s i)" for i
      using p by (cases "i = p") (simp_all add: running_def claim_proc_def)
    moreover have "\<not> running s p" using p(2) by (simp add: running_def)
    ultimately show ?thesis using p(3) by (auto simp: run_frame_def idle_def)
  qed
  have step: "allocproc k s = (case proc_slot (nextpid s) (ptable s) of None \<Rightarrow> (Ret None, s)
     | Some (p, ps) \<Rightarrow> ?rest p (s\<lparr>ptable := ps, nextpid := nextpid s + 1\<rparr>))" for s
    by (simp add: allocproc_def)
  show "kframe P (run_frame cur) (allocproc k)"
    unfolding kframe_def
  proof (intro allI impI)
    fix s
    show "run_frame cur s (snd (allocproc k s))"
    proof (cases "proc_slot (nextpid s) (ptable s)")
      case None
      then show ?thesis by (simp add: step rf.R_refl)
    next
      case (Some a)
      obtain p ps where a: "a = (p, ps)" by fastforce
      let ?s = "s\<lparr>ptable := ps, nextpid := nextpid s + 1\<rparr>"
      have c: "run_frame cur s ?s" "idle cur p ?s" using claim Some a by auto
      have "run_frame cur ?s (snd (?rest p ?s))" using rest [of p] c(2) by (simp add: kframe_def)
      then show ?thesis using rf.R_trans [OF c(1)] Some a by (simp add: step)
    qed
  qed
  fix s np t assume al: "allocproc k s = (Ret (Some np), t)"
  then obtain ps where slot: "proc_slot (nextpid s) (ptable s) = Some (np, ps)"
    by (auto simp: step kbind_def kseq_def kret_def split: option.splits prod.splits res.splits if_splits)
  let ?s = "s\<lparr>ptable := ps, nextpid := nextpid s + 1\<rparr>"
  have "?rest np ?s = (Ret (Some np), t)" using al slot by (simp add: step)
  then have "run_frame cur ?s t" using rest [of np] claim [OF slot] by (auto dest: kframeD)
  then show "idle cur np t" using claim [OF slot] ri.P_stable by blast
qed

lemma with_new_proc:
  assumes "kframe (\<lambda>_. True) (run_frame cur) a" and "\<And>np. kframe (idle cur np) (run_frame cur) (b np)"
  shows "kframe P (run_frame cur) (kbind (allocproc k) (\<lambda>r. case r of None \<Rightarrow> a | Some np \<Rightarrow> b np))"
  unfolding kframe_def
proof (intro allI impI)
  let ?f = "\<lambda>r. case r of None \<Rightarrow> a | Some np \<Rightarrow> b np"
  fix s
  obtain r t where t: "allocproc k s = (r, t)" by fastforce
  have st: "run_frame cur s t" using allocproc_exec [of "\<lambda>_. True" cur k] t by (auto dest: kframeD)
  show "run_frame cur s (snd (kbind (allocproc k) ?f s))"
  proof (cases r)
    case (Ret x)
    show ?thesis
    proof (cases x)
      case None
      then have "run_frame cur t (snd (a t))" using assms(1) by (simp add: kframe_def)
      then show ?thesis using t Ret None rf.R_trans [OF st] by (simp add: kbind_def)
    next
      case (Some np)
      then have "idle cur np t" using allocproc_exec [of "\<lambda>_. True" cur k] t Ret by blast
      then have "run_frame cur t (snd (b np t))" using assms(2) [of np] by (simp add: kframe_def)
      then show ?thesis using t Ret Some rf.R_trans [OF st] by (simp add: kbind_def)
    qed
  qed (use t st in \<open>simp_all add: kbind_def\<close>)
qed

lemma dup_files_run: "kframe (idle cur np) (run_frame cur) (dup_files cur np is)"
  by (induction "is") (auto intro!: ri.kframe_rules run_base upd_proc_run)

lemma fork_run: "kframe P (run_frame cur) (fork k cur)"
  unfolding fork_def
  by (rule with_new_proc) (auto intro!: rf.kframe_rules ri.kframe_rules run_base upd_proc_idle dup_files_run)

lemma thread_create_run: "kframe P (run_frame cur) (thread_create k cur fcn arg stack)"
  unfolding thread_create_def
  by (rule with_new_proc) (auto intro!: rf.kframe_rules ri.kframe_rules run_base upd_proc_idle dup_files_run)

lemma share_size_run: "kframe P (run_frame cur) (kmod (\<lambda>s. s\<lparr>ptable := share_size c (ptable s)\<rparr>))"
  by (auto simp: kframe_def kmod_def run_frame_def running_def share_size_def split: if_splits)

lemma growproc_run: "kframe P (run_frame cur) (growproc k cur n)"
proof -
  have set: "kframe (\<lambda>_. True) (run_frame cur) (set_size cur sz)" for sz
    unfolding set_size_def by (intro rf.kframe_rules run_base upd_proc_run share_size_run) simp_all
  show ?thesis unfolding growproc_def
    by (rule kframe_weaken) (auto intro!: rf.kframe_rules run_base set)
qed

lemma close_files_run: "kframe (\<lambda>_. True) (run_frame cur) (close_files k cur fds)"
  by (induction fds) (auto intro!: rf.kframe_rules run_base upd_proc_run)

lemma reparent_run: "kframe (\<lambda>_. True) (run_frame cur) (reparent_loop cur ps)"
  by (induction ps) (auto intro!: rf.kframe_rules run_base upd_proc_run)

lemma exit_run: "kframe P (run_frame cur) (exit_common k cur)"
  unfolding exit_common_def
  by (rule kframe_weaken)
    (auto intro!: rf.kframe_rules run_base upd_proc_cur close_files_run reparent_run)

lemma wait_kid_run: "kframe P (run_frame cur) (wait_kid k thr cur)"
  unfolding kframe_def
proof (intro allI impI)
  fix s
  show "run_frame cur s (snd (wait_kid k thr cur s))"
  proof (cases "first_idx (\<lambda>p. is_kid thr cur p \<and> p_state p = ZOMBIE) (ptable s)")
    case None
    then show ?thesis by (simp add: wait_kid_def rf.R_refl)
  next
    case (Some z)
    then have "p_state (ptable s ! z) = ZOMBIE" by (simp add: first_idx_Some)
    then have "idle cur z s" by (simp add: idle_def running_def)
    moreover have "kframe (idle cur z) (run_frame cur) (kseq (inmem (kfree (k_end k) (p_kstack p))) (
          kseq (upd_proc z (\<lambda>x. x\<lparr>p_kstack := 0\<rparr>)) (
          kseq (if thr then kret () else inmem (freevm (k_end k) (p_pgdir p))) (
          kseq (upd_proc z reap) (
          kret (sint (p_pid p)))))))" for p :: proc
      by (auto intro!: ri.kframe_rules run_base upd_proc_idle simp: reap_def)
    ultimately show ?thesis using Some by (simp add: wait_kid_def Let_def kframe_def split del: if_split)
  qed
qed

lemma kill_run: "kframe P (run_frame cur) (kill pid)"
  unfolding kframe_def
proof (intro allI impI)
  fix s
  have "kframe (\<lambda>_. True) (run_frame cur) (kseq (upd_proc i (\<lambda>x. x\<lparr>p_killed := True\<rparr>)) (
         kseq (upd_proc i (\<lambda>x. if p_state x = SLEEPING then x\<lparr>p_state := RUNNABLE\<rparr> else x)) (kret (0 :: int))))" for i
    by (auto intro!: rf.kframe_rules upd_proc_run split: if_splits)
  then show "run_frame cur s (snd (kill pid s))"
    by (auto simp: kill_def kframe_def rf.R_refl split: option.splits)
qed

lemma getmeminfo_run: "kframe P (run_frame cur) (getmeminfo c pid name len)"
  unfolding kframe_def
proof (intro allI impI)
  fix s
  have "kframe (\<lambda>_. True) (run_frame cur) (kseq (inmem m) (kbind (inmem n) (\<lambda>l. kret (f l))))" for m n and f :: "nat \<Rightarrow> u32"
    by (auto intro!: rf.kframe_rules run_base)
  then show "run_frame cur s (snd (getmeminfo c pid name len s))"
    by (auto simp: getmeminfo_def kframe_def rf.R_refl Let_def split: option.splits)
qed

lemma thread_sleep_run: "kframe P (run_frame cur) (thread_sleep (Some cur) c lk)"
  unfolding thread_sleep_def mutex_unlock_def
  by (rule kframe_weaken) (auto intro!: rf.kframe_rules run_base upd_proc_cur)

lemmas run_proc = fork_run thread_create_run growproc_run exit_run wait_kid_run kill_run getmeminfo_run thread_sleep_run

section \<open>System calls\<close>

lemma fetchint_run: "kframe (\<lambda>_. True) (run_frame cur) (fetchint cur a)"
  unfolding fetchint_def by (auto intro!: rf.kframe_rules run_base)

lemma fetchstr_loop_run: "kframe (\<lambda>_. True) (run_frame cur) (fetchstr_loop d n va acc)"
  by (induction d n va acc rule: fetchstr_loop.induct) (auto intro!: rf.kframe_rules run_base)

lemma fetchstr_run: "kframe (\<lambda>_. True) (run_frame cur) (fetchstr cur a)"
  unfolding fetchstr_def by (auto intro!: rf.kframe_rules run_base fetchstr_loop_run)

lemma args_run:
  "kframe (\<lambda>_. True) (run_frame cur) (argint cur n)" "kframe (\<lambda>_. True) (run_frame cur) (argptr cur n len)"
  "kframe (\<lambda>_. True) (run_frame cur) (argstr cur n)" "kframe (\<lambda>_. True) (run_frame cur) (argfd cur n)"
  unfolding argint_def argptr_def argstr_def argfd_def
  by (auto intro!: rf.kframe_rules run_base fetchint_run fetchstr_run)

lemma need_run:
  "kframe (\<lambda>_. True) (run_frame cur) m \<Longrightarrow> (\<And>x. kframe (\<lambda>_. True) (run_frame cur) (f x)) \<Longrightarrow>
   kframe (\<lambda>_. True) (run_frame cur) (need m f)"
  unfolding need_def by (auto intro!: rf.kframe_rules)

lemma sysproc_run:
  "kframe (\<lambda>_. True) (run_frame cur) (sys_fork k cur)" "kframe (\<lambda>_. True) (run_frame cur) (sys_exit k cur)"
  "kframe (\<lambda>_. True) (run_frame cur) (sys_wait k cur)" "kframe (\<lambda>_. True) (run_frame cur) (sys_kill cur)"
  "kframe (\<lambda>_. True) (run_frame cur) (sys_getpid cur)" "kframe (\<lambda>_. True) (run_frame cur) (sys_sbrk k cur)"
  "kframe (\<lambda>_. True) (run_frame cur) (sys_sleep cur)" "kframe (\<lambda>_. True) (run_frame cur) (sys_uptime cur)"
  "kframe (\<lambda>_. True) (run_frame cur) (sys_memtop_int cur)" "kframe (\<lambda>_. True) (run_frame cur) (sys_getmeminfo cur)"
  "kframe (\<lambda>_. True) (run_frame cur) (sys_thread_create k cur)" "kframe (\<lambda>_. True) (run_frame cur) (sys_thread_join k cur)"
  "kframe (\<lambda>_. True) (run_frame cur) (sys_thread_exit k cur)" "kframe (\<lambda>_. True) (run_frame cur) (sys_thread_sleep cur)"
  "kframe (\<lambda>_. True) (run_frame cur) (sys_thread_wakeup cur)"
  unfolding sys_fork_def sys_exit_def exit_proc_def sys_wait_def wait_proc_def sys_kill_def sys_getpid_def sys_sbrk_def
    sys_sleep_def sleep_check_def sys_uptime_def sys_memtop_int_def sys_memtop_def sys_getmeminfo_def sys_thread_create_def
    sys_thread_join_def thread_join_def sys_thread_exit_def thread_exit_def sys_thread_sleep_def sys_thread_wakeup_def
  by (auto intro!: rf.kframe_rules run_base run_proc args_run need_run)

lemma fdalloc_run: "kframe (\<lambda>_. True) (run_frame cur) (fdalloc cur f)"
  unfolding fdalloc_def by (auto intro!: rf.kframe_rules run_base upd_proc_run)

lemma names_run:
  "kframe (\<lambda>_. True) (run_frame cur) (op_fail me)" "kframe (\<lambda>_. True) (run_frame cur) (add_nlink me ip d)"
  "kframe (\<lambda>_. True) (run_frame cur) (link_bad me ip)" "kframe (\<lambda>_. True) (run_frame cur) (unlink_bad me ip)"
  "kframe (\<lambda>_. True) (run_frame cur) (open_fail me ip)" "kframe (\<lambda>_. True) (run_frame cur) (drop_inode me ip)"
  "kframe (\<lambda>_. True) (run_frame cur) (make_dots me ip dp)"
  unfolding link_bad_def unlink_bad_def open_fail_def drop_inode_def make_dots_def op_fail_def add_nlink_def
  by (auto intro!: rf.kframe_rules run_base)

lemma create_run: "kframe (\<lambda>_. True) (run_frame cur) (create me cwd path type major minor)"
  unfolding create_def by (auto intro!: rf.kframe_rules run_base names_run)

lemma open_inode_run: "kframe (\<lambda>_. True) (run_frame cur) (open_inode me cwd path omode)"
  unfolding open_inode_def by (auto intro!: rf.kframe_rules run_base create_run)

lemma mknod_path_run: "kframe (\<lambda>_. True) (run_frame cur) (mknod_path cur)"
  unfolding mknod_path_def by (auto intro!: rf.kframe_rules args_run)

lemmas sysfile_rules = rf.kframe_rules run_base args_run need_run fdalloc_run names_run create_run open_inode_run
  mknod_path_run upd_proc_run

lemma sysfile_run:
  "kframe (\<lambda>_. True) (run_frame cur) (sys_dup cur)" "kframe (\<lambda>_. True) (run_frame cur) (sys_read cur)"
  "kframe (\<lambda>_. True) (run_frame cur) (sys_write cur)" "kframe (\<lambda>_. True) (run_frame cur) (sys_close k cur)"
  "kframe (\<lambda>_. True) (run_frame cur) (sys_fstat cur)" "kframe (\<lambda>_. True) (run_frame cur) (sys_link cur)"
  "kframe (\<lambda>_. True) (run_frame cur) (sys_unlink cur)" "kframe (\<lambda>_. True) (run_frame cur) (sys_open k cur)"
  "kframe (\<lambda>_. True) (run_frame cur) (sys_mkdir cur)" "kframe (\<lambda>_. True) (run_frame cur) (sys_mknod cur)"
  "kframe (\<lambda>_. True) (run_frame cur) (sys_chdir cur)" "kframe (\<lambda>_. True) (run_frame cur) (sys_pipe k cur)"
  unfolding sys_dup_def sys_read_def sys_write_def sys_close_def sys_fstat_def sys_link_def sys_unlink_def sys_open_def
    sys_mkdir_def sys_mknod_def sys_chdir_def sys_pipe_def
  by (auto intro!: sysfile_rules)

section \<open>Loading programs\<close>

lemma loaduvm_run: "kframe (\<lambda>_. True) (run_frame cur) (loaduvm me killed pgdir addr ip offset sz)"
proof -
  have "kframe (\<lambda>_. True) (run_frame cur) (loaduvm_loop me killed pgdir addr ip offset sz is)" for "is"
    by (induction "is") (auto intro!: rf.kframe_rules run_base)
  then show ?thesis unfolding loaduvm_def by (auto intro!: rf.kframe_rules)
qed

lemma exec_load_run: "kframe (\<lambda>_. True) (run_frame cur) (exec_load k me killed ip pgdir offs sz)"
  by (induction offs arbitrary: sz) (auto intro!: rf.kframe_rules run_base loaduvm_run)

lemma exec_args_run: "kframe (\<lambda>_. True) (run_frame cur) (exec_args pgdir args sp ustack)"
  by (induction args arbitrary: sp ustack) (auto intro!: rf.kframe_rules run_base)

lemma exec_bad_run: "kframe (\<lambda>_. True) (run_frame cur) (exec_bad k me pgdir ip)"
  unfolding exec_bad_def by (auto intro!: rf.kframe_rules run_base)

lemma exec_stack_run: "kframe (\<lambda>_. True) (run_frame cur) (exec_stack k me cur path argv elf pgdir sz)"
  unfolding exec_stack_def by (auto intro!: rf.kframe_rules run_base upd_proc_run exec_args_run exec_bad_run)

lemma exec_proc_run: "kframe (\<lambda>_. True) (run_frame cur) (exec_proc k cur path argv)"
  unfolding exec_proc_def
  by (auto intro!: rf.kframe_rules run_base exec_load_run exec_bad_run exec_stack_run names_run)

lemma sys_exec_run: "kframe (\<lambda>_. True) (run_frame cur) (sys_exec k cur)"
proof -
  have "kframe (\<lambda>_. True) (run_frame cur) (exec_argv cur uargv is acc)" for uargv "is" acc
    by (induction "is" arbitrary: acc) (auto intro!: rf.kframe_rules fetchint_run fetchstr_run)
  then show ?thesis unfolding sys_exec_def by (auto intro!: need_run args_run exec_proc_run)
qed

section \<open>Dispatch\<close>

lemma syscalls_run: "m \<in> set (syscalls k cur) \<Longrightarrow> kframe (\<lambda>_. True) (run_frame cur) m"
  unfolding syscalls_def by (auto intro: sysproc_run sysfile_run sys_exec_run)

lemma set_eax_run: "kframe (\<lambda>_. True) (run_frame cur) (set_eax cur r)"
  unfolding set_eax_def by (auto intro!: upd_proc_run)

lemma syscall_run: "kframe (\<lambda>_. True) (run_frame cur) (syscall k cur)"
  unfolding syscall_def
  by (auto intro!: rf.kframe_rules run_base syscalls_run set_eax_run nth_mem simp: nat_less_iff)

lemma trap_irq_run: "kframe (\<lambda>_. True) (run_frame cur) (trap_irq c (Some cur) dv tf)"
  unfolding trap_irq_def console_irq_def tick_def by (auto intro!: rf.kframe_rules run_base upd_proc_run kmod_run)

lemma exit_if_killed_run: "kframe (\<lambda>_. True) (run_frame cur) (exit_if_killed k (Some cur) user)"
  unfolding exit_if_killed_def exit_proc_def by (auto intro!: rf.kframe_rules run_base exit_run)

lemma trap_run: "kframe (\<lambda>_. True) (run_frame cur) (trap k c (Some cur) dv tf)"
  unfolding trap_def yield_def
  by (auto intro!: rf.kframe_rules run_base upd_proc_run upd_proc_cur syscall_run trap_irq_run exit_if_killed_run)

section \<open>The processors\<close>

lemma trap_idle_run: "kframe (\<lambda>_. True) (run_frame cur) (trap k c None dv tf)"
  unfolding trap_def trap_irq_def console_irq_def tick_def exit_if_killed_def
  by (auto intro!: rf.kframe_rules run_base upd_proc_run kmod_run)

text \<open>
  What happens to processor \<open>c\<close> when the kernel code it ran for process \<open>p\<close> has ended: a call
  that sleeps or that changed the process's state goes back to the scheduler.  A call that slept
  starts again when the process next runs: the steps cover every trap, so in particular the rest
  of that call, but the theory does not tie the two runs together.
\<close>

fun after :: "nat \<Rightarrow> nat \<Rightarrow> unit res \<Rightarrow> kern \<Rightarrow> kern option" where
  "after c p (Ret _) u = Some (if p_state (ptable u ! p) = RUNNING then u else snd (scheduler_back c u))"
| "after c p (Sleep ch) u = Some (snd (kseq (sleep (Some p) ch True) (scheduler_back c) u))"
| "after c p (Panic e) u = None"

text \<open>
  The system: a processor without a process picks one in its scan of the table or takes an
  interrupt; a processor with a process takes a trap, that is a system call, an interrupt or a
  fault, with any trap frame and any device input.
\<close>

inductive sched_step :: "konf \<Rightarrow> kern \<Rightarrow> kern \<Rightarrow> bool" for k where
  pick: "cpu_proc s c = None \<Longrightarrow> i < length (ptable s) \<Longrightarrow> scheduler_round c i s = (Ret True, t) \<Longrightarrow> sched_step k s t"
| irq: "cpu_proc s c = None \<Longrightarrow> trap k c None dv tf s = (Ret (), t) \<Longrightarrow> sched_step k s t"
| enter: "cpu_proc s c = Some p \<Longrightarrow> trap k c (Some p) dv tf s = (r, u) \<Longrightarrow> after c p r u = Some t \<Longrightarrow> sched_step k s t"

definition sched_start :: "kern \<Rightarrow> bool" where
  "sched_start s \<longleftrightarrow> (\<forall>c. cpu_proc s c = None) \<and> (\<forall>i. \<not> running s i)"

definition sched_inv :: "kern \<Rightarrow> bool" where
  "sched_inv s \<longleftrightarrow> (\<forall>i. running s i \<longleftrightarrow> (\<exists>c. cpu_proc s c = Some i)) \<and>
     (\<forall>c d i. cpu_proc s c = Some i \<longrightarrow> cpu_proc s d = Some i \<longrightarrow> c = d)"

lemma sched_inv_frame: "sched_inv s \<Longrightarrow> run_frame cur s t \<Longrightarrow> running t cur = running s cur \<Longrightarrow> sched_inv t"
  unfolding sched_inv_def run_frame_def by metis

lemma sched_inv_back:
  assumes inv: "sched_inv s" and fr: "run_frame p s u" and c: "cpu_proc s c = Some p" and off: "\<not> running u p"
  shows "sched_inv (u\<lparr>cpu_proc := (cpu_proc u)(c := None)\<rparr>)"
proof -
  let ?t = "u\<lparr>cpu_proc := (cpu_proc u)(c := None)\<rparr>"
  have r: "running ?t i = running u i" for i by (simp add: running_def)
  have cp: "cpu_proc u = cpu_proc s" using fr by (simp add: run_frame_def)
  have ct: "cpu_proc ?t d = (if d = c then None else cpu_proc s d)" for d using cp by simp
  have uniq: "\<And>c d i. cpu_proc s c = Some i \<Longrightarrow> cpu_proc s d = Some i \<Longrightarrow> c = d" using inv by (simp add: sched_inv_def)
  have "running ?t i \<longleftrightarrow> (\<exists>d. cpu_proc ?t d = Some i)" for i
  proof (cases "i = p")
    case True
    then have "\<nexists>d. cpu_proc ?t d = Some i" using uniq c cp by auto
    then show ?thesis using True off r by simp
  next
    case False
    then have "running ?t i = running s i" using fr r by (simp add: run_frame_def)
    also have "\<dots> = (\<exists>d. cpu_proc s d = Some i)" using inv by (simp add: sched_inv_def)
    also have "\<dots> = (\<exists>d. cpu_proc ?t d = Some i)" 
      unfolding ct using False c by (metis option.distinct(1) option.inject)
    finally show ?thesis .
  qed
  moreover have "cpu_proc ?t d = Some i \<Longrightarrow> cpu_proc ?t e = Some i \<Longrightarrow> d = e" for d e i
    unfolding ct using uniq [of d i e] by (cases "d = c"; cases "e = c") simp_all
  ultimately show ?thesis unfolding sched_inv_def by blast
qed

lemma sched_inv_step: "sched_inv s \<Longrightarrow> sched_step k s t \<Longrightarrow> sched_inv t"
proof (erule sched_step.cases, goal_cases)
  case (1 s' c i t')
  have st: "p_state (ptable s ! i) = RUNNABLE" "t = s\<lparr>cpu_proc := (cpu_proc s)(c := Some i), ptable := (ptable s)[i := (ptable s ! i)\<lparr>p_state := RUNNING\<rparr>]\<rparr>"
    using 1 by (auto simp: scheduler_round_def the_proc_def upd_proc_def kop_defs split: if_splits)
  have i: "i < length (ptable s)" "cpu_proc s c = None" using 1 by simp_all
  have r: "running t j = (j = i \<or> running s j)" for j using st i by (cases "j = i") (simp_all add: running_def)
  have ni: "\<not> running s i" using st by (simp add: running_def)
  then have nc: "cpu_proc s d \<noteq> Some i" for d using 1(1) by (auto simp: sched_inv_def)
  have cp: "cpu_proc t d = (if d = c then Some i else cpu_proc s d)" for d using st by simp
  show ?case unfolding sched_inv_def r cp using 1(1) nc i(2) by (auto simp: sched_inv_def) (metis option.distinct(1))
next
  case (2 s' c dv tf t')
  have "run_frame (length (ptable s)) s t" using trap_idle_run [of "length (ptable s)" k c dv tf] 2 by (auto dest: kframeD)
  moreover from this have "running t (length (ptable s)) = running s (length (ptable s))" by (simp add: run_frame_def running_def)
  ultimately show ?case using sched_inv_frame 2(1) by blast
next
  case (3 s' c p dv tf r u t')
  have fr: "run_frame p s u" using trap_run [of p k c dv tf] 3 by (auto dest: kframeD)
  have c: "cpu_proc s c = Some p" using 3 by simp
  then have run: "running s p" using 3(1) by (auto simp: sched_inv_def)
  then have lp: "p < length (ptable u)" using fr by (simp add: running_def run_frame_def)
  show ?case
  proof (cases r)
    case (Ret x)
    show ?thesis
    proof (cases "p_state (ptable u ! p) = RUNNING")
      case True
      then have "running u p" using lp by (simp add: running_def)
      then show ?thesis using sched_inv_frame [OF 3(1) fr] run 3 Ret True by simp
    next
      case False
      then have "\<not> running u p" by (simp add: running_def)
      then show ?thesis using sched_inv_back [OF 3(1) fr c] 3 Ret False by (simp add: scheduler_back_def kmod_def)
    qed
  next
    case (Sleep ch)
    let ?u = "snd (sleep (Some p) ch True u)"
    have u: "?u = u\<lparr>ptable := (ptable u)[p := (ptable u ! p)\<lparr>p_chan := ch, p_state := SLEEPING\<rparr>]\<rparr>"
      by (simp add: sleep_def upd_proc_def kmod_def)
    have "kframe (\<lambda>_. True) (run_frame p) (sleep (Some p) ch True)"
      unfolding sleep_def by (auto intro!: upd_proc_cur)
    then have "run_frame p u ?u" by (auto simp: kframe_def)
    then have fr': "run_frame p s ?u" using rf.R_trans [OF fr] by blast
    have "\<not> running ?u p" using lp u by (simp add: running_def)
    moreover have "t = ?u\<lparr>cpu_proc := (cpu_proc ?u)(c := None)\<rparr>"
      using 3 Sleep by (simp add: sleep_def upd_proc_def scheduler_back_def kop_defs)
    ultimately show ?thesis using sched_inv_back [OF 3(1) fr' c] by simp
  qed (use 3 in simp)
qed

interpretation sc: state_machine sched_start "sched_step k" sched_inv for k
proof
  show "sched_start s \<Longrightarrow> sched_inv s" for s by (simp add: sched_start_def sched_inv_def)
qed (rule sched_inv_step)

text \<open>A small machine for examples: two pages free, an empty disk, two processes ready to run.\<close>

definition ex_inode :: inode where
  "ex_inode = \<lparr>i_dev = 0, i_inum = 0, i_ref = 0, i_lock = initsleeplock, i_valid = False, i_type = 0, i_major = 0,
     i_minor = 0, i_nlink = 0, i_size = 0, i_addrs = replicate (NDIRECT + 1) 0\<rparr>"

definition ex_fsys :: fsys where
  "ex_fsys = \<lparr>fs_ld = boot ex_disk, fs_sb = decode_sb (ex_disk 1 1), icache = replicate NINODE ex_inode,
     devsw = replicate 10 (None, None), fs_cons = ex_console, fs_wake = []\<rparr>"

definition ex_file :: open_file where
  "ex_file = \<lparr>f_type = FD_NONE, f_ref = 0, f_readable = False, f_writable = False, f_pipe = 0, f_ip = 0, f_off = 0\<rparr>"

definition ex_files :: files where
  "ex_files = \<lparr>ff_fs = ex_fsys, ff_mem = two_pages, ftable = replicate NFILE ex_file, pipes = (\<lambda>_. pipe_init (\<lambda>_. 0))\<rparr>"

definition ex_proc :: "procstate \<Rightarrow> u32 \<Rightarrow> proc" where
  "ex_proc st pid = \<lparr>p_sz = 0x1000, p_pgdir = 0x80400000, p_kstack = 0, p_state = st, p_pid = pid, p_parent = None,
     p_tf = init_frame, p_context = \<lparr>cx_edi = 0, cx_esi = 0, cx_ebx = 0, cx_ebp = 0, cx_eip = 0\<rparr>, p_chan = ChanNone,
     p_killed = False, p_ofile = replicate NOFILE None, p_cwd = 0, p_name = (\<lambda>_. 0), p_isthread = False\<rparr>"

definition ex_kern :: kern where
  "ex_kern = \<lparr>k_ff = ex_files, ptable = [ex_proc RUNNABLE 1, ex_proc RUNNABLE 2, ex_proc UNUSED 0], nextpid = 3,
     initproc = 0, ticks = 0, fork_first = False, cpu_proc = (\<lambda>_. None)\<rparr>"

definition ex_konf :: konf where
  "ex_konf = \<lparr>k_end = 0x80108000, k_data = 0x80109000, k_forkret = 0x80104000\<rparr>"

section \<open>Property\<close>

text \<open>
  C10. Exclusive execution.  Start with every processor in its scheduler and let the processors pick
  processes, run any system calls, take any interrupts and faults, sleep, exit, wake up and kill
  each other in any order.  Then a process that a processor runs is \<^verbatim>\<open>RUNNING\<close> and no other
  processor runs it, and every \<^verbatim>\<open>RUNNING\<close> process is run by a processor.
\<close>

theorem scheduler_exclusive:
  assumes "reach sched_start (sched_step k) s"
  shows "(cpu_proc s c = Some p \<longrightarrow> p < length (ptable s) \<and> p_state (ptable s ! p) = RUNNING) \<and>
    (cpu_proc s c = Some p \<and> cpu_proc s d = Some p \<longrightarrow> c = d) \<and>
    (p < length (ptable s) \<and> p_state (ptable s ! p) = RUNNING \<longrightarrow> (\<exists>c. cpu_proc s c = Some p))"
  using sc.reach_inv [OF assms] unfolding sched_inv_def running_def by blast

theorem scheduler_exclusive_witness:
  "\<exists>s. reach sched_start (sched_step ex_konf) s \<and> cpu_proc s 0 = Some 1 \<and> cpu_proc s 1 = Some 0 \<and>
     p_state (ptable s ! 1) = RUNNING"
proof -
  have start: "sched_start ex_kern"
    by (auto simp: sched_start_def ex_kern_def running_def ex_proc_def nth_Cons split: nat.splits)
  define s where "s = snd (scheduler_round 0 1 ex_kern)"
  define t where "t = snd (scheduler_round 1 0 s)"
  have s: "scheduler_round 0 1 ex_kern = (Ret True, s)" "cpu_proc ex_kern 0 = None" "1 < length (ptable ex_kern)"
    by (simp_all add: s_def scheduler_round_def the_proc_def upd_proc_def kop_defs ex_kern_def ex_proc_def)
  have t: "scheduler_round 1 0 s = (Ret True, t)" "cpu_proc s 1 = None" "0 < length (ptable s)"
    by (simp_all add: t_def s_def scheduler_round_def the_proc_def upd_proc_def kop_defs ex_kern_def ex_proc_def)
  have r: "reach sched_start (sched_step ex_konf) t"
    using sched_step.pick [OF s(2,3,1)] sched_step.pick [OF t(2,3,1)] reach_start [of sched_start, OF start]
    by (meson reach_step)
  have c: "cpu_proc t 0 = Some 1" "cpu_proc t 1 = Some 0"
    by (simp_all add: t_def s_def scheduler_round_def the_proc_def upd_proc_def kop_defs ex_kern_def ex_proc_def)
  then show ?thesis using r scheduler_exclusive [OF r, of 0 1 0] by blast
qed

end
