(* ===== verification/Call_Safety.thy ===== *)
theory Call_Safety
  imports Scheduling
begin

text \<open>
  What the kernel may rely on about the arguments of system calls, and what goes wrong when a pid is reused.
\<close>

section \<open>Reading user memory\<close>

definition user_mem :: "kern \<Rightarrow> u32 \<Rightarrow> u32" where
  "user_mem s = mem (ff_mem (k_ff s))"

definition user_byte :: "kern \<Rightarrow> nat \<Rightarrow> u32 \<Rightarrow> u8" where
  "user_byte s cur va = get_byte (user_mem s) (kva (user_mem s) (p_pgdir (ptable s ! cur)) va)"

text \<open>No wakeups are pending, and every address below the size of the process is mapped.\<close>

definition image_ok :: "kern \<Rightarrow> nat \<Rightarrow> bool" where
  "image_ok s cur \<longleftrightarrow> fs_wake (ff_fs (k_ff s)) = [] \<and> p_sz (ptable s ! cur) \<le> KERNBASE \<and>
     (\<forall>va < p_sz (ptable s ! cur). mapped (user_mem s) (p_pgdir (ptable s ! cur)) va)"

lemma inmem_state:
  assumes "fs_wake (ff_fs (k_ff s)) = []" "m (ff_mem (k_ff s)) = (r, x)"
  shows "inmem m s = (r, s\<lparr>k_ff := (k_ff s)\<lparr>ff_mem := x\<rparr>\<rparr>)"
proof -
  have "f\<lparr>fs_wake := []\<rparr> = f" if "fs_wake f = []" for f :: fsys using that by (cases f) simp
  then show ?thesis using assms by (simp add: inmem_def inff_def onmem_def zoom_def wake_list_def)
qed

lemma inmem_pure:
  assumes "fs_wake (ff_fs (k_ff s)) = []" "m (ff_mem (k_ff s)) = (r, ff_mem (k_ff s))"
  shows "inmem m s = (r, s)"
  using inmem_state [of s m r "ff_mem (k_ff s)"] assms by simp

lemma user_get_ok:
  assumes "image_ok s cur" "va < p_sz (ptable s ! cur)"
  shows "user_get (p_pgdir (ptable s ! cur)) va (ff_mem (k_ff s)) = (Ret (user_byte s cur va), ff_mem (k_ff s))"
    and "inmem (user_get (p_pgdir (ptable s ! cur)) va) s = (Ret (user_byte s cur va), s)"
proof -
  show g: "user_get (p_pgdir (ptable s ! cur)) va (ff_mem (k_ff s)) = (Ret (user_byte s cur va), ff_mem (k_ff s))"
    using assms by (simp add: user_get_def image_ok_def user_byte_def user_mem_def)
  show "inmem (user_get (p_pgdir (ptable s ! cur)) va) s = (Ret (user_byte s cur va), s)"
    by (rule inmem_pure) (use g assms(1) in \<open>simp_all add: image_ok_def\<close>)
qed

definition user_word :: "kern \<Rightarrow> nat \<Rightarrow> u32 \<Rightarrow> u32" where
  "user_word s cur va = ucast (user_byte s cur va) OR push_bit 8 (ucast (user_byte s cur (va + 1))) OR
     push_bit 16 (ucast (user_byte s cur (va + 2))) OR push_bit 24 (ucast (user_byte s cur (va + 3)))"

lemma below_KERNBASE: "(a :: u32) < b \<Longrightarrow> b \<le> KERNBASE \<Longrightarrow> unat a < 0x80000000"
  by (simp add: word_less_nat_alt word_le_nat_alt KERNBASE_def)

lemma add_small: "unat (a :: u32) + k < 2 ^ 32 \<Longrightarrow> unat (a + of_nat k) = unat a + k"
  by (simp add: unat_word_ariths unat_of_nat)

lemma sint_nonneg:
  assumes "0 \<le> sint (w :: u32)"
  shows "unat w < 2 ^ 31"
proof (rule ccontr)
  assume "\<not> unat w < 2 ^ 31"
  then have "int (2 ^ 31) \<le> int (unat w)" by linarith
  then have u: "2 ^ 31 \<le> uint w" by simp
  have "uint w + 2 ^ 31 = (uint w - 2 ^ 31) + 2 ^ 32" by simp
  then have "(uint w + 2 ^ 31) mod 2 ^ 32 = ((uint w - 2 ^ 31) + 2 ^ 32) mod 2 ^ 32" by (simp only:)
  also have "\<dots> = (uint w - 2 ^ 31) mod 2 ^ 32" by (rule mod_add_self2)
  also have "\<dots> = uint w - 2 ^ 31" using u uint_bounded [of w] by (intro mod_pos_pos_trivial) simp_all
  finally have m: "(uint w + 2 ^ 31) mod 2 ^ 32 = uint w - 2 ^ 31" .
  have "sint w = take_bit 32 (uint w + 2 ^ 31) - 2 ^ 31" by (simp add: sint_uint signed_take_bit_eq_take_bit_shift)
  also have "\<dots> = uint w - 2 ^ 31 - 2 ^ 31" unfolding take_bit_eq_mod m ..
  finally show False using assms uint_bounded [of w] by simp
qed

lemma fetchint_exec:
  assumes "image_ok s cur"
  shows "fetchint cur a s = (Ret (if unat a + 4 \<le> unat (p_sz (ptable s ! cur)) then Some (user_word s cur a) else None), s)"
proof -
  let ?z = "p_sz (ptable s ! cur)"
  have z: "unat ?z \<le> 0x80000000" using assms by (simp add: image_ok_def word_le_nat_alt KERNBASE_def)
  have e: "?z \<le> a \<or> ?z < a + 4 \<longleftrightarrow> \<not> unat a + 4 \<le> unat ?z"
    using z add_small [of a 4] by (cases "?z \<le> a") (auto simp: word_less_nat_alt word_le_nat_alt)
  show ?thesis
  proof (cases "unat a + 4 \<le> unat ?z")
    case True
    have l: "a + of_nat k < ?z" if "k < 4" for k using True z that add_small [of a k] by (simp add: word_less_nat_alt)
    note g = user_get_ok(1) [OF assms l]
    have "user_get32 (p_pgdir (ptable s ! cur)) a (ff_mem (k_ff s)) = (Ret (user_word s cur a), ff_mem (k_ff s))"
      using g [of 0] g [of 1] g [of 2] g [of 3] by (simp add: user_get32_def user_word_def kop_defs)
    then have "inmem (user_get32 (p_pgdir (ptable s ! cur)) a) s = (Ret (user_word s cur a), s)"
      using assms by (intro inmem_pure) (simp_all add: image_ok_def)
    then show ?thesis using e True by (simp add: fetchint_def the_proc_def kop_defs)
  next
    case False
    then show ?thesis using e by (simp add: fetchint_def the_proc_def kop_defs)
  qed
qed

lemma fetchstr_loop_exec:
  assumes "image_ok s cur"
  shows "unat va + n \<le> unat (p_sz (ptable s ! cur)) \<Longrightarrow>
    (\<exists>w. fetchstr_loop (p_pgdir (ptable s ! cur)) n va acc s = (Ret (Some (acc @ w)), s) \<and> length w < n \<and>
       (\<forall>i < length w. w ! i = user_byte s cur (va + of_nat i) \<and> w ! i \<noteq> 0) \<and> user_byte s cur (va + of_nat (length w)) = 0) \<or>
    fetchstr_loop (p_pgdir (ptable s ! cur)) n va acc s = (Ret None, s) \<and> (\<forall>i < n. user_byte s cur (va + of_nat i) \<noteq> 0)"
proof (induction n arbitrary: va acc)
  case 0
  then show ?case by (simp add: kop_defs)
next
  case (Suc n)
  let ?b = "user_byte s cur va"
  have z: "unat (p_sz (ptable s ! cur)) \<le> 0x80000000" using assms by (simp add: image_ok_def word_le_nat_alt KERNBASE_def)
  have "va < p_sz (ptable s ! cur)" using Suc(2) by (simp add: word_less_nat_alt)
  note g = user_get_ok(2) [OF assms this]
  show ?case
  proof (cases "?b = 0")
    case True
    then have "fetchstr_loop (p_pgdir (ptable s ! cur)) (Suc n) va acc s = (Ret (Some (acc @ [])), s)" using g by (simp add: kop_defs)
    then show ?thesis using True by (intro disjI1 exI [of _ "[]"]) simp
  next
    case False
    have e: "fetchstr_loop (p_pgdir (ptable s ! cur)) (Suc n) va acc s = fetchstr_loop (p_pgdir (ptable s ! cur)) n (va + 1) (acc @ [?b]) s"
      using g False by (simp add: kop_defs)
    have "unat (va + 1) = unat va + 1" using Suc(2) z add_small [of va 1] by simp
    then have "unat (va + 1) + n \<le> unat (p_sz (ptable s ! cur))" using Suc(2) by simp
    from Suc(1) [OF this, of "acc @ [?b]"] show ?thesis
    proof (elim disjE exE conjE)
      fix w assume w: "fetchstr_loop (p_pgdir (ptable s ! cur)) n (va + 1) (acc @ [?b]) s = (Ret (Some ((acc @ [?b]) @ w)), s)" "length w < n"
        "\<forall>i < length w. w ! i = user_byte s cur (va + 1 + of_nat i) \<and> w ! i \<noteq> 0" "user_byte s cur (va + 1 + of_nat (length w)) = 0"
      show ?thesis
        by (intro disjI1 exI [of _ "?b # w"]) (use w e False in \<open>auto simp: nth_Cons algebra_simps split: nat.splits\<close>)
    next
      assume n: "fetchstr_loop (p_pgdir (ptable s ! cur)) n (va + 1) (acc @ [?b]) s = (Ret None, s)" "\<forall>i < n. user_byte s cur (va + 1 + of_nat i) \<noteq> 0"
      have "user_byte s cur (va + of_nat i) \<noteq> 0" if "i < Suc n" for i
        using that n(2) False by (cases i) (auto simp: algebra_simps)
      then show ?thesis using e n(1) by simp
    qed
  qed
qed

section \<open>Properties\<close>

text \<open>
  C11. System call arguments.  Whatever the user program puts into its stack pointer and its
  arguments, fetching them neither traps in the kernel nor changes its state.  An integer is read exactly
  if its four bytes lie below the size of the process; a block that \<^verbatim>\<open>argptr\<close> accepts lies below the
  size, also when the addition of its length could wrap around; a string that \<^verbatim>\<open>argstr\<close> accepts is
  the bytes up to a terminating zero below the size.
\<close>

theorem args_safe:
  assumes "image_ok s cur"
  shows "(let a = tf_esp (p_tf (ptable s ! cur)) + 4 + 4 * n in
      argint cur n s = (Ret (if unat a + 4 \<le> unat (p_sz (ptable s ! cur)) then Some (user_word s cur a) else None), s)) \<and>
    (\<exists>r. argptr cur n len s = (Ret r, s) \<and> (\<forall>q. r = Some q \<longrightarrow> argint cur n s = (Ret (Some q), s) \<and>
       q < p_sz (ptable s ! cur) \<and> unat q + unat len \<le> unat (p_sz (ptable s ! cur)))) \<and>
    (\<exists>r. argstr cur n s = (Ret r, s) \<and> (\<forall>w. r = Some w \<longrightarrow> (\<exists>q. argint cur n s = (Ret (Some q), s) \<and>
       unat q + length w < unat (p_sz (ptable s ! cur)) \<and>
       (\<forall>i < length w. w ! i = user_byte s cur (q + of_nat i) \<and> w ! i \<noteq> 0) \<and> user_byte s cur (q + of_nat (length w)) = 0)))"
proof (intro conjI)
  let ?z = "p_sz (ptable s ! cur)"
  define a where "a = tf_esp (p_tf (ptable s ! cur)) + 4 + 4 * n"
  have z: "unat ?z \<le> 0x80000000" using assms by (simp add: image_ok_def word_le_nat_alt KERNBASE_def)
  have ai: "argint cur n s = (Ret (if unat a + 4 \<le> unat ?z then Some (user_word s cur a) else None), s)"
    using fetchint_exec [OF assms, of a] by (simp add: argint_def the_proc_def kop_defs a_def)
  then show "let a = tf_esp (p_tf (ptable s ! cur)) + 4 + 4 * n in
      argint cur n s = (Ret (if unat a + 4 \<le> unat ?z then Some (user_word s cur a) else None), s)" by (simp add: a_def)
  obtain r0 where r0: "argint cur n s = (Ret r0, s)" using ai by blast
  show "\<exists>r. argptr cur n len s = (Ret r, s) \<and> (\<forall>q. r = Some q \<longrightarrow> argint cur n s = (Ret (Some q), s) \<and> q < ?z \<and> unat q + unat len \<le> unat ?z)"
  proof (cases r0)
    case (Some q)
    have "unat q + unat len \<le> unat ?z" if l: "\<not> sint len < 0" "\<not> ?z \<le> q" "\<not> ?z < q + len"
    proof -
      have "unat len < 2 ^ 31" by (rule sint_nonneg) (use l(1) in simp)
      then have "unat (q + len) = unat q + unat len" using l(2) z by (simp add: unat_word_ariths word_le_nat_alt)
      then show ?thesis using l(3) by (simp add: word_less_nat_alt)
    qed
    then show ?thesis using r0 Some by (auto simp: argptr_def the_proc_def kop_defs)
  qed (use r0 in \<open>simp add: argptr_def the_proc_def kop_defs\<close>)
  show "\<exists>r. argstr cur n s = (Ret r, s) \<and> (\<forall>w. r = Some w \<longrightarrow> (\<exists>q. argint cur n s = (Ret (Some q), s) \<and> unat q + length w < unat ?z \<and>
       (\<forall>i < length w. w ! i = user_byte s cur (q + of_nat i) \<and> w ! i \<noteq> 0) \<and> user_byte s cur (q + of_nat (length w)) = 0))"
  proof (cases r0)
    case (Some q)
    show ?thesis
    proof (cases "?z \<le> q")
      case True
      then show ?thesis using r0 Some by (simp add: argstr_def fetchstr_def the_proc_def kop_defs)
    next
      case False
      then have u: "unat q + unat (?z - q) = unat ?z" by (simp add: unat_sub word_le_nat_alt)
      have "argstr cur n s = fetchstr_loop (p_pgdir (ptable s ! cur)) (unat (?z - q)) q [] s"
        using r0 Some False by (simp add: argstr_def fetchstr_def the_proc_def kop_defs)
      then show ?thesis using fetchstr_loop_exec [OF assms, of q "unat (?z - q)" "[]"] u r0 Some by fastforce
    qed
  qed (use r0 in \<open>simp add: argstr_def kop_defs\<close>)
qed

theorem args_safe_witness:
  "\<exists>s w. image_ok s 0 \<and> p_sz (ptable s ! 0) = 0x1000 \<and> argint 0 0 s = (Ret (Some w), s)"
proof -
  obtain x :: kmem where x: "\<forall>vb. in_range 0 4096 vb \<longrightarrow> mapped (mem x) 0x80400000 vb" using one_page_space by blast
  define s where "s = ex_kern\<lparr>k_ff := ex_files\<lparr>ff_mem := x\<rparr>, ptable := [(ex_proc RUNNING 1)\<lparr>p_tf := init_frame\<lparr>tf_esp := 0\<rparr>\<rparr>]\<rparr>"
  have p: "p_sz (ptable s ! 0) = 0x1000" "p_pgdir (ptable s ! 0) = 0x80400000" "tf_esp (p_tf (ptable s ! 0)) = 0" "user_mem s = mem x"
    "fs_wake (ff_fs (k_ff s)) = []" by (simp_all add: s_def ex_proc_def user_mem_def ex_files_def ex_fsys_def)
  have ok: "image_ok s 0" unfolding image_ok_def p using x by (simp add: in_range_def word_less_nat_alt KERNBASE_def)
  show ?thesis using args_safe [OF ok, of 0] ok p(1,3) by auto
qed

text \<open>
  C40. A process can be born killed.  \<^verbatim>\<open>kill\<close> looks only at the pid and so finds an unused entry with a stale
  pid, or pid 0 in a fresh table, and reports success; \<^verbatim>\<open>allocproc\<close> does not clear \<^verbatim>\<open>killed\<close>, so if this
  entry is the next one used, the new process is already killed.
\<close>

theorem kill_free_slot:
  assumes "fs_wake (ff_fs (k_ff s)) = []" "freelist (ff_mem (k_ff s)) \<noteq> 0"
    "first_idx (\<lambda>p. p_pid p = pid) (ptable s) = Some i" "first_idx (\<lambda>p. p_state p = UNUSED) (ptable s) = Some i"
  shows "\<exists>t u. kill pid s = (Ret 0, t) \<and> allocproc k t = (Ret (Some i), u) \<and>
    p_pid (ptable u ! i) = nextpid s \<and> p_state (ptable u ! i) = EMBRYO \<and> p_killed (ptable u ! i)"
proof -
  let ?q = "(ptable s ! i)\<lparr>p_killed := True\<rparr>"
  define t where "t = s\<lparr>ptable := (ptable s)[i := ?q]\<rparr>"
  have i: "i < length (ptable s)" "p_state (ptable s ! i) = UNUSED" using assms(4) by (simp_all add: first_idx_Some)
  have kill: "kill pid s = (Ret 0, t)" using assms(3) i by (simp add: kill_def upd_proc_def kop_defs t_def)
  have "map (\<lambda>p. p_state p = UNUSED) ((ptable s)[i := ?q]) = map (\<lambda>p. p_state p = UNUSED) (ptable s)"
    using i by (simp add: map_update list_update_same_conv)
  then have "first_idx (\<lambda>p. p_state p = UNUSED) (ptable t) = Some i"
    using assms(4) first_idx_cong [of "\<lambda>p. p_state p = UNUSED" "ptable t" "\<lambda>p. p_state p = UNUSED" "ptable s"] by (simp add: t_def)
  then have slot: "proc_slot (nextpid s) (ptable t) = Some (i, (ptable s)[i := claim_proc (nextpid s) ?q])"
    using i by (simp add: proc_slot_def t_def)
  let ?s = "t\<lparr>ptable := (ptable s)[i := claim_proc (nextpid s) ?q], nextpid := nextpid s + 1\<rparr>"
  have "inmem kalloc ?s = (Ret (freelist (ff_mem (k_ff s))), ?s\<lparr>k_ff := (k_ff s)\<lparr>ff_mem := (ff_mem (k_ff s))\<lparr>freelist := mem (ff_mem (k_ff s)) (freelist (ff_mem (k_ff s)))\<rparr>\<rparr>\<rparr>)"
    by (subst inmem_state) (use assms(1,2) in \<open>simp_all add: t_def kalloc_def Let_def\<close>)
  then have "\<exists>u. allocproc k t = (Ret (Some i), u) \<and> p_pid (ptable u ! i) = nextpid s \<and> p_state (ptable u ! i) = EMBRYO \<and> p_killed (ptable u ! i)"
    using slot assms(2) i by (simp add: allocproc_def upd_proc_def kop_defs claim_proc_def t_def)
  then show ?thesis using kill by blast
qed

theorem kill_free_slot_witness:
  "\<exists>t u. kill 0 ex_kern = (Ret 0, t) \<and> allocproc ex_konf t = (Ret (Some 2), u) \<and> p_killed (ptable u ! 2)"
proof -
  have "first_idx (\<lambda>p. p_pid p = 0) (ptable ex_kern) = Some 2" "first_idx (\<lambda>p. p_state p = UNUSED) (ptable ex_kern) = Some 2"
    by (simp_all add: ex_kern_def ex_proc_def)
  moreover have "fs_wake (ff_fs (k_ff ex_kern)) = []" "freelist (ff_mem (k_ff ex_kern)) \<noteq> 0"
    by (simp_all add: ex_kern_def ex_files_def ex_fsys_def two_pages_def)
  ultimately show ?thesis using kill_free_slot [of ex_kern 0 2 ex_konf] by blast
qed

end
