(* ===== verification/Spec2Isabelle.thy ===== *)
theory Spec2Isabelle
  imports Phys_Alloc Pipe_Ring Format Locking Log_Recovery Vm_Copy Console Umalloc Text_Tools Shell_Hw1 Call_Safety
begin

text \<open>
  Verification of BasicOS: the xv6 kernel for the 32-bit x86 with kernel threads and files kept in chains
  of index blocks (\<^verbatim>\<open>src/xv6-public\<close>), its user library, shell and some tools, and the shell of the
  first assignment (\<^verbatim>\<open>src/cs238p_hw1\<close>).

  \<^bold>\<open>How the program is modelled.\<close>  A routine of the kernel is a function from a state to an outcome and a
  new state (\<open>kop\<close> in \<open>Kernel_Prelude\<close>).  The outcome is a returned value, a panic with the message of the
  source, or going to sleep on a channel; a routine that sleeps leaves in its state what it needs
  to go on.  Machine words are \<open>32 word\<close>, \<open>16 word\<close> and \<open>8 word\<close>, so that every wrap-around of the code is in
  the model.  Pointers into tables are indices; pointers to memory are addresses.  Code that holds a
  spin lock is one step; the spin locks themselves are cut into the steps another processor can see.
  Values that come from the linker (\<^verbatim>\<open>end\<close>, \<^verbatim>\<open>data\<close>, \<^verbatim>\<open>forkret\<close>) are parameters.

  \<^bold>\<open>Parts and theories.\<close>

  \<^item> \<open>Phys_Alloc\<close>: \<^verbatim>\<open>kalloc.c\<close>.  The free list runs through the free pages themselves.  Pages handed out
    belong to nobody else, however allocation, freeing and stores interleave; \<^verbatim>\<open>kinit1\<close> and \<^verbatim>\<open>kinit2\<close> free
    exactly the usable pages; \<^verbatim>\<open>kcount\<close> returns the number of free pages.
  \<^item> \<open>Vm\<close>, \<open>Vm_Space\<close>, \<open>Vm_Copy\<close>: \<^verbatim>\<open>vm.c\<close>.  Page directories and tables are words of the same memory.  The
    invariant \<open>vm_inv\<close> separates the directory, its tables, the user frames and the free pages.  The
    lemmas say what \<^verbatim>\<open>mappages\<close>, \<^verbatim>\<open>allocuvm\<close>, \<^verbatim>\<open>deallocuvm\<close>, \<^verbatim>\<open>freevm\<close>, \<^verbatim>\<open>setupkvm\<close>, \<^verbatim>\<open>copyuvm\<close> and
    \<^verbatim>\<open>copyout\<close> do to the translation, the free list and every other word of memory, also when they
    run out of pages.
  \<^item> \<open>Locking\<close>: \<^verbatim>\<open>spinlock.c\<close> and \<^verbatim>\<open>sleeplock.c\<close>.  Mutual exclusion over any number of processors and of
    processes, the nesting of \<^verbatim>\<open>pushcli\<close> and \<^verbatim>\<open>popcli\<close>.
  \<^item> \<open>Buf_Cache\<close>, \<open>Disk_Format\<close>, \<open>Log\<close>, \<open>Log_Recovery\<close>: \<^verbatim>\<open>bio.c\<close>, \<^verbatim>\<open>ide.c\<close>, \<^verbatim>\<open>memide.c\<close> and \<^verbatim>\<open>log.c\<close>.  The cache is
    transparent; the order of the disk writes is recorded, and a crash is a prefix of them.  A commit is
    atomic whatever crashes happen, recovery included; concurrent calls keep the log well-formed.
  \<^item> \<open>Fs\<close>, \<open>Files\<close>: \<^verbatim>\<open>fs.c\<close>, \<^verbatim>\<open>file.c\<close> and \<^verbatim>\<open>pipealloc\<close>, over the cache and the log.
  \<^item> \<open>Pipe_Ring\<close>: \<^verbatim>\<open>pipe.c\<close>.  Refinement of the ring buffer to a queue of bytes; order of the bytes and
    absence of lost wakeups for any number of readers and writers; the wakeup a killed writer loses.
  \<^item> \<open>C_String\<close>, \<open>Format\<close>: \<^verbatim>\<open>string.c\<close>, \<^verbatim>\<open>ulib.c\<close>, \<^verbatim>\<open>printf.c\<close> and \<^verbatim>\<open>cprintf\<close>.
  \<^item> \<open>Console\<close>: \<^verbatim>\<open>console.c\<close> and \<^verbatim>\<open>kbd.c\<close>.  The interrupt handler refines an abstract line editor.
  \<^item> \<open>Proc\<close>, \<open>Syscall\<close>, \<open>Exec\<close>: \<^verbatim>\<open>proc.c\<close>, \<^verbatim>\<open>syscall.c\<close>, \<^verbatim>\<open>sysproc.c\<close>, \<^verbatim>\<open>sysfile.c\<close>, \<^verbatim>\<open>exec.c\<close> and
    \<^verbatim>\<open>trap.c\<close>: the process table, threads, every system call and the trap handler, composed over all the
    parts above.  \<^verbatim>\<open>exit\<close> and \<^verbatim>\<open>thread_exit\<close> have the same body, \<open>exit_common\<close>.
  \<^item> \<open>Scheduling\<close>: what any system call, interrupt or fault may do to the states of processes, statement by
    statement through the locale \<open>framing\<close>; a process is \<^verbatim>\<open>RUNNING\<close> exactly when one processor runs it.
  \<^item> \<open>Call_Safety\<close>: fetching arguments cannot make the kernel fault; a process that is born killed.
  \<^item> \<open>Umalloc\<close>: \<^verbatim>\<open>umalloc.c\<close>.  Memory safety of \<^verbatim>\<open>malloc\<close> and \<^verbatim>\<open>free\<close> over all histories of a program.
  \<^item> \<open>Text_Tools\<close>: \<^verbatim>\<open>grep.c\<close>, \<^verbatim>\<open>wc.c\<close> and \<^verbatim>\<open>fmtname\<close> of \<^verbatim>\<open>ls.c\<close>.  The matcher decides the language of the pattern.
  \<^item> \<open>Shell_Parse\<close>, \<open>Shell\<close>: \<^verbatim>\<open>sh.c\<close>.  The parser returns and stays in its line, reads back every printed
    command, and \<^verbatim>\<open>runcmd\<close> gives each program of a line the descriptors the line describes.
  \<^item> \<open>Shell_Hw1\<close>: \<^verbatim>\<open>cs238p_hw1/sh.c\<close>.  Agreement of its parser with the other one; the wiring of its pipelines.

  \<^bold>\<open>Interfaces.\<close>  The locales of the development are \<open>slot_table\<close> (the search for a free slot, of file
  table, process table and descriptors), \<open>ring\<close> (free-running counters, of pipes and console),
  \<open>byte_queue\<close> (a pipe as a queue), \<open>page_allocator\<close> (the contract of \<^verbatim>\<open>kalloc\<close> and \<^verbatim>\<open>kfree\<close>),
  \<open>state_machine\<close> (invariants of step relations) and \<open>framing\<close> (what a routine may change).

  \<^bold>\<open>Loops and fuel.\<close>  A loop is recursion on its data or has a termination proof, except for these.  Scans
  that end only at a terminating zero or at the end of a list in memory, such as the string routines,
  \<^verbatim>\<open>kcount\<close> and the list scans of \<^verbatim>\<open>malloc\<close> and \<^verbatim>\<open>free\<close>, are partial functions with \<open>None\<close> for
  not returning; that they return is part of what is shown about them.  \<^verbatim>\<open>deallocuvm\<close> counts at most
  the pages of the address space (lemma \<open>deallocuvm_loop_fuel\<close>: more fuel gives the same result).  The parser
  of the shell has four units of fuel for each byte of the line, one for each routine that can be entered
  before a byte is consumed (lemma \<open>parse_enough\<close>), and that of the first shell one unit for each byte
  and one more (lemma \<open>h_parsepipe_total\<close>).

  \<^bold>\<open>Not modelled.\<close>  Boot loader, assembly entry points and the context switch itself: they only save and
  load registers the development does not talk about.  Interrupt controllers, timer, multiprocessor tables, the
  serial and disk ports and the set-up of descriptor tables: reads and writes of device registers
  whose behaviour is not in the sources; a disk transfer is one step.  \<^verbatim>\<open>main.c\<close>: a sequence of calls of the
  initialisation routines.  \<^verbatim>\<open>mkfs.c\<close>: it runs on the host; the layout of the disk it makes appears as the
  assumptions about the disk at the first boot.  The user-level locks of \<^verbatim>\<open>thread_lock_impl.h\<close>: spin loops over
  the exchange instruction that is studied for the spin locks of the kernel.  \<^verbatim>\<open>usertests.c\<close> and the other test
  programs, and the programs that are one system call in a loop over their arguments.  Messages printed
  on the way.  Of the file system and process layers the development has the complete operations and the
  properties named above; it states no invariant of the on-disk inode and directory structure, since
  \<^verbatim>\<open>itrunc\<close> does not follow the chains \<^verbatim>\<open>bmap\<close> builds and so does not keep one.
\<close>

end
